(* ===== verification/Prelude.thy ===== *)
theory Prelude
  imports Main "HOL-Library.Word"
begin

text \<open>
  Shared vocabulary of the development: the C integer types as words (\<^verbatim>\<open>types.h\<close>),
  the ways a kernel computation can stop (panic, a wait for another CPU or
  process, a fault), the bind of such computations with its rewrite collection, byte-addressed
  memory with little-endian 32-bit accesses, and the generic list and word lemmas the
  components use.
\<close>

unbundle bit_operations_syntax

named_theorems res_simps "unfolding rules for computations that may stop"
named_theorems mem_simps "reading a store after writing it"

section \<open>C integer types\<close>

type_synonym uchar = "8 word"
type_synonym ushort = "16 word"
type_synonym uint = "32 word"
type_synonym addr = "32 word"

section \<open>Computations that may stop\<close>

text \<open>
  \<^verbatim>\<open>Panic s\<close> is a call of \<^verbatim>\<open>panic(s)\<close>, which never returns.  \<^verbatim>\<open>Waits\<close> is a point where the
  caller spins or sleeps and only another CPU or process can let it go on.  \<^verbatim>\<open>Loops\<close> is a loop
  that never ends.  \<^verbatim>\<open>Fault\<close> is an
  access the C code makes outside the objects it owns (a null pointer, an array index out of
  range), where the language gives no meaning.
\<close>

datatype stop = Panic string | Waits | Loops | Fault

type_synonym 'a res = "stop + 'a"

definition bindE :: "'e + 'a \<Rightarrow> ('a \<Rightarrow> 'e + 'b) \<Rightarrow> 'e + 'b" where
  "bindE m f = (case m of Inl e \<Rightarrow> Inl e | Inr x \<Rightarrow> f x)"

lemma bindE_Inl [simp, res_simps]: "bindE (Inl e) f = Inl e"
  by (simp add: bindE_def)

lemma bindE_Inr [simp, res_simps]: "bindE (Inr x) f = f x"
  by (simp add: bindE_def)

lemma bindE_eq_Inr [res_simps]: "bindE m f = Inr y \<longleftrightarrow> (\<exists>x. m = Inr x \<and> f x = Inr y)"
  by (auto simp: bindE_def split: sum.splits)

lemma bindE_eq_Inl: "bindE m f = Inl e \<longleftrightarrow> m = Inl e \<or> (\<exists>x. m = Inr x \<and> f x = Inl e)"
  by (auto simp: bindE_def split: sum.splits)

lemma bindE_cong [fundef_cong]:
  "m = m' \<Longrightarrow> (\<And>x. m' = Inr x \<Longrightarrow> f x = f' x) \<Longrightarrow> bindE m f = bindE m' f'"
  by (auto simp: bindE_def split: sum.splits)

text \<open>\<^verbatim>\<open>guardE c e\<close> stops with \<^verbatim>\<open>e\<close> unless \<^verbatim>\<open>c\<close> holds.\<close>

definition guardE :: "bool \<Rightarrow> 'e \<Rightarrow> 'e + unit" where
  "guardE c e = (if c then Inr () else Inl e)"

lemma guardE_True [simp, res_simps]: "guardE True e = Inr ()"
  by (simp add: guardE_def)

lemma guardE_False [simp, res_simps]: "guardE False e = Inl e"
  by (simp add: guardE_def)

lemma guardE_eq_Inr [simp]: "guardE c e = Inr u \<longleftrightarrow> c"
  by (cases u) (simp add: guardE_def)

text \<open>A \<^verbatim>\<open>for\<close> loop over known indices whose body may stop.\<close>

fun foldE :: "('a \<Rightarrow> 's \<Rightarrow> 'e + 's) \<Rightarrow> 'a list \<Rightarrow> 's \<Rightarrow> 'e + 's" where
  "foldE f [] s = Inr s"
| "foldE f (x # xs) s = bindE (f x s) (foldE f xs)"

lemma foldE_append [simp]: "foldE f (xs @ ys) s = bindE (foldE f xs s) (foldE f ys)"
  by (induction xs arbitrary: s) (auto simp: bindE_def split: sum.splits)

text \<open>
  A loop whose body succeeds as long as it is at the right index, with what holds before each
  index.
\<close>

lemma foldE_upt:
  assumes "P 0 s" "\<And>k t. k < n \<Longrightarrow> P k t \<Longrightarrow> \<exists>u. f k t = Inr u \<and> P (Suc k) u"
  shows "\<exists>t. foldE f [0..<n] s = Inr t \<and> P n t"
  using assms(2)
proof (induction n)
  case 0
  then show ?case using assms(1) by simp
next
  case (Suc n)
  then obtain t where t: "foldE f [0..<n] s = Inr t" "P n t"
    by (metis less_SucI)
  obtain u where "f n t = Inr u" "P (Suc n) u"
    using Suc.prems [of n t] t(2) by auto
  then show ?case using t(1) by simp
qed

section \<open>Byte-addressed memory\<close>

type_synonym mem = "addr \<Rightarrow> uchar"

definition ld32 :: "mem \<Rightarrow> addr \<Rightarrow> uint" where
  "ld32 m a = ucast (m a) OR push_bit 8 (ucast (m (a + 1)))
     OR push_bit 16 (ucast (m (a + 2))) OR push_bit 24 (ucast (m (a + 3)))"

definition st32 :: "mem \<Rightarrow> addr \<Rightarrow> uint \<Rightarrow> mem" where
  "st32 m a v = m(a := ucast v, a + 1 := ucast (drop_bit 8 v),
     a + 2 := ucast (drop_bit 16 v), a + 3 := ucast (drop_bit 24 v))"

lemma word_bytes_join:
  fixes v :: uint
  shows "ucast (ucast v :: uchar) OR push_bit 8 (ucast (ucast (drop_bit 8 v) :: uchar))
     OR push_bit 16 (ucast (ucast (drop_bit 16 v) :: uchar))
     OR push_bit 24 (ucast (ucast (drop_bit 24 v) :: uchar)) = v"
proof (rule bit_word_eqI)
  let ?w = "ucast (ucast v :: uchar) OR push_bit 8 (ucast (ucast (drop_bit 8 v) :: uchar))
     OR push_bit 16 (ucast (ucast (drop_bit 16 v) :: uchar))
     OR push_bit 24 (ucast (ucast (drop_bit 24 v) :: uchar)) :: uint"
  fix n :: nat
  assume n: "n < LENGTH(32)"
  consider "n < 8" | "8 \<le> n" "n < 16" | "16 \<le> n" "n < 24" | "24 \<le> n" "n < 32"
    using n by fastforce
  then show "bit ?w n = bit v n"
    by cases (auto simp: bit_or_iff bit_push_bit_iff bit_unsigned_iff bit_drop_bit_eq)
qed

lemma addr_offsets_distinct [simp]:
  fixes a :: addr
  shows "a + 1 \<noteq> a" "a + 2 \<noteq> a" "a + 3 \<noteq> a" "a \<noteq> a + 1" "a \<noteq> a + 2" "a \<noteq> a + 3"
  by simp_all

lemma ld32_st32_same [simp, mem_simps]: "ld32 (st32 m a v) a = v"
  using word_bytes_join [of v] by (simp add: ld32_def st32_def)

text \<open>Storing a sequence of bytes.\<close>

fun wr :: "mem \<Rightarrow> addr \<Rightarrow> uchar list \<Rightarrow> mem" where
  "wr m a [] = m"
| "wr m a (c # cs) = wr (m(a := c)) (a + 1) cs"

section \<open>Words as numbers\<close>

lemma unat_uint_less [simp]: "unat (x :: uint) < 4294967296"
  using unsigned_less [of x] by simp

lemma unat_of_nat_uint: "n < 4294967296 \<Longrightarrow> unat (of_nat n :: uint) = n"
  by (simp add: unat_of_nat take_bit_eq_mod)

lemma unat_add_uint: "unat a + unat b < 4294967296 \<Longrightarrow> unat (a + b :: uint) = unat a + unat b"
  by (simp add: unat_word_ariths)

lemma unat_sub_uint: "b \<le> a \<Longrightarrow> unat (a - b :: uint) = unat a - unat b"
  by (simp add: unat_sub)

section \<open>Step relations and their invariants\<close>

text \<open>
  The contract of every state machine of the development: a predicate that each step keeps.  What
  a client gets from it is the predicate in every state reachable from one where it holds.
\<close>

locale stepwise_invariant =
  fixes step :: "'s \<Rightarrow> 's \<Rightarrow> bool" and inv :: "'s \<Rightarrow> bool"
  assumes preserved: "step s t \<Longrightarrow> inv s \<Longrightarrow> inv t"
begin

lemma reachable: "step\<^sup>*\<^sup>* s t \<Longrightarrow> inv s \<Longrightarrow> inv t"
  by (induction rule: rtranclp_induct) (auto intro: preserved)

lemma reachable_step: "step\<^sup>*\<^sup>* s t \<Longrightarrow> inv s \<Longrightarrow> step t u \<Longrightarrow> inv t \<and> inv u"
  using preserved reachable by blast

end

end
