(* ===== verification/Block_store.thy ===== *)
theory Block_store
  imports Prelude
begin

text \<open>
  The contract between the buffer cache and its clients (the log and the file system).  The
  abstract state of a cache is what its readers see, what the disk has, the writes the disk has
  received, the block each buffer of the running process holds, the blocks any process holds,
  and the blocks kept in memory until the log commits them.  The locale states what each
  operation of the cache does to that state and when it succeeds; the combinations of operations
  the clients use are proved once from these laws.
\<close>

definition NBUF :: nat where "NBUF = 30"
definition BSIZE :: nat where "BSIZE = 512"

type_synonym block = "uchar list"

record bstore =
  vw :: "uint \<Rightarrow> block"
  dk :: "uint \<Rightarrow> block"
  hs :: "(uint \<times> block) list"
  hld :: "nat \<Rightarrow> uint option"
  lkd :: "uint set"
  dty :: "uint set"

definition a_bread :: "nat \<Rightarrow> uint \<Rightarrow> bstore \<Rightarrow> bstore" where
  "a_bread i b A = A\<lparr>hld := (hld A)(i \<mapsto> b), lkd := insert b (lkd A)\<rparr>"

definition a_put :: "nat \<Rightarrow> block \<Rightarrow> bstore \<Rightarrow> bstore" where
  "a_put i d A = A\<lparr>vw := (vw A)(the (hld A i) := d)\<rparr>"

definition a_pin :: "nat \<Rightarrow> bstore \<Rightarrow> bstore" where
  "a_pin i A = A\<lparr>dty := insert (the (hld A i)) (dty A)\<rparr>"

definition a_bwrite :: "nat \<Rightarrow> bstore \<Rightarrow> bstore" where
  "a_bwrite i A = (let b = the (hld A i) in
     A\<lparr>dk := (dk A)(b := vw A b), hs := hs A @ [(b, vw A b)], dty := dty A - {b}\<rparr>)"

definition a_brelse :: "nat \<Rightarrow> bstore \<Rightarrow> bstore" where
  "a_brelse i A = A\<lparr>hld := (hld A)(i := None), lkd := lkd A - {the (hld A i)}\<rparr>"

lemmas a_ops = a_bread_def a_put_def a_pin_def a_bwrite_def a_brelse_def Let_def

text \<open>A block that may be given back: its contents are on the disk or it is kept for the log.\<close>

definition settled :: "bstore \<Rightarrow> uint \<Rightarrow> bool" where
  "settled A b \<longleftrightarrow> vw A b = dk A b \<or> b \<in> dty A"

text \<open>A buffer can be had for the block: it is in the cache, or some buffer is neither held nor kept.\<close>

definition avail :: "bstore \<Rightarrow> uint \<Rightarrow> bool" where
  "avail A b \<longleftrightarrow> b \<in> dty A \<or> card (lkd A \<union> dty A) < NBUF"

text \<open>Block \<^verbatim>\<open>y\<close> overwritten with block \<^verbatim>\<open>x\<close>, in memory and on disk.\<close>

definition copied :: "uint \<Rightarrow> uint \<Rightarrow> bstore \<Rightarrow> bstore" where
  "copied x y A = A\<lparr>vw := (vw A)(y := vw A x), dk := (dk A)(y := vw A x), hs := hs A @ [(y, vw A x)], dty := dty A - {y}\<rparr>"

locale block_store =
  fixes bread :: "uint \<Rightarrow> 's \<Rightarrow> (nat \<times> 's) res"
    and bwrite :: "nat \<Rightarrow> 's \<Rightarrow> 's res"
    and brelse :: "nat \<Rightarrow> 's \<Rightarrow> 's res"
    and fetch :: "nat \<Rightarrow> 's \<Rightarrow> block"
    and put :: "nat \<Rightarrow> block \<Rightarrow> 's \<Rightarrow> 's"
    and pin :: "nat \<Rightarrow> 's \<Rightarrow> 's"
    and inv :: "'s \<Rightarrow> bool"
    and abs :: "'s \<Rightarrow> bstore"
    and rest :: "'s \<Rightarrow> 'r"
    and nblocks :: "'r \<Rightarrow> uint"
  assumes bread_ref: "\<lbrakk>inv s; bread b s = Inr (i, t)\<rbrakk> \<Longrightarrow>
      inv t \<and> rest t = rest s \<and> abs t = a_bread i b (abs s) \<and> hld (abs s) i = None \<and> b \<notin> lkd (abs s)"
    and bread_ok: "\<lbrakk>inv s; b < nblocks (rest s); b \<notin> lkd (abs s); avail (abs s) b\<rbrakk> \<Longrightarrow> \<exists>i t. bread b s = Inr (i, t)"
    and fetch: "\<lbrakk>inv s; hld (abs s) i = Some b\<rbrakk> \<Longrightarrow> fetch i s = vw (abs s) b"
    and put_ref: "\<lbrakk>inv s; hld (abs s) i = Some b; length d = BSIZE\<rbrakk> \<Longrightarrow>
      inv (put i d s) \<and> rest (put i d s) = rest s \<and> abs (put i d s) = a_put i d (abs s)"
    and pin_ref: "\<lbrakk>inv s; hld (abs s) i = Some b\<rbrakk> \<Longrightarrow>
      inv (pin i s) \<and> rest (pin i s) = rest s \<and> abs (pin i s) = a_pin i (abs s)"
    and bwrite_ref: "\<lbrakk>inv s; hld (abs s) i = Some b; b < nblocks (rest s)\<rbrakk> \<Longrightarrow>
      \<exists>t. bwrite i s = Inr t \<and> inv t \<and> rest t = rest s \<and> abs t = a_bwrite i (abs s)"
    and brelse_ref: "\<lbrakk>inv s; hld (abs s) i = Some b; settled (abs s) b\<rbrakk> \<Longrightarrow>
      \<exists>t. brelse i s = Inr t \<and> inv t \<and> rest t = rest s \<and> abs t = a_brelse i (abs s)"
    and held_locked: "\<lbrakk>inv s; hld (abs s) i = Some b\<rbrakk> \<Longrightarrow> b \<in> lkd (abs s)"
    and free_settled: "\<lbrakk>inv s; b \<notin> lkd (abs s)\<rbrakk> \<Longrightarrow> settled (abs s) b"
    and view_length: "inv s \<Longrightarrow> length (vw (abs s) b) = BSIZE"
begin

text \<open>\<^verbatim>\<open>bread\<close> of a block nobody holds, with a buffer to spare.\<close>

lemma bread_step:
  assumes "inv s" "b < nblocks (rest s)" "b \<notin> lkd (abs s)" "avail (abs s) b"
  obtains i t where "bread b s = Inr (i, t)" "inv t" "rest t = rest s" "abs t = a_bread i b (abs s)"
    "hld (abs t) i = Some b" "fetch i t = vw (abs s) b" "hld (abs s) i = None"
proof -
  obtain i t where r: "bread b s = Inr (i, t)"
    using bread_ok assms by blast
  note R = bread_ref [OF assms(1) r]
  then have h: "hld (abs t) i = Some b"
    by (simp add: a_bread_def)
  then show ?thesis
    using that [OF r] R fetch [of t i b] by (simp add: a_bread_def)
qed

text \<open>\<^verbatim>\<open>bread\<close>, copy something out of the buffer, \<^verbatim>\<open>brelse\<close>: nothing changes.\<close>

lemma read_block:
  assumes "inv s" "b < nblocks (rest s)" "b \<notin> lkd (abs s)" "avail (abs s) b"
  shows "\<exists>i t u. bread b s = Inr (i, t) \<and> fetch i t = vw (abs s) b \<and> brelse i t = Inr u \<and>
    inv u \<and> rest u = rest s \<and> abs u = abs s \<and> rest t = rest s"
proof -
  obtain i t where t: "bread b s = Inr (i, t)" "inv t" "rest t = rest s" "abs t = a_bread i b (abs s)"
    "hld (abs t) i = Some b" "fetch i t = vw (abs s) b" "hld (abs s) i = None"
    using bread_step [OF assms] .
  have "settled (abs t) b"
    using free_settled [OF assms(1,3)] t(4) by (simp add: settled_def a_bread_def)
  then obtain u where u: "brelse i t = Inr u" "inv u" "rest u = rest t" "abs u = a_brelse i (abs t)"
    using brelse_ref t by blast
  have "abs u = abs s"
    using u(4) t(4,7) assms(3) by (cases "abs s") (auto simp: a_ops fun_upd_idem_iff)
  then show ?thesis using t u by auto
qed

text \<open>\<^verbatim>\<open>bread\<close>, change the data, \<^verbatim>\<open>bwrite\<close>, \<^verbatim>\<open>brelse\<close>.\<close>

lemma write_block:
  assumes "inv s" "b < nblocks (rest s)" "b \<notin> lkd (abs s)" "avail (abs s) b"
    and f: "\<And>d. length d = BSIZE \<Longrightarrow> length (f d) = BSIZE"
  shows "\<exists>i t u v. bread b s = Inr (i, t) \<and> bwrite i (put i (f (fetch i t)) t) = Inr u \<and> brelse i u = Inr v \<and>
    inv v \<and> rest v = rest s \<and> rest t = rest s \<and> fetch i t = vw (abs s) b \<and> abs v = (abs s)\<lparr>
      vw := (vw (abs s))(b := f (vw (abs s) b)), dk := (dk (abs s))(b := f (vw (abs s) b)),
      hs := hs (abs s) @ [(b, f (vw (abs s) b))], dty := dty (abs s) - {b}\<rparr>"
proof -
  obtain i t where t: "bread b s = Inr (i, t)" "inv t" "rest t = rest s" "abs t = a_bread i b (abs s)"
    "hld (abs t) i = Some b" "fetch i t = vw (abs s) b" "hld (abs s) i = None"
    using bread_step [OF assms(1-4)] .
  let ?d = "f (vw (abs s) b)" and ?p = "put i (f (fetch i t)) t"
  have p: "inv ?p" "rest ?p = rest s" "abs ?p = a_put i ?d (abs t)"
    using put_ref [OF t(2,5), of ?d] f view_length [OF assms(1)] t(3,6) by auto
  have h: "hld (abs ?p) i = Some b"
    using p(3) t(5) by (simp add: a_put_def)
  obtain u where u: "bwrite i ?p = Inr u" "inv u" "rest u = rest s" "abs u = a_bwrite i (abs ?p)"
    using bwrite_ref [OF p(1) h] p(2) assms(2) by auto
  have "settled (abs u) b" and hu: "hld (abs u) i = Some b"
    using u(4) h by (auto simp: settled_def a_bwrite_def Let_def)
  then obtain v where v: "brelse i u = Inr v" "inv v" "rest v = rest u" "abs v = a_brelse i (abs u)"
    using brelse_ref u(2) by blast
  have "abs v = (abs s)\<lparr>vw := (vw (abs s))(b := ?d), dk := (dk (abs s))(b := ?d),
      hs := hs (abs s) @ [(b, ?d)], dty := dty (abs s) - {b}\<rparr>"
    using v(4) u(4) p(3) t(4,7) assms(3) by (cases "abs s") (auto simp: a_ops fun_upd_idem_iff)
  then show ?thesis using t u v by auto
qed


text \<open>
  Copying block \<^verbatim>\<open>x\<close> over block \<^verbatim>\<open>y\<close> and writing it, in the two orders in which the log takes and
  releases the buffers.
\<close>

lemma copy_held:
  assumes s: "inv s" and h: "hld (abs s) i = Some x" "hld (abs s) j = Some y" "x \<noteq> y" "y < nblocks (rest s)"
    and st: "settled (abs s) x"
  shows "\<exists>u v w. bwrite j (put j (fetch i s) s) = Inr u \<and> inv u \<and> rest u = rest s \<and>
    (brelse i u = Inr v \<and> brelse j v = Inr w \<and> inv w \<and> rest w = rest s \<and>
      abs w = a_brelse j (a_brelse i (copied x y (abs s))))"
proof -
  have ij: "i \<noteq> j"
    using h by auto
  let ?p = "put j (fetch i s) s"
  have f: "fetch i s = vw (abs s) x"
    using fetch [OF s h(1)] .
  have p: "inv ?p" "rest ?p = rest s" "abs ?p = a_put j (vw (abs s) x) (abs s)"
    using put_ref [OF s h(2), of "fetch i s"] view_length [OF s] f by auto
  have "hld (abs ?p) j = Some y"
    using p(3) h(2) by (simp add: a_put_def)
  then obtain u where u: "bwrite j ?p = Inr u" "inv u" "rest u = rest s" "abs u = a_bwrite j (abs ?p)"
    using bwrite_ref [OF p(1)] p(2) h(4) by metis
  have c: "abs u = copied x y (abs s)"
    using u(4) p(3) h(2,3) by (simp add: a_ops copied_def)
  have hu: "hld (abs u) i = Some x" "hld (abs u) j = Some y" "settled (abs u) x" "settled (abs u) y"
    using c h st by (auto simp: copied_def settled_def)
  obtain v where v: "brelse i u = Inr v" "inv v" "rest v = rest s" "abs v = a_brelse i (abs u)"
    using brelse_ref [OF u(2) hu(1,3)] u(3) by auto
  have "hld (abs v) j = Some y" "settled (abs v) y"
    using v(4) hu ij by (auto simp: a_brelse_def settled_def)
  then obtain w where w: "brelse j v = Inr w" "inv w" "rest w = rest s" "abs w = a_brelse j (abs v)"
    using brelse_ref [OF v(2)] v(3) by metis
  show "\<exists>u v w. bwrite j (put j (fetch i s) s) = Inr u \<and> inv u \<and> rest u = rest s \<and>
    (brelse i u = Inr v \<and> brelse j v = Inr w \<and> inv w \<and> rest w = rest s \<and>
      abs w = a_brelse j (a_brelse i (copied x y (abs s))))"
    using u v w c by auto
qed


text \<open>Reading two different blocks.\<close>

lemma bread_two:
  assumes "inv s" "x < nblocks (rest s)" "y < nblocks (rest s)" "x \<noteq> y" "x \<notin> lkd (abs s)" "y \<notin> lkd (abs s)"
    and "avail (abs s) x" "y \<in> dty (abs s) \<or> card (insert x (lkd (abs s) \<union> dty (abs s))) < NBUF"
  obtains i s1 j s2 where "bread x s = Inr (i, s1)" "bread y s1 = Inr (j, s2)" "inv s2" "rest s1 = rest s" "rest s2 = rest s"
    "abs s2 = a_bread j y (a_bread i x (abs s))" "hld (abs s2) i = Some x" "hld (abs s2) j = Some y" "i \<noteq> j"
    "hld (abs s) i = None" "hld (abs s) j = None"
proof -
  obtain i s1 where 1: "bread x s = Inr (i, s1)" "inv s1" "rest s1 = rest s" "abs s1 = a_bread i x (abs s)"
    "hld (abs s1) i = Some x" "fetch i s1 = vw (abs s) x" "hld (abs s) i = None"
    using bread_step [OF assms(1,2,5,7)] .
  have "y \<notin> lkd (abs s1)" "avail (abs s1) y" "y < nblocks (rest s1)"
    using assms 1(3,4) by (auto simp: a_bread_def avail_def)
  then obtain j s2 where 2: "bread y s1 = Inr (j, s2)" "inv s2" "rest s2 = rest s1" "abs s2 = a_bread j y (abs s1)"
    "hld (abs s2) j = Some y" "fetch j s2 = vw (abs s1) y" "hld (abs s1) j = None"
    using bread_step [OF 1(2)] by metis
  then have "i \<noteq> j" "hld (abs s) j = None"
    using 1(4,5) by (auto simp: a_bread_def split: if_splits)
  then show ?thesis
    using that [OF 1(1) 2(1,2)] 1 2 by (simp add: a_bread_def)
qed

lemma copy_block:
  assumes "inv s" "x < nblocks (rest s)" "y < nblocks (rest s)" "x \<noteq> y" "x \<notin> lkd (abs s)" "y \<notin> lkd (abs s)"
    and "avail (abs s) x" "y \<in> dty (abs s) \<or> card (insert x (lkd (abs s) \<union> dty (abs s))) < NBUF"
  shows "\<exists>i s1 j s2 u v w. bread x s = Inr (i, s1) \<and> bread y s1 = Inr (j, s2) \<and> rest s1 = rest s \<and> rest s2 = rest s \<and>
    bwrite j (put j (fetch i s2) s2) = Inr u \<and> brelse i u = Inr v \<and> brelse j v = Inr w \<and>
    inv w \<and> rest w = rest s \<and> abs w = copied x y (abs s)"
proof -
  obtain i s1 j s2 where r: "bread x s = Inr (i, s1)" "bread y s1 = Inr (j, s2)" "inv s2" "rest s1 = rest s" "rest s2 = rest s"
    "abs s2 = a_bread j y (a_bread i x (abs s))" "hld (abs s2) i = Some x" "hld (abs s2) j = Some y" "i \<noteq> j"
    "hld (abs s) i = None" "hld (abs s) j = None"
    using bread_two [OF assms] .
  have "settled (abs s2) x"
    using free_settled [OF assms(1,5)] r(6) by (simp add: settled_def a_bread_def)
  then obtain u v w where w: "bwrite j (put j (fetch i s2) s2) = Inr u" "brelse i u = Inr v" "brelse j v = Inr w"
    "inv w" "rest w = rest s" "abs w = a_brelse j (a_brelse i (copied x y (abs s2)))"
    using copy_held(1) [OF r(3,7,8) assms(4)] r(5) assms(3) by auto
  have "abs w = copied x y (abs s)"
    unfolding w(6) r(6) using r(9-11) assms(4-6) by (cases "abs s") (auto simp: a_ops copied_def fun_upd_idem_iff fun_eq_iff)
  then show ?thesis using r w by blast
qed

lemma copy_block_back:
  assumes "inv s" "x < nblocks (rest s)" "y < nblocks (rest s)" "y \<noteq> x" "x \<notin> lkd (abs s)" "y \<notin> lkd (abs s)"
    and "avail (abs s) y" "x \<in> dty (abs s) \<or> card (insert y (lkd (abs s) \<union> dty (abs s))) < NBUF"
  shows "\<exists>i s1 j s2 u v w. bread y s = Inr (j, s1) \<and> bread x s1 = Inr (i, s2) \<and> rest s1 = rest s \<and> rest s2 = rest s \<and>
    bwrite j (put j (fetch i s2) s2) = Inr u \<and> brelse i u = Inr v \<and> brelse j v = Inr w \<and>
    inv w \<and> rest w = rest s \<and> abs w = copied x y (abs s)"
proof -
  obtain j s1 i s2 where r: "bread y s = Inr (j, s1)" "bread x s1 = Inr (i, s2)" "inv s2" "rest s1 = rest s" "rest s2 = rest s"
    "abs s2 = a_bread i x (a_bread j y (abs s))" "hld (abs s2) j = Some y" "hld (abs s2) i = Some x" "j \<noteq> i"
    "hld (abs s) j = None" "hld (abs s) i = None"
    using bread_two [OF assms(1,3,2,4,6,5,7,8)] .
  have "settled (abs s2) x"
    using free_settled [OF assms(1,5)] r(6) by (simp add: settled_def a_bread_def)
  then obtain u v w where w: "bwrite j (put j (fetch i s2) s2) = Inr u" "brelse i u = Inr v" "brelse j v = Inr w"
    "inv w" "rest w = rest s" "abs w = a_brelse j (a_brelse i (copied x y (abs s2)))"
    using copy_held(1) [OF r(3,8,7) assms(4) [symmetric]] r(5) assms(3) by auto
  have "abs w = copied x y (abs s)"
    unfolding w(6) r(6) using r(9-11) assms(4-6) by (cases "abs s") (auto simp: a_ops copied_def fun_upd_idem_iff fun_eq_iff)
  then show ?thesis using r w by blast
qed

end

end
