(* ===== verification/Fs_h.thy ===== *)
theory Fs_h
  imports Block_store
begin

text \<open>
  The on-disk format (\<^verbatim>\<open>fs.h\<close>): little-endian 16- and 32-bit fields inside a block, the superblock,
  on-disk inodes and directory entries, with the field offsets of the C structs, and the reading
  and writing of one field.
\<close>

unbundle bit_operations_syntax

section \<open>Fields of a block\<close>

definition get16 :: "nat \<Rightarrow> block \<Rightarrow> ushort" where
  "get16 p d = ucast (d ! p) OR push_bit 8 (ucast (d ! (p + 1)))"

definition put16 :: "nat \<Rightarrow> ushort \<Rightarrow> block \<Rightarrow> block" where
  "put16 p v d = d[p := ucast v, p + 1 := ucast (drop_bit 8 v)]"

definition get32 :: "nat \<Rightarrow> block \<Rightarrow> uint" where
  "get32 p d = ucast (d ! p) OR push_bit 8 (ucast (d ! (p + 1)))
     OR push_bit 16 (ucast (d ! (p + 2))) OR push_bit 24 (ucast (d ! (p + 3)))"

definition put32 :: "nat \<Rightarrow> uint \<Rightarrow> block \<Rightarrow> block" where
  "put32 p v d = d[p := ucast v, p + 1 := ucast (drop_bit 8 v), p + 2 := ucast (drop_bit 16 v), p + 3 := ucast (drop_bit 24 v)]"

lemma length_put [simp]: "length (put16 p h d) = length d" "length (put32 p v d) = length d"
  by (simp_all add: put16_def put32_def)

lemma ushort_bytes_join:
  fixes v :: ushort
  shows "ucast (ucast v :: uchar) OR push_bit 8 (ucast (ucast (drop_bit 8 v) :: uchar)) = v"
proof (rule bit_word_eqI)
  let ?w = "ucast (ucast v :: uchar) OR push_bit 8 (ucast (ucast (drop_bit 8 v) :: uchar)) :: ushort"
  fix n :: nat
  assume "n < LENGTH(16)"
  then consider "n < 8" | "8 \<le> n" "n < 16"
    by fastforce
  then show "bit ?w n = bit v n"
    by cases (auto simp: bit_or_iff bit_push_bit_iff bit_unsigned_iff bit_drop_bit_eq)
qed

lemma get16_put16_same [mem_simps]: "p + 1 < length d \<Longrightarrow> get16 p (put16 p v d) = v"
  using ushort_bytes_join [of v] by (simp add: get16_def put16_def)

lemma get32_put32_same [mem_simps]: "p + 3 < length d \<Longrightarrow> get32 p (put32 p v d) = v"
  using word_bytes_join [of v] by (simp add: get32_def put32_def)

text \<open>A field is not touched by writing another one.\<close>

lemma nth_put [mem_simps]:
  "q \<noteq> p \<and> q \<noteq> p + 1 \<Longrightarrow> put16 p h d ! q = d ! q"
  "q < p \<or> p + 4 \<le> q \<Longrightarrow> put32 p v d ! q = d ! q"
  by (auto simp: put16_def put32_def)

lemma get_put_other [mem_simps]:
  "q + 4 \<le> p \<or> p + 4 \<le> q \<Longrightarrow> get32 q (put32 p v d) = get32 q d"
  "q + 4 \<le> p \<or> p + 2 \<le> q \<Longrightarrow> get32 q (put16 p h d) = get32 q d"
  "q + 2 \<le> p \<or> p + 4 \<le> q \<Longrightarrow> get16 q (put32 p v d) = get16 q d"
  "q + 2 \<le> p \<or> p + 2 \<le> q \<Longrightarrow> get16 q (put16 p h d) = get16 q d"
  by (auto simp: get32_def get16_def nth_put)

section \<open>The superblock\<close>

record superblock =
  sb_size :: uint
  sb_nblocks :: uint
  sb_ninodes :: uint
  sb_nlog :: uint
  sb_logstart :: uint
  sb_inodestart :: uint
  sb_bmapstart :: uint

definition dec_sb :: "block \<Rightarrow> superblock" where
  "dec_sb d = \<lparr>sb_size = get32 0 d, sb_nblocks = get32 4 d, sb_ninodes = get32 8 d, sb_nlog = get32 12 d,
     sb_logstart = get32 16 d, sb_inodestart = get32 20 d, sb_bmapstart = get32 24 d\<rparr>"

section \<open>On-disk inodes\<close>

definition NDIRECT :: nat where "NDIRECT = 12"
definition NINDIRECT :: nat where "NINDIRECT = BSIZE div 4"
definition MAXFILE :: nat where "MAXFILE = NDIRECT + NINDIRECT"

record dinode =
  itype :: ushort
  major :: ushort
  minor :: ushort
  nlink :: ushort
  isize :: uint
  addrs :: "uint list"

text \<open>The size of \<^verbatim>\<open>struct dinode\<close> is 64.\<close>

definition IPB :: nat where "IPB = BSIZE div 64"

definition IBLOCK :: "uint \<Rightarrow> superblock \<Rightarrow> uint" where
  "IBLOCK i sb = of_nat (unat i div IPB) + sb_inodestart sb"

definition BPB :: nat where "BPB = BSIZE * 8"

definition BBLOCK :: "uint \<Rightarrow> superblock \<Rightarrow> uint" where
  "BBLOCK b sb = of_nat (unat b div BPB) + sb_bmapstart sb"

text \<open>Byte offset of the inode in its block.\<close>

definition dip :: "uint \<Rightarrow> nat" where
  "dip i = 64 * (unat i mod IPB)"

definition get_dinode :: "nat \<Rightarrow> block \<Rightarrow> dinode" where
  "get_dinode p d = \<lparr>itype = get16 p d, major = get16 (p + 2) d, minor = get16 (p + 4) d, nlink = get16 (p + 6) d,
     isize = get32 (p + 8) d, addrs = map (\<lambda>k. get32 (p + 12 + 4 * k) d) [0..<NDIRECT + 1]\<rparr>"

definition put_addrs :: "nat \<Rightarrow> uint list \<Rightarrow> nat \<Rightarrow> block \<Rightarrow> block" where
  "put_addrs p as n d = fold (\<lambda>k. put32 (p + 4 * k) (as ! k)) [0..<n] d"

definition put_dinode :: "nat \<Rightarrow> 'a dinode_scheme \<Rightarrow> block \<Rightarrow> block" where
  "put_dinode p ip d =
     put_addrs (p + 12) (addrs ip) (NDIRECT + 1)
       (put32 (p + 8) (isize ip) (put16 (p + 6) (nlink ip) (put16 (p + 4) (minor ip)
         (put16 (p + 2) (major ip) (put16 p (itype ip) d)))))"

lemma length_put_addrs [simp]: "length (put_addrs p as n d) = length d"
  by (induction n) (simp_all add: put_addrs_def)

lemma length_put_dinode [simp]: "length (put_dinode p ip d) = length d"
  by (simp add: put_dinode_def)

lemma put_addrs_Suc: "put_addrs p as (Suc n) d = put32 (p + 4 * n) (as ! n) (put_addrs p as n d)"
  by (simp add: put_addrs_def)

lemma put_addrs_get:
  "k < n \<Longrightarrow> p + 4 * n \<le> length d \<Longrightarrow> get32 (p + 4 * k) (put_addrs p as n d) = as ! k"
proof (induction n)
  case (Suc n)
  then show ?case
    by (cases "k = n") (auto simp: put_addrs_Suc mem_simps)
qed simp

lemma put_addrs_other:
  "q < p \<or> p + 4 * n \<le> q \<Longrightarrow> put_addrs p as n d ! q = d ! q"
  "q + 2 \<le> p \<or> p + 4 * n \<le> q \<Longrightarrow> get16 q (put_addrs p as n d) = get16 q d"
  "q + 4 \<le> p \<or> p + 4 * n \<le> q \<Longrightarrow> get32 q (put_addrs p as n d) = get32 q d"
  by (induction n) (auto simp: put_addrs_Suc mem_simps put_addrs_def [of _ _ 0])

text \<open>An inode written to its block is read back, and the others of the block are not touched.\<close>

lemma get_put_dinode:
  assumes "p + 64 \<le> length d" "length (addrs ip) = NDIRECT + 1"
  shows "get_dinode p (put_dinode p ip d) = dinode.truncate ip"
proof -
  have "map (\<lambda>k. get32 (p + 12 + 4 * k) (put_dinode p ip d)) [0..<NDIRECT + 1] = addrs ip"
    using assms by (intro nth_equalityI) (simp_all add: put_dinode_def put_addrs_get NDIRECT_def del: upt_Suc)
  then show ?thesis
    using assms(1)
    by (simp add: get_dinode_def dinode.truncate_def del: upt_Suc)
      (simp add: put_dinode_def put_addrs_other mem_simps NDIRECT_def)
qed

lemma get_put_dinode_other:
  assumes "q + 64 \<le> p \<or> p + 64 \<le> q"
  shows "get_dinode q (put_dinode p ip d) = get_dinode q d"
  using assms unfolding get_dinode_def
  by (auto simp: put_dinode_def put_addrs_other mem_simps NDIRECT_def intro!: map_cong)

section \<open>Directory entries\<close>

definition DIRSIZ :: nat where "DIRSIZ = 14"
definition ROOTINO :: uint where "ROOTINO = 1"
definition ROOTDEV :: uint where "ROOTDEV = 1"

record dirent =
  de_inum :: ushort
  de_name :: "uchar list"

definition get_dirent :: "uchar list \<Rightarrow> dirent" where
  "get_dirent d = \<lparr>de_inum = get16 0 d, de_name = take DIRSIZ (drop 2 d)\<rparr>"

definition put_dirent :: "dirent \<Rightarrow> uchar list" where
  "put_dirent e = [ucast (de_inum e), ucast (drop_bit 8 (de_inum e))] @ de_name e"

lemma get_put_dirent: "length (de_name e) = DIRSIZ \<Longrightarrow> get_dirent (put_dirent e) = e"
  using ushort_bytes_join [of "de_inum e"] by (cases e) (simp add: get_dirent_def put_dirent_def get16_def)

definition T_DIR :: ushort where "T_DIR = 1"
definition T_FILE :: ushort where "T_FILE = 2"
definition T_DEV :: ushort where "T_DEV = 3"

end
