(* ===== verification/Sleeplock_c.thy ===== *)
theory Sleeplock_c
  imports Prelude
begin

text \<open>
  Sleep locks (\<^verbatim>\<open>sleeplock.c\<close>, \<^verbatim>\<open>sleeplock.h\<close>) in the sequential reading of one process.  The inner
  spin lock \<^verbatim>\<open>lk\<close> is taken and given back inside every function, so between calls only \<^verbatim>\<open>locked\<close> and
  \<^verbatim>\<open>pid\<close> are left; \<^verbatim>\<open>acquiresleep\<close> of a lock that is taken sleeps until its holder releases it.
\<close>

record sleeplock =
  slocked :: bool
  spid :: int

definition initsleeplock :: sleeplock where
  "initsleeplock = \<lparr>slocked = False, spid = 0\<rparr>"

text \<open>\<^verbatim>\<open>pid\<close> is \<^verbatim>\<open>myproc()->pid\<close>.\<close>

definition acquiresleep :: "int \<Rightarrow> sleeplock \<Rightarrow> sleeplock res" where
  "acquiresleep pid lk =
     (if slocked lk then Inl Waits else Inr (lk\<lparr>slocked := True, spid := pid\<rparr>))"

definition releasesleep :: "sleeplock \<Rightarrow> sleeplock" where
  "releasesleep lk = lk\<lparr>slocked := False, spid := 0\<rparr>"

definition holdingsleep :: "int \<Rightarrow> sleeplock \<Rightarrow> bool" where
  "holdingsleep pid lk \<longleftrightarrow> slocked lk \<and> spid lk = pid"

lemma acquiresleep_eq_Inr [simp]:
  "acquiresleep pid lk = Inr lk' \<longleftrightarrow> \<not> slocked lk \<and> lk' = lk\<lparr>slocked := True, spid := pid\<rparr>"
  by (auto simp: acquiresleep_def)

lemma holding_after_acquire [simp]: "holdingsleep pid (lk\<lparr>slocked := True, spid := pid\<rparr>)"
  by (simp add: holdingsleep_def)

lemma releasesleep_free [simp]: "\<not> slocked (releasesleep lk)"
  by (simp add: releasesleep_def)

end
