(* ===== verification/Bio_c.thy ===== *)
theory Bio_c
  imports Sleeplock_c Block_store
begin

text \<open>
  The buffer cache (\<^verbatim>\<open>bio.c\<close>, \<^verbatim>\<open>buf.h\<close>) over the in-memory disk driver (\<^verbatim>\<open>memide.c\<close>).  Buffers are indexed
  by their place in \<^verbatim>\<open>bcache.buf\<close>; the index \<^verbatim>\<open>NBUF\<close> stands for \<^verbatim>\<open>bcache.head\<close>, and the \<^verbatim>\<open>prev\<close> and \<^verbatim>\<open>next\<close>
  pointers of the LRU list are two arrays over these indices, updated in the order of the source.
  The two bits of \<^verbatim>\<open>flags\<close> are the fields \<^verbatim>\<open>valid\<close> and \<^verbatim>\<open>dirty\<close>.  \<^verbatim>\<open>bcache.lock\<close> is held only inside a
  function and is not represented.  The disk is a map from block numbers to blocks together
  with the sequence of writes it has received, of which a crash keeps a prefix.
\<close>

section \<open>Definitions\<close>

record buf =
  valid :: bool
  dirty :: bool
  bdev :: uint
  blockno :: uint
  slk :: sleeplock
  refcnt :: uint
  data :: "uchar list"

record bcache =
  bufs :: "buf list"
  bnext :: "nat list"
  bprev :: "nat list"
  disk :: "uint \<Rightarrow> block"
  disksize :: uint
  whist :: "(uint \<times> block) list"
  curpid :: int

definition upd_buf :: "nat \<Rightarrow> (buf \<Rightarrow> buf) \<Rightarrow> 'a bcache_scheme \<Rightarrow> 'a bcache_scheme" where
  "upd_buf i f s = s\<lparr>bufs := (bufs s)[i := f (bufs s ! i)]\<rparr>"

definition iderw :: "nat \<Rightarrow> 'a bcache_scheme \<Rightarrow> 'a bcache_scheme res" where
  "iderw i s =
     (let b = bufs s ! i in
      if \<not> holdingsleep (curpid s) (slk b) then Inl (Panic ''iderw: buf not locked'')
      else if valid b \<and> \<not> dirty b then Inl (Panic ''iderw: nothing to do'')
      else if bdev b \<noteq> 1 then Inl (Panic ''iderw: request not for disk 1'')
      else if blockno b \<ge> disksize s then Inl (Panic ''iderw: block out of range'')
      else
        let s = (if dirty b then
                   (upd_buf i (dirty_update (\<lambda>_. False)) s)
                     \<lparr>disk := (disk s)(blockno b := data b), whist := whist s @ [(blockno b, data b)]\<rparr>
                 else upd_buf i (data_update (\<lambda>_. disk s (blockno b))) s)
        in Inr (upd_buf i (valid_update (\<lambda>_. True)) s))"

text \<open>One iteration of the loop of \<^verbatim>\<open>binit\<close>, for buffer \<^verbatim>\<open>b\<close>.\<close>

definition binit_link :: "nat \<Rightarrow> 'a bcache_scheme \<Rightarrow> 'a bcache_scheme" where
  "binit_link b s =
     (let s = s\<lparr>bnext := (bnext s)[b := bnext s ! NBUF]\<rparr>;
          s = s\<lparr>bprev := (bprev s)[b := NBUF]\<rparr>;
          s = upd_buf b (slk_update (\<lambda>_. initsleeplock)) s;
          s = s\<lparr>bprev := (bprev s)[bnext s ! NBUF := b]\<rparr>
      in s\<lparr>bnext := (bnext s)[NBUF := b]\<rparr>)"

definition binit :: "'a bcache_scheme \<Rightarrow> 'a bcache_scheme" where
  "binit s =
     fold binit_link [0..<NBUF]
       (s\<lparr>bprev := (bprev s)[NBUF := NBUF], bnext := (bnext s)[NBUF := NBUF]\<rparr>)"

text \<open>
  The two searches of \<^verbatim>\<open>bget\<close> follow \<^verbatim>\<open>next\<close> or \<^verbatim>\<open>prev\<close> from the head until they come back to it; the
  bound is the number of list cells plus one, so that a search can only run into it in a list
  that does not lead back to the head.
\<close>

fun scan :: "nat \<Rightarrow> nat list \<Rightarrow> (nat \<Rightarrow> bool) \<Rightarrow> nat \<Rightarrow> nat res" where
  "scan 0 links P b = Inl Loops"
| "scan (Suc n) links P b =
     (if b = NBUF then Inr NBUF else if P b then Inr b else scan n links P (links ! b))"

definition block_lock :: "nat \<Rightarrow> 'a bcache_scheme \<Rightarrow> (nat \<times> 'a bcache_scheme) res" where
  "block_lock b s =
     bindE (acquiresleep (curpid s) (slk (bufs s ! b))) (\<lambda>l. Inr (b, upd_buf b (slk_update (\<lambda>_. l)) s))"

definition bget :: "uint \<Rightarrow> uint \<Rightarrow> 'a bcache_scheme \<Rightarrow> (nat \<times> 'a bcache_scheme) res" where
  "bget dev bno s =
     bindE (scan (NBUF + 1) (bnext s) (\<lambda>b. bdev (bufs s ! b) = dev \<and> blockno (bufs s ! b) = bno) (bnext s ! NBUF))
       (\<lambda>b. if b \<noteq> NBUF then block_lock b (upd_buf b (\<lambda>x. x\<lparr>refcnt := refcnt x + 1\<rparr>) s)
         else
           bindE (scan (NBUF + 1) (bprev s) (\<lambda>b. refcnt (bufs s ! b) = 0 \<and> \<not> dirty (bufs s ! b)) (bprev s ! NBUF))
             (\<lambda>b. if b \<noteq> NBUF then
                    block_lock b (upd_buf b (\<lambda>x. x\<lparr>bdev := dev, blockno := bno, valid := False, dirty := False, refcnt := 1\<rparr>) s)
                  else Inl (Panic ''bget: no buffers'')))"

definition bread :: "uint \<Rightarrow> uint \<Rightarrow> 'a bcache_scheme \<Rightarrow> (nat \<times> 'a bcache_scheme) res" where
  "bread dev bno s =
     bindE (bget dev bno s) (\<lambda>(b, s).
       if \<not> valid (bufs s ! b) then bindE (iderw b s) (\<lambda>s. Inr (b, s)) else Inr (b, s))"

definition bwrite :: "nat \<Rightarrow> 'a bcache_scheme \<Rightarrow> 'a bcache_scheme res" where
  "bwrite b s =
     (if \<not> holdingsleep (curpid s) (slk (bufs s ! b)) then Inl (Panic ''bwrite'')
      else iderw b (upd_buf b (dirty_update (\<lambda>_. True)) s))"

text \<open>The six pointer assignments at the end of \<^verbatim>\<open>brelse\<close>.\<close>

definition to_front :: "nat \<Rightarrow> 'a bcache_scheme \<Rightarrow> 'a bcache_scheme" where
  "to_front b s =
     (let s = s\<lparr>bprev := (bprev s)[bnext s ! b := bprev s ! b]\<rparr>;
          s = s\<lparr>bnext := (bnext s)[bprev s ! b := bnext s ! b]\<rparr>;
          s = s\<lparr>bnext := (bnext s)[b := bnext s ! NBUF]\<rparr>;
          s = s\<lparr>bprev := (bprev s)[b := NBUF]\<rparr>;
          s = s\<lparr>bprev := (bprev s)[bnext s ! NBUF := b]\<rparr>
      in s\<lparr>bnext := (bnext s)[NBUF := b]\<rparr>)"

definition brelse :: "nat \<Rightarrow> 'a bcache_scheme \<Rightarrow> 'a bcache_scheme res" where
  "brelse b s =
     (if \<not> holdingsleep (curpid s) (slk (bufs s ! b)) then Inl (Panic ''brelse'')
      else
        let s = upd_buf b (\<lambda>x. x\<lparr>slk := releasesleep (slk x)\<rparr>) s;
            s = upd_buf b (\<lambda>x. x\<lparr>refcnt := refcnt x - 1\<rparr>) s
        in Inr (if refcnt (bufs s ! b) = 0 then to_front b s else s))"

section \<open>The LRU list\<close>

text \<open>\<^verbatim>\<open>chain l a xs c\<close>: following the links \<^verbatim>\<open>l\<close> from \<^verbatim>\<open>a\<close> visits exactly \<^verbatim>\<open>xs\<close> and then \<^verbatim>\<open>c\<close>.\<close>

fun chain :: "nat list \<Rightarrow> nat \<Rightarrow> nat list \<Rightarrow> nat \<Rightarrow> bool" where
  "chain l a [] c \<longleftrightarrow> l ! a = c"
| "chain l a (x # xs) c \<longleftrightarrow> l ! a = x \<and> chain l x xs c"

lemma chain_append: "chain l a (us @ b # vs) c \<longleftrightarrow> chain l a us b \<and> chain l b vs c"
  by (induction us arbitrary: a) auto

lemma chain_frame: "i \<noteq> a \<Longrightarrow> i \<notin> set xs \<Longrightarrow> chain (l[i := v]) a xs c \<longleftrightarrow> chain l a xs c"
  by (induction xs arbitrary: a) auto

text \<open>Redirecting the last link of a chain.\<close>

lemma chain_redirect:
  assumes "chain l a us b" "distinct (a # us)" "set (a # us) \<subseteq> {..<length l}"
  shows "chain (l[last (a # us) := c]) a us c"
  using assms
proof (induction us arbitrary: a)
  case (Cons x us)
  have "last (a # x # us) \<noteq> a"
    using Cons.prems(2) last_in_set [of "x # us"] by auto
  then show ?case
    using Cons.IH [of x] Cons.prems by auto
qed simp

lemma chain_hd: "chain l a xs c \<Longrightarrow> l ! a = hd (xs @ [c])"
  by (cases xs) auto

text \<open>A circular doubly linked list with head \<^verbatim>\<open>h\<close> and the cells \<^verbatim>\<open>xs\<close>.\<close>

definition ring :: "nat list \<Rightarrow> nat list \<Rightarrow> nat \<Rightarrow> nat list \<Rightarrow> bool" where
  "ring nx pv h xs \<longleftrightarrow> distinct (h # xs) \<and> set (h # xs) \<subseteq> {..<length nx} \<and> length pv = length nx \<and>
     chain nx h xs h \<and> chain pv h (rev xs) h"

text \<open>Pushing \<^verbatim>\<open>b\<close> to the front of a ring that does not contain it.\<close>

lemma ring_push:
  assumes "ring nx pv h xs" "b \<notin> set (h # xs)" "b < length nx"
  shows "ring (nx[b := nx ! h, h := b]) (pv[b := h, nx ! h := b]) h (b # xs)"
proof -
  have f: "nx ! h = hd (xs @ [h])"
    using assms(1) unfolding ring_def by (metis chain_hd)
  have n: "chain (nx[b := nx ! h, h := b]) b xs h"
  proof (cases xs)
    case Nil
    then show ?thesis using assms f by (auto simp: ring_def)
  next
    case (Cons x xs')
    then have "chain (nx[b := nx ! h, h := b]) x xs' h = chain nx x xs' h"
      using assms by (subst chain_frame, auto simp: ring_def)+
    then show ?thesis
      using assms Cons f by (auto simp: ring_def)
  qed
  have p: "chain (pv[b := h, nx ! h := b]) h (rev xs @ [b]) h"
  proof (cases xs)
    case Nil
    then show ?thesis using assms f by (auto simp: ring_def)
  next
    case (Cons x xs')
    have nh: "nx ! h = last (h # rev xs)"
      using f Cons by simp
    have "chain pv h (rev xs) h"
      using assms by (simp add: ring_def)
    then have c1: "chain (pv[b := h]) h (rev xs) h"
      using assms by (subst chain_frame) auto
    have c2: "chain ((pv[b := h])[last (h # rev xs) := b]) h (rev xs) b"
      using assms c1 by (intro chain_redirect) (auto simp: ring_def)
    have "(pv[b := h, nx ! h := b]) ! b = h"
      using assms f Cons by (auto simp: ring_def)
    then show ?thesis
      using c2 by (subst chain_append) (simp add: nh)
  qed
  show ?thesis
    using assms n p f by (cases xs) (auto simp: ring_def)
qed

text \<open>Unlinking \<^verbatim>\<open>b\<close>.\<close>

lemma ring_unlink:
  assumes r: "ring nx pv h (us @ b # vs)"
  shows "ring (nx[pv ! b := nx ! b]) (pv[nx ! b := pv ! b]) h (us @ vs)"
    and "pv ! b = last (h # us)" and "nx ! b = hd (vs @ [h])"
proof -
  have n1: "chain nx h us b" and n2: "chain nx b vs h"
    using r by (auto simp: ring_def chain_append)
  have p1: "chain pv h (rev vs) b" and p2: "chain pv b (rev us) h"
    using r by (auto simp: ring_def chain_append)
  show pb: "pv ! b = last (h # us)"
    using chain_hd [OF p2] by (cases us rule: rev_cases) auto
  show nb: "nx ! b = hd (vs @ [h])"
    using chain_hd [OF n2] .
  have d: "distinct (h # us @ b # vs)" "set (h # us @ b # vs) \<subseteq> {..<length nx}" "length pv = length nx"
    using r by (auto simp: ring_def)
  have nn: "chain (nx[last (h # us) := c]) h us c" for c
    using n1 d by (intro chain_redirect) auto
  have pp: "chain (pv[last (h # rev vs) := c]) h (rev vs) c" for c
    using p1 d by (intro chain_redirect) auto
  have "chain (nx[pv ! b := nx ! b]) h (us @ vs) h"
  proof (cases vs)
    case Nil
    then show ?thesis using nn nb pb by simp
  next
    case (Cons v vs')
    have "last (h # us) \<notin> set vs"
      using d last_in_set [of "h # us"] by auto
    then have "chain (nx[last (h # us) := v]) v vs' h = chain nx v vs' h"
      using Cons by (intro chain_frame) auto
    then show ?thesis
      using Cons nn [of v] n2 nb pb by (auto simp: chain_append)
  qed
  moreover have "chain (pv[nx ! b := pv ! b]) h (rev vs @ rev us) h"
  proof (cases us rule: rev_cases)
    case Nil
    have "nx ! b = last (h # rev vs)"
      using nb by (cases vs) auto
    then show ?thesis using pp Nil pb by simp
  next
    case (snoc us' u)
    have l: "nx ! b = last (h # rev vs)"
      using nb by (cases vs) auto
    have "last (h # rev vs) \<notin> set us"
      using d last_in_set [of "h # rev vs"] by auto
    then have "chain (pv[last (h # rev vs) := u]) u (rev us') h = chain pv u (rev us') h"
      using snoc by (intro chain_frame) auto
    then show ?thesis
      using snoc pp [of u] p2 l pb by (auto simp: chain_append)
  qed
  ultimately show "ring (nx[pv ! b := nx ! b]) (pv[nx ! b := pv ! b]) h (us @ vs)"
    using d by (auto simp: ring_def)
qed

text \<open>The LRU list of the cache: every buffer once, most recently used first.\<close>

definition lru :: "'a bcache_scheme \<Rightarrow> nat list \<Rightarrow> bool" where
  "lru s xs \<longleftrightarrow> length (bnext s) = NBUF + 1 \<and> set xs = {..<NBUF} \<and> ring (bnext s) (bprev s) NBUF xs"

lemma lru_to_front:
  assumes "lru s xs" "b < NBUF"
  shows "lru (to_front b s) (b # remove1 b xs)" and "bufs (to_front b s) = bufs s"
    and "to_front b s = s\<lparr>bnext := bnext (to_front b s), bprev := bprev (to_front b s)\<rparr>"
proof -
  obtain us vs where xs: "xs = us @ b # vs"
    using assms split_list [of b xs] by (auto simp: lru_def)
  have r: "ring (bnext s) (bprev s) NBUF (us @ b # vs)" and l: "length (bnext s) = NBUF + 1"
    using assms xs by (auto simp: lru_def)
  note u = ring_unlink [OF r]
  have b: "b \<notin> set (NBUF # us @ vs)"
    using r by (auto simp: ring_def)
  let ?nx = "(bnext s)[bprev s ! b := bnext s ! b]" and ?pv = "(bprev s)[bnext s ! b := bprev s ! b]"
  have ne: "bnext s ! b \<noteq> b"
    using u(3) b by (cases vs) auto
  have eq: "bnext (to_front b s) = ?nx[b := ?nx ! NBUF, NBUF := b]"
    "bprev (to_front b s) = ?pv[b := NBUF, ?nx ! NBUF := b]"
    using ne b by (auto simp: to_front_def Let_def)
  have "ring (bnext (to_front b s)) (bprev (to_front b s)) NBUF (b # us @ vs)"
    unfolding eq using u(1) b l assms(2) by (intro ring_push) auto
  moreover have "remove1 b xs = us @ vs"
    using b xs by (simp add: remove1_append)
  ultimately show "lru (to_front b s) (b # remove1 b xs)"
    using assms xs l by (auto simp: lru_def eq)
qed (simp_all add: to_front_def Let_def)

lemma binit_links:
  "bnext (binit_link b s) = (bnext s)[b := bnext s ! NBUF, NBUF := b]"
  "b \<noteq> NBUF \<Longrightarrow> bprev (binit_link b s) = (bprev s)[b := NBUF, bnext s ! NBUF := b]"
  "bufs (binit_link b s) = (bufs s)[b := (bufs s ! b)\<lparr>slk := initsleeplock\<rparr>]"
  by (auto simp: binit_link_def Let_def upd_buf_def)

lemma binit_ring:
  assumes "length (bnext s) = NBUF + 1" "length (bprev s) = NBUF + 1" "k \<le> NBUF"
  defines "t \<equiv> fold binit_link [0..<k]
       (s\<lparr>bprev := (bprev s)[NBUF := NBUF], bnext := (bnext s)[NBUF := NBUF]\<rparr>)"
  shows "ring (bnext t) (bprev t) NBUF (rev [0..<k]) \<and> length (bnext t) = NBUF + 1"
  using assms(3) unfolding t_def
proof (induction k)
  case 0
  then show ?case using assms(1,2) by (simp add: ring_def)
next
  case (Suc k)
  let ?t = "fold binit_link [0..<k] (s\<lparr>bprev := (bprev s)[NBUF := NBUF], bnext := (bnext s)[NBUF := NBUF]\<rparr>)"
  have ih: "ring (bnext ?t) (bprev ?t) NBUF (rev [0..<k])" "length (bnext ?t) = NBUF + 1"
    using Suc by auto
  then have "ring ((bnext ?t)[k := bnext ?t ! NBUF, NBUF := k]) ((bprev ?t)[k := NBUF, bnext ?t ! NBUF := k]) NBUF
      (k # rev [0..<k])"
    using Suc.prems by (intro ring_push) auto
  then show ?case
    using ih Suc.prems by (simp add: binit_links)
qed

text \<open>The searches of \<^verbatim>\<open>bget\<close> end, and find the first buffer of the list they follow.\<close>

lemma scan_chain:
  assumes "chain l a xs NBUF" "NBUF \<notin> set xs" "length xs < n"
  shows "scan n l P (l ! a) = Inr (case find P xs of None \<Rightarrow> NBUF | Some b \<Rightarrow> b)"
  using assms
proof (induction xs arbitrary: a n)
  case Nil
  then show ?case by (cases n) auto
next
  case (Cons x xs)
  then obtain m where "n = Suc m" "length xs < m"
    by (cases n) auto
  then show ?case using Cons by auto
qed

lemma scan_lru:
  assumes "lru s xs"
  shows "scan (NBUF + 1) (bnext s) P (bnext s ! NBUF) = Inr (case find P xs of None \<Rightarrow> NBUF | Some b \<Rightarrow> b)"
    and "scan (NBUF + 1) (bprev s) P (bprev s ! NBUF) = Inr (case find P (rev xs) of None \<Rightarrow> NBUF | Some b \<Rightarrow> b)"
proof -
  have "length xs = NBUF"
    using assms distinct_card [of xs] by (simp add: lru_def ring_def)
  then have c: "length xs < NBUF + 1" "length (rev xs) < NBUF + 1" "NBUF \<notin> set xs" "NBUF \<notin> set (rev xs)"
    "chain (bnext s) NBUF xs NBUF" "chain (bprev s) NBUF (rev xs) NBUF"
    using assms by (auto simp: lru_def ring_def)
  show "scan (NBUF + 1) (bnext s) P (bnext s ! NBUF) = Inr (case find P xs of None \<Rightarrow> NBUF | Some b \<Rightarrow> b)"
    by (rule scan_chain [OF c(5,3,1)])
  show "scan (NBUF + 1) (bprev s) P (bprev s ! NBUF) = Inr (case find P (rev xs) of None \<Rightarrow> NBUF | Some b \<Rightarrow> b)"
    by (rule scan_chain [OF c(6,4,2)])
qed

section \<open>The cache invariant and the view of the disk it gives\<close>

definition buf_ok :: "(uint \<Rightarrow> block) \<Rightarrow> buf \<Rightarrow> bool" where
  "buf_ok d b \<longleftrightarrow> length (data b) = BSIZE \<and> refcnt b = (if slocked (slk b) then 1 else 0) \<and>
     (slocked (slk b) \<or> dirty b \<longrightarrow> valid b) \<and> (valid b \<longrightarrow> bdev b = 1) \<and>
     (valid b \<and> \<not> dirty b \<and> \<not> slocked (slk b) \<longrightarrow> data b = d (blockno b))"

definition cache_inv :: "'a bcache_scheme \<Rightarrow> bool" where
  "cache_inv s \<longleftrightarrow> (\<exists>xs. lru s xs) \<and> length (bufs s) = NBUF \<and> (\<forall>b\<in>set (bufs s). buf_ok (disk s) b) \<and>
     (\<forall>i<NBUF. \<forall>j<NBUF. i \<noteq> j \<and> bdev (bufs s ! i) = bdev (bufs s ! j) \<and>
        blockno (bufs s ! i) = blockno (bufs s ! j) \<longrightarrow> bdev (bufs s ! i) = 0) \<and>
     (\<forall>b. length (disk s b) = BSIZE)"

text \<open>
  What a process that reads block \<^verbatim>\<open>b\<close> through the cache sees; the blocks some process holds, the
  blocks that wait to be written, and the block the running process holds in a buffer.
\<close>

definition view :: "'a bcache_scheme \<Rightarrow> uint \<Rightarrow> block" where
  "view s b = (case find (\<lambda>x. valid x \<and> blockno x = b) (bufs s) of None \<Rightarrow> disk s b | Some x \<Rightarrow> data x)"

definition locked_blocks :: "'a bcache_scheme \<Rightarrow> uint set" where
  "locked_blocks s = blockno ` {x \<in> set (bufs s). slocked (slk x)}"

definition dirty_blocks :: "'a bcache_scheme \<Rightarrow> uint set" where
  "dirty_blocks s = blockno ` {x \<in> set (bufs s). dirty x}"

definition held :: "'a bcache_scheme \<Rightarrow> nat \<Rightarrow> uint option" where
  "held s i = (if i < NBUF \<and> holdingsleep (curpid s) (slk (bufs s ! i)) then Some (blockno (bufs s ! i)) else None)"

definition bdata :: "nat \<Rightarrow> 'a bcache_scheme \<Rightarrow> block" where
  "bdata i s = data (bufs s ! i)"

text \<open>Assigning \<^verbatim>\<open>b->data\<close>.\<close>

definition set_bdata :: "nat \<Rightarrow> block \<Rightarrow> 'a bcache_scheme \<Rightarrow> 'a bcache_scheme" where
  "set_bdata i d = upd_buf i (data_update (\<lambda>_. d))"

lemma cache_invD:
  assumes "cache_inv s"
  shows "length (bufs s) = NBUF" "i < NBUF \<Longrightarrow> buf_ok (disk s) (bufs s ! i)" "length (disk s b) = BSIZE"
    "\<lbrakk>i < NBUF; j < NBUF; bdev (bufs s ! i) = bdev (bufs s ! j); blockno (bufs s ! i) = blockno (bufs s ! j);
      bdev (bufs s ! i) \<noteq> 0\<rbrakk> \<Longrightarrow> i = j"
    "\<exists>xs. lru s xs"
  using assms by (auto simp: cache_inv_def dest: nth_mem)

lemma view_cached:
  assumes "cache_inv s" "i < NBUF" "valid (bufs s ! i)"
  shows "view s (blockno (bufs s ! i)) = data (bufs s ! i)"
proof -
  note D = cache_invD [OF assms(1)]
  obtain x where x: "find (\<lambda>x. valid x \<and> blockno x = blockno (bufs s ! i)) (bufs s) = Some x"
    using assms(2,3) nth_mem [of i "bufs s"] D(1)
    by (cases "find (\<lambda>x. valid x \<and> blockno x = blockno (bufs s ! i)) (bufs s)") (auto simp: find_None_iff)
  then obtain j where j: "j < NBUF" "x = bufs s ! j" "valid x" "blockno x = blockno (bufs s ! i)"
    using D(1) by (auto simp: find_Some_iff)
  have "j = i"
    using D(2) [of i] D(2) [of j] assms j by (intro D(4)) (auto simp: buf_ok_def)
  then show ?thesis
    using x j by (simp add: view_def)
qed

lemma view_uncached:
  assumes "cache_inv s" "\<And>i. i < NBUF \<Longrightarrow> valid (bufs s ! i) \<Longrightarrow> blockno (bufs s ! i) \<noteq> b"
  shows "view s b = disk s b"
proof -
  have "find (\<lambda>x. valid x \<and> blockno x = b) (bufs s) = None"
    using assms cache_invD(1) [OF assms(1)] by (auto simp: find_None_iff in_set_conv_nth)
  then show ?thesis by (simp add: view_def)
qed

text \<open>
  The view is \<^verbatim>\<open>v\<close> when every valid buffer has the block \<^verbatim>\<open>v\<close> gives and the disk has the others.
\<close>

lemma view_eqI:
  assumes "cache_inv t"
    and "\<And>i. i < NBUF \<Longrightarrow> valid (bufs t ! i) \<Longrightarrow> data (bufs t ! i) = v (blockno (bufs t ! i))"
    and "\<And>b. (\<And>i. i < NBUF \<Longrightarrow> valid (bufs t ! i) \<Longrightarrow> blockno (bufs t ! i) \<noteq> b) \<Longrightarrow> disk t b = v b"
  shows "view t = v"
proof
  fix b
  show "view t b = v b"
  proof (cases "\<exists>i<NBUF. valid (bufs t ! i) \<and> blockno (bufs t ! i) = b")
    case True
    then show ?thesis using view_cached [OF assms(1)] assms(2) by auto
  next
    case False
    then show ?thesis using view_uncached [OF assms(1)] assms(3) by auto
  qed
qed

lemma view_length: "cache_inv s \<Longrightarrow> length (view s b) = BSIZE"
  by (auto simp: view_def cache_inv_def buf_ok_def find_Some_iff split: option.splits)

lemma cache_inv_put:
  assumes "cache_inv s" "i < NBUF" "buf_ok (disk s) x"
    and "\<And>j. \<lbrakk>j < NBUF; j \<noteq> i; bdev x = bdev (bufs s ! j); blockno x = blockno (bufs s ! j)\<rbrakk> \<Longrightarrow> bdev x = 0"
  shows "cache_inv (s\<lparr>bufs := (bufs s)[i := x]\<rparr>)"
proof -
  note D = cache_invD [OF assms(1)]
  have "\<forall>b\<in>set ((bufs s)[i := x]). buf_ok (disk s) b"
    using assms(1,3) set_update_subset_insert [of "bufs s" i x] by (auto simp: cache_inv_def)
  moreover have "\<exists>xs. lru (s\<lparr>bufs := (bufs s)[i := x]\<rparr>) xs"
    using D(5) by (simp add: lru_def)
  moreover have "bdev ((bufs s)[i := x] ! j) = 0"
    if "j < NBUF" "k < NBUF" "j \<noteq> k" "bdev ((bufs s)[i := x] ! j) = bdev ((bufs s)[i := x] ! k)"
      "blockno ((bufs s)[i := x] ! j) = blockno ((bufs s)[i := x] ! k)" for j k
    using that D(1) D(4) [of j k] assms(2) assms(4) [of j] assms(4) [of k]
    by (cases "j = i"; cases "k = i") auto
  ultimately show ?thesis
    using D(1,3) by (auto simp: cache_inv_def)
qed

text \<open>A buffer taken over by block \<^verbatim>\<open>blockno x\<close> shows its data there and leaves the other blocks as they were.\<close>

lemma view_put:
  assumes s: "cache_inv s" and i: "i < NBUF" and x: "valid x"
    and t: "cache_inv (s\<lparr>bufs := (bufs s)[i := x]\<rparr>)"
    and o: "valid (bufs s ! i) \<Longrightarrow> blockno (bufs s ! i) \<noteq> blockno x \<Longrightarrow> \<not> dirty (bufs s ! i) \<and> \<not> slocked (slk (bufs s ! i))"
  shows "view (s\<lparr>bufs := (bufs s)[i := x]\<rparr>) = (view s)(blockno x := data x)"
proof (rule view_eqI [OF t])
  let ?t = "s\<lparr>bufs := (bufs s)[i := x]\<rparr>"
  note S = cache_invD [OF s] and T = cache_invD [OF t]
  have xd: "bdev x = 1"
    using T(2) [OF i] x S(1) i by (auto simp: buf_ok_def)
  fix j
  assume j: "j < NBUF" "valid (bufs ?t ! j)"
  show "data (bufs ?t ! j) = ((view s)(blockno x := data x)) (blockno (bufs ?t ! j))"
  proof (cases "j = i")
    case True
    then show ?thesis using S(1) i by simp
  next
    case False
    then have "blockno (bufs s ! j) \<noteq> blockno x"
      using T(4) [of i j] T(2) [of j] xd i j S(1) by (auto simp: buf_ok_def)
    then show ?thesis
      using False j view_cached [OF s j(1)] by simp
  qed
next
  fix b
  assume a: "\<And>j. j < NBUF \<Longrightarrow> valid (bufs (s\<lparr>bufs := (bufs s)[i := x]\<rparr>) ! j) \<Longrightarrow>
      blockno (bufs (s\<lparr>bufs := (bufs s)[i := x]\<rparr>) ! j) \<noteq> b"
  note S = cache_invD [OF s]
  have b: "b \<noteq> blockno x"
    using a [OF i] x S(1) i by auto
  have "view s b = disk s b"
  proof (cases "valid (bufs s ! i) \<and> blockno (bufs s ! i) = b")
    case True
    then show ?thesis
      using o b view_cached [OF s i] S(2) [OF i] by (auto simp: buf_ok_def)
  next
    case False
    have "valid (bufs s ! j) \<Longrightarrow> blockno (bufs s ! j) \<noteq> b" if "j < NBUF" for j
      using a [OF that] False S(1) by (cases "j = i") auto
    then show ?thesis by (rule view_uncached [OF s])
  qed
  then show "disk (s\<lparr>bufs := (bufs s)[i := x]\<rparr>) b = ((view s)(blockno x := data x)) b"
    using b by simp
qed

text \<open>The buffer a successful \<^verbatim>\<open>bread\<close> returns.\<close>

definition locked_buf :: "'a bcache_scheme \<Rightarrow> uint \<Rightarrow> bool \<Rightarrow> block \<Rightarrow> buf" where
  "locked_buf s b q d = \<lparr>valid = True, dirty = q, bdev = 1, blockno = b,
     slk = \<lparr>slocked = True, spid = curpid s\<rparr>, refcnt = 1, data = d\<rparr>"

definition is_block :: "'a bcache_scheme \<Rightarrow> uint \<Rightarrow> nat \<Rightarrow> bool" where
  "is_block s b i \<longleftrightarrow> bdev (bufs s ! i) = 1 \<and> blockno (bufs s ! i) = b"

lemma find_Some_mem: "find P xs = Some x \<Longrightarrow> x \<in> set xs \<and> P x"
  by (auto simp: find_Some_iff)

lemma iderw_read:
  assumes "holdingsleep (curpid s) (slk (bufs s ! i))" "\<not> valid (bufs s ! i)" "\<not> dirty (bufs s ! i)"
    "bdev (bufs s ! i) = 1" "blockno (bufs s ! i) < disksize s" "i < length (bufs s)"
  shows "iderw i s = Inr (s\<lparr>bufs := (bufs s)[i := (bufs s ! i)\<lparr>data := disk s (blockno (bufs s ! i)), valid := True\<rparr>]\<rparr>)"
  using assms by (auto simp: iderw_def Let_def upd_buf_def)

lemma iderw_Inr_range: "iderw i s = Inr t \<Longrightarrow> blockno (bufs s ! i) < disksize s"
  by (auto simp: iderw_def Let_def split: if_splits)

text \<open>\<^verbatim>\<open>bget\<close> and then the read of an invalid buffer, once the buffer has been chosen.\<close>

lemma bread_hit:
  assumes s: "cache_inv s" and i: "i < NBUF" "is_block s b i" "\<not> slocked (slk (bufs s ! i))"
    and r: "valid (bufs s ! i) \<or> b < disksize s"
    and g: "bget 1 b s = block_lock i (upd_buf i (\<lambda>x. x\<lparr>refcnt := refcnt x + 1\<rparr>) s)"
  shows "bread 1 b s = Inr (i, s\<lparr>bufs := (bufs s)[i := locked_buf s b (dirty (bufs s ! i)) (view s b)]\<rparr>)"
proof -
  note S = cache_invD [OF s]
  have ok: "buf_ok (disk s) (bufs s ! i)" and l: "i < length (bufs s)"
    using S i by auto
  have v: "view s b = (if valid (bufs s ! i) then data (bufs s ! i) else disk s b)"
  proof (cases "valid (bufs s ! i)")
    case True
    then show ?thesis using view_cached [OF s i(1)] i(2) by (simp add: is_block_def)
  next
    case False
    have "valid (bufs s ! j) \<Longrightarrow> blockno (bufs s ! j) \<noteq> b" if "j < NBUF" for j
      using S(4) [of j i] S(2) [OF that] i that False by (auto simp: is_block_def buf_ok_def)
    then show ?thesis using view_uncached [OF s] False by simp
  qed
  have bg: "bget 1 b s = Inr (i, s\<lparr>bufs := (bufs s)[i := (bufs s ! i)\<lparr>refcnt := 1, slk := \<lparr>slocked = True, spid = curpid s\<rparr>\<rparr>]\<rparr>)"
    using ok l i(3) unfolding g
    by (cases "bufs s ! i"; cases "slk (bufs s ! i)") (auto simp: block_lock_def acquiresleep_def upd_buf_def buf_ok_def)
  show ?thesis
    using ok l i(2,3) v r
    by (cases "bufs s ! i") (auto simp: bread_def bg iderw_read holdingsleep_def is_block_def locked_buf_def buf_ok_def)
qed

lemma bread_miss:
  assumes s: "cache_inv s" and i: "i < NBUF" "refcnt (bufs s ! i) = 0" "\<not> dirty (bufs s ! i)"
    and n: "\<And>j. j < NBUF \<Longrightarrow> \<not> is_block s b j" and r: "b < disksize s"
    and g: "bget 1 b s =
      block_lock i (upd_buf i (\<lambda>x. x\<lparr>bdev := 1, blockno := b, valid := False, dirty := False, refcnt := 1\<rparr>) s)"
  shows "bread 1 b s = Inr (i, s\<lparr>bufs := (bufs s)[i := locked_buf s b False (view s b)]\<rparr>)"
proof -
  note S = cache_invD [OF s]
  have ok: "buf_ok (disk s) (bufs s ! i)" and l: "i < length (bufs s)"
    using S i by auto
  have v: "view s b = disk s b"
    using n S(2) by (intro view_uncached [OF s]) (auto simp: is_block_def buf_ok_def)
  show ?thesis
    using ok l i(2,3) r v unfolding bread_def g
    by (cases "bufs s ! i"; cases "slk (bufs s ! i)")
      (auto simp: block_lock_def acquiresleep_def upd_buf_def iderw_read holdingsleep_def locked_buf_def buf_ok_def
        split: if_splits)
qed

text \<open>Which buffer \<^verbatim>\<open>bget\<close> chooses, and when it finds none.\<close>

lemma bget_lru:
  assumes "lru s xs"
  shows "bget dev b s =
    (case find (\<lambda>i. bdev (bufs s ! i) = dev \<and> blockno (bufs s ! i) = b) xs of
       Some i \<Rightarrow> block_lock i (upd_buf i (\<lambda>x. x\<lparr>refcnt := refcnt x + 1\<rparr>) s)
     | None \<Rightarrow>
         (case find (\<lambda>i. refcnt (bufs s ! i) = 0 \<and> \<not> dirty (bufs s ! i)) (rev xs) of
            Some i \<Rightarrow> block_lock i
              (upd_buf i (\<lambda>x. x\<lparr>bdev := dev, blockno := b, valid := False, dirty := False, refcnt := 1\<rparr>) s)
          | None \<Rightarrow> Inl (Panic ''bget: no buffers'')))"
proof -
  have "NBUF \<notin> set xs"
    using assms by (simp add: lru_def)
  then show ?thesis
    unfolding bget_def scan_lru [OF assms] bindE_Inr
    by (auto split: option.splits dest: find_Some_mem)
qed

lemma bget_cases:
  assumes s: "cache_inv s"
  obtains (hit) i where "i < NBUF" "bdev (bufs s ! i) = dev" "blockno (bufs s ! i) = b"
      "bget dev b s = block_lock i (upd_buf i (\<lambda>x. x\<lparr>refcnt := refcnt x + 1\<rparr>) s)"
  | (miss) i where "i < NBUF" "refcnt (bufs s ! i) = 0" "\<not> dirty (bufs s ! i)"
      "\<And>j. j < NBUF \<Longrightarrow> \<not> (bdev (bufs s ! j) = dev \<and> blockno (bufs s ! j) = b)"
      "bget dev b s = block_lock i
         (upd_buf i (\<lambda>x. x\<lparr>bdev := dev, blockno := b, valid := False, dirty := False, refcnt := 1\<rparr>) s)"
  | (full) "\<And>j. j < NBUF \<Longrightarrow> refcnt (bufs s ! j) \<noteq> 0 \<or> dirty (bufs s ! j)"
      "\<And>j. j < NBUF \<Longrightarrow> \<not> (bdev (bufs s ! j) = dev \<and> blockno (bufs s ! j) = b)"
      "bget dev b s = Inl (Panic ''bget: no buffers'')"
proof -
  obtain xs where xs: "lru s xs"
    using cache_invD(5) [OF s] by auto
  have set_xs: "set xs = {..<NBUF}"
    using xs by (simp add: lru_def)
  let ?P = "\<lambda>b'. bdev (bufs s ! b') = dev \<and> blockno (bufs s ! b') = b"
  let ?Q = "\<lambda>b'. refcnt (bufs s ! b') = 0 \<and> \<not> dirty (bufs s ! b')"
  show ?thesis
  proof (cases "find ?P xs")
    case (Some i)
    then show ?thesis
      using find_Some_mem [OF Some] set_xs by (intro hit [of i]) (auto simp: bget_lru [OF xs])
  next
    case None
    then have no: "\<not> ?P j" if "j < NBUF" for j
      using that set_xs by (auto simp: find_None_iff)
    show ?thesis
    proof (cases "find ?Q (rev xs)")
      case (Some i)
      then show ?thesis
        using find_Some_mem [OF Some] set_xs None no by (intro miss [of i]) (auto simp: bget_lru [OF xs])
    next
      case n2: None
      then have "\<not> ?Q j" if "j < NBUF" for j
        using that set_xs by (auto simp: find_None_iff)
      then show ?thesis
        using None n2 no by (intro full) (auto simp: bget_lru [OF xs])
    qed
  qed
qed

lemma locked_blocks_iff:
  "cache_inv s \<Longrightarrow> b \<in> locked_blocks s \<longleftrightarrow> (\<exists>i<NBUF. slocked (slk (bufs s ! i)) \<and> blockno (bufs s ! i) = b)"
  using cache_invD(1) [of s] by (auto simp: locked_blocks_def in_set_conv_nth image_iff)

lemma dirty_blocks_iff:
  "cache_inv s \<Longrightarrow> b \<in> dirty_blocks s \<longleftrightarrow> (\<exists>i<NBUF. dirty (bufs s ! i) \<and> blockno (bufs s ! i) = b)"
  using cache_invD(1) [of s] by (auto simp: dirty_blocks_def in_set_conv_nth image_iff)

text \<open>
  A \<^verbatim>\<open>bread\<close> that returns: the block was not locked, and the only change is the buffer it returns,
  which holds the block as the cache showed it.
\<close>

lemma bread_shape:
  assumes s: "cache_inv s" and r: "bread 1 b s = Inr (i, t)"
  shows "i < NBUF \<and> \<not> slocked (slk (bufs s ! i)) \<and> b \<notin> locked_blocks s \<and>
    t = s\<lparr>bufs := (bufs s)[i := locked_buf s b (b \<in> dirty_blocks s) (view s b)]\<rparr> \<and>
    (is_block s b i \<or> \<not> dirty (bufs s ! i) \<and> (\<forall>j<NBUF. \<not> is_block s b j))"
  using s
proof (cases rule: bget_cases [where dev = 1 and b = b])
  case (hit j)
  note S = cache_invD [OF s]
  have ij: "i = j" and nl: "\<not> slocked (slk (bufs s ! j))" and v: "valid (bufs s ! j) \<or> b < disksize s"
    using r hit S(1) by (auto simp: bread_def block_lock_def acquiresleep_def upd_buf_def bindE_eq_Inr
        dest!: iderw_Inr_range split: if_splits)
  have jb: "is_block s b j"
    using hit by (simp add: is_block_def)
  have u: "k = j" if "k < NBUF" "blockno (bufs s ! k) = b" "slocked (slk (bufs s ! k)) \<or> dirty (bufs s ! k)" for k
    using that hit S(2) [of k] S(4) [of j k] by (auto simp: buf_ok_def)
  have "b \<notin> locked_blocks s" "b \<in> dirty_blocks s \<longleftrightarrow> dirty (bufs s ! j)"
    unfolding locked_blocks_iff [OF s] dirty_blocks_iff [OF s] using u nl hit(1,3) by blast+
  then show ?thesis
    using bread_hit [OF s hit(1) jb nl v hit(4)] r ij jb nl hit(1) by simp
next
  case (miss j)
  note S = cache_invD [OF s]
  have n: "\<not> is_block s b k" if "k < NBUF" for k
    using miss(4) [OF that] by (simp add: is_block_def)
  have ij: "i = j" and v: "b < disksize s"
    using r miss S(1) by (auto simp: bread_def block_lock_def acquiresleep_def upd_buf_def bindE_eq_Inr
        dest!: iderw_Inr_range split: if_splits)
  have "b \<notin> locked_blocks s" "b \<notin> dirty_blocks s"
    using n S(2) by (auto simp: locked_blocks_iff [OF s] dirty_blocks_iff [OF s] is_block_def buf_ok_def)
  moreover have "\<not> slocked (slk (bufs s ! j))"
    using S(2) [OF miss(1)] miss(2) by (auto simp: buf_ok_def)
  ultimately show ?thesis
    using bread_miss [OF s miss(1-3) n v miss(5)] r ij miss(1,3) n by simp
next
  case full
  then show ?thesis using r by (simp add: bread_def)
qed

text \<open>A buffer is free as long as fewer than \<^verbatim>\<open>NBUF\<close> blocks are locked or dirty.\<close>

lemma free_buffer:
  assumes s: "cache_inv s" and c: "card (locked_blocks s \<union> dirty_blocks s) < NBUF"
  shows "\<exists>j<NBUF. refcnt (bufs s ! j) = 0 \<and> \<not> dirty (bufs s ! j)"
proof (rule ccontr)
  note S = cache_invD [OF s]
  assume "\<not> ?thesis"
  then have busy: "valid (bufs s ! j) \<and> bdev (bufs s ! j) = 1 \<and> (slocked (slk (bufs s ! j)) \<or> dirty (bufs s ! j))"
    if "j < NBUF" for j
    using that S(2) [OF that] by (auto simp: buf_ok_def split: if_splits)
  have "inj_on (\<lambda>j. blockno (bufs s ! j)) {..<NBUF}"
    using S(4) busy by (auto intro!: inj_onI)
  then have "card ((\<lambda>j. blockno (bufs s ! j)) ` {..<NBUF}) = NBUF"
    by (simp add: card_image)
  moreover have "(\<lambda>j. blockno (bufs s ! j)) ` {..<NBUF} \<subseteq> locked_blocks s \<union> dirty_blocks s"
    unfolding image_subset_iff Un_iff locked_blocks_iff [OF s] dirty_blocks_iff [OF s]
    using busy by (metis lessThan_iff)
  moreover have "finite (locked_blocks s \<union> dirty_blocks s)"
    by simp
  ultimately show False
    using c card_mono by (metis leD)
qed

lemma bread_total:
  assumes s: "cache_inv s" and b: "b < disksize s" "b \<notin> locked_blocks s"
    and c: "b \<in> dirty_blocks s \<or> card (locked_blocks s \<union> dirty_blocks s) < NBUF"
  shows "\<exists>i t. bread 1 b s = Inr (i, t)"
  using s
proof (cases rule: bget_cases [where dev = 1 and b = b])
  case (hit j)
  then have "\<not> slocked (slk (bufs s ! j))"
    using b by (auto simp: locked_blocks_iff [OF s])
  then show ?thesis
    using bread_hit [OF s hit(1) _ _ _ hit(4)] b hit(2,3) by (auto simp: is_block_def)
next
  case (miss j)
  then show ?thesis
    using bread_miss [OF s miss(1-3) _ b(1) miss(5)] by (auto simp: is_block_def)
next
  case full
  then have "b \<notin> dirty_blocks s"
    using cache_invD(2) [OF s] by (auto simp: dirty_blocks_iff [OF s] buf_ok_def)
  then show ?thesis using full(1) free_buffer [OF s] c by auto
qed

section \<open>The cache implements the block store\<close>

definition abs_store :: "'a bcache_scheme \<Rightarrow> bstore" where
  "abs_store s = \<lparr>vw = view s, dk = disk s, hs = whist s, hld = held s, lkd = locked_blocks s, dty = dirty_blocks s\<rparr>"

text \<open>The part of the state the cache does not touch.\<close>

definition rest :: "'a bcache_scheme \<Rightarrow> 'a bcache_scheme" where
  "rest s = s\<lparr>bufs := [], bnext := [], bprev := [], disk := (\<lambda>_. []), whist := []\<rparr>"

definition pin :: "nat \<Rightarrow> 'a bcache_scheme \<Rightarrow> 'a bcache_scheme" where
  "pin i = upd_buf i (dirty_update (\<lambda>_. True))"

lemma abs_store_sel [simp]:
  "vw (abs_store s) = view s" "dk (abs_store s) = disk s" "hs (abs_store s) = whist s"
  "hld (abs_store s) = held s" "lkd (abs_store s) = locked_blocks s" "dty (abs_store s) = dirty_blocks s"
  by (simp_all add: abs_store_def)

text \<open>How the abstract state follows from replacing one buffer.\<close>

lemma replace_block_sets:
  assumes s: "cache_inv s" and i: "i < NBUF" and t: "cache_inv (s\<lparr>bufs := (bufs s)[i := x]\<rparr>)" and x: "bdev x = 1"
    and o: "is_block s (blockno x) i \<or> \<not> dirty (bufs s ! i) \<and> \<not> slocked (slk (bufs s ! i)) \<and> (\<forall>j<NBUF. \<not> is_block s (blockno x) j)"
  shows "locked_blocks (s\<lparr>bufs := (bufs s)[i := x]\<rparr>) =
      (if slocked (slk x) then insert (blockno x) (locked_blocks s) else locked_blocks s - {blockno x})"
    and "dirty_blocks (s\<lparr>bufs := (bufs s)[i := x]\<rparr>) =
      (if dirty x then insert (blockno x) (dirty_blocks s) else dirty_blocks s - {blockno x})"
proof -
  let ?t = "s\<lparr>bufs := (bufs s)[i := x]\<rparr>"
  note S = cache_invD [OF s]
  have at: "bufs ?t ! j = (if j = i then x else bufs s ! j)" if "j < NBUF" for j
    using S(1) that by simp
  have u: "blockno (bufs s ! j) \<noteq> blockno x"
    if "j < NBUF" "j \<noteq> i" "slocked (slk (bufs s ! j)) \<or> dirty (bufs s ! j)" for j
    using that o S(2) [of j] S(4) [of i j] i by (auto simp: is_block_def buf_ok_def)
  have l: "b \<in> locked_blocks ?t \<longleftrightarrow> b = blockno x \<and> slocked (slk x) \<or>
      (\<exists>j<NBUF. j \<noteq> i \<and> slocked (slk (bufs s ! j)) \<and> blockno (bufs s ! j) = b)" for b
    unfolding locked_blocks_iff [OF t] using at i by metis
  have d: "b \<in> dirty_blocks ?t \<longleftrightarrow> b = blockno x \<and> dirty x \<or>
      (\<exists>j<NBUF. j \<noteq> i \<and> dirty (bufs s ! j) \<and> blockno (bufs s ! j) = b)" for b
    unfolding dirty_blocks_iff [OF t] using at i by metis
  have l': "b \<in> locked_blocks s \<and> b \<noteq> blockno x \<longleftrightarrow>
      (\<exists>j<NBUF. j \<noteq> i \<and> slocked (slk (bufs s ! j)) \<and> blockno (bufs s ! j) = b)" for b
    unfolding locked_blocks_iff [OF s] using u o i by (metis is_block_def)
  have d': "b \<in> dirty_blocks s \<and> b \<noteq> blockno x \<longleftrightarrow>
      (\<exists>j<NBUF. j \<noteq> i \<and> dirty (bufs s ! j) \<and> blockno (bufs s ! j) = b)" for b
    unfolding dirty_blocks_iff [OF s] using u o i by (metis is_block_def)
  show "locked_blocks ?t = (if slocked (slk x) then insert (blockno x) (locked_blocks s) else locked_blocks s - {blockno x})"
    unfolding set_eq_iff l l' [symmetric] by auto
  show "dirty_blocks ?t = (if dirty x then insert (blockno x) (dirty_blocks s) else dirty_blocks s - {blockno x})"
    unfolding set_eq_iff d d' [symmetric] by auto
qed

lemma held_put:
  "length (bufs s) = NBUF \<Longrightarrow> i < NBUF \<Longrightarrow>
     held (s\<lparr>bufs := (bufs s)[i := x]\<rparr>) = (held s)(i := if holdingsleep (curpid s) (slk x) then Some (blockno x) else None)"
  by (auto simp: held_def fun_eq_iff)

lemma bread_refines:
  assumes s: "cache_inv s" and r: "bread 1 b s = Inr (i, t)"
  shows "cache_inv t \<and> rest t = rest s \<and> abs_store t = a_bread i b (abs_store s) \<and>
    hld (abs_store s) i = None \<and> b \<notin> lkd (abs_store s)"
proof -
  note S = cache_invD [OF s]
  let ?x = "locked_buf s b (b \<in> dirty_blocks s) (view s b)"
  have R: "i < NBUF" "\<not> slocked (slk (bufs s ! i))" "b \<notin> locked_blocks s" "t = s\<lparr>bufs := (bufs s)[i := ?x]\<rparr>"
    "is_block s b i \<or> \<not> dirty (bufs s ! i) \<and> (\<forall>j<NBUF. \<not> is_block s b j)"
    using bread_shape [OF s r] by auto
  have n: "j \<noteq> i \<Longrightarrow> j < NBUF \<Longrightarrow> \<not> is_block s b j" for j
    using R(1,5) S(4) [of i j] by (auto simp: is_block_def)
  have t: "cache_inv (s\<lparr>bufs := (bufs s)[i := ?x]\<rparr>)"
    using s R(1) n view_length [OF s] by (intro cache_inv_put) (auto simp: buf_ok_def locked_buf_def is_block_def)
  have v: "view t = view s"
    using view_put [OF s R(1) _ t] R(2,4,5) by (auto simp: locked_buf_def is_block_def)
  have "locked_blocks t = insert b (locked_blocks s)" "dirty_blocks t = dirty_blocks s"
    using replace_block_sets [OF s R(1) t] R(2,4,5) by (auto simp: locked_buf_def)
  moreover have "held t = (held s)(i \<mapsto> b)"
    using held_put [OF S(1) R(1)] R(4) by (simp add: locked_buf_def holdingsleep_def)
  ultimately show ?thesis
    using t v R(2-4) by (simp add: rest_def abs_store_def a_bread_def held_def holdingsleep_def)
qed

text \<open>What holding a buffer says about it.\<close>

lemma heldD:
  assumes s: "cache_inv s" and h: "held s i = Some b"
  shows "i < NBUF" "blockno (bufs s ! i) = b" "bdev (bufs s ! i) = 1" "valid (bufs s ! i)"
    "refcnt (bufs s ! i) = 1" "slocked (slk (bufs s ! i))" "spid (slk (bufs s ! i)) = curpid s"
    "length (data (bufs s ! i)) = BSIZE" "is_block s b i" "view s b = data (bufs s ! i)" "b \<in> locked_blocks s"
    "dirty (bufs s ! i) \<longleftrightarrow> b \<in> dirty_blocks s"
proof -
  note S = cache_invD [OF s]
  show i: "i < NBUF" and b: "blockno (bufs s ! i) = b" and l: "slocked (slk (bufs s ! i))"
    and "spid (slk (bufs s ! i)) = curpid s"
    using h by (auto simp: held_def holdingsleep_def split: if_splits)
  then show v: "valid (bufs s ! i)" "bdev (bufs s ! i) = 1"
    "refcnt (bufs s ! i) = 1" "length (data (bufs s ! i)) = BSIZE" "is_block s b i"
    using S(2) [OF i] by (auto simp: buf_ok_def is_block_def)
  show "view s b = data (bufs s ! i)"
    using view_cached [OF s i] v b by auto
  show "b \<in> locked_blocks s"
    using i b l by (auto simp: locked_blocks_iff [OF s])
  have "j = i" if "j < NBUF" "dirty (bufs s ! j)" "blockno (bufs s ! j) = b" for j
    using that S(2) [of j] S(4) [of j i] i b v by (auto simp: buf_ok_def)
  then show "dirty (bufs s ! i) \<longleftrightarrow> b \<in> dirty_blocks s"
    using i b by (auto simp: dirty_blocks_iff [OF s])
qed

text \<open>Changing the data or the dirty bit of a buffer the process holds.\<close>

lemma held_update:
  assumes s: "cache_inv s" and h: "held s i = Some b"
    and x: "valid x" "bdev x = 1" "blockno x = b" "slk x = slk (bufs s ! i)" "refcnt x = 1" "length (data x) = BSIZE"
  defines "t \<equiv> s\<lparr>bufs := (bufs s)[i := x]\<rparr>"
  shows "cache_inv t" "rest t = rest s"
    "abs_store t = (abs_store s)\<lparr>vw := (view s)(b := data x),
       dty := if dirty x then insert b (dirty_blocks s) else dirty_blocks s - {b}\<rparr>"
proof -
  note S = cache_invD [OF s] and H = heldD [OF s h]
  have "\<not> is_block s b j" if "j \<noteq> i" "j < NBUF" for j
    using that H S(4) [of i j] by (auto simp: is_block_def)
  then have t: "cache_inv (s\<lparr>bufs := (bufs s)[i := x]\<rparr>)"
    using s H x by (intro cache_inv_put) (auto simp: buf_ok_def is_block_def)
  then show "cache_inv t"
    by (simp add: t_def)
  have "view t = (view s)(b := data x)"
    using view_put [OF s H(1) x(1) t] H x by (simp add: t_def)
  moreover have "locked_blocks t = locked_blocks s"
    "dirty_blocks t = (if dirty x then insert b (dirty_blocks s) else dirty_blocks s - {b})"
    using replace_block_sets [OF s H(1) t x(2)] H x by (auto simp: t_def)
  moreover have "held t = held s"
    using held_put [OF S(1) H(1)] H x h by (simp add: t_def holdingsleep_def fun_upd_idem)
  ultimately show "abs_store t = (abs_store s)\<lparr>vw := (view s)(b := data x),
       dty := if dirty x then insert b (dirty_blocks s) else dirty_blocks s - {b}\<rparr>"
    by (simp add: abs_store_def t_def)
qed (simp add: t_def rest_def)

lemma set_bdata_refines:
  assumes "cache_inv s" "held s i = Some b" "length d = BSIZE"
  shows "cache_inv (set_bdata i d s) \<and> rest (set_bdata i d s) = rest s \<and>
    abs_store (set_bdata i d s) = a_put i d (abs_store s)"
proof -
  note H = heldD [OF assms(1,2)]
  let ?x = "(bufs s ! i)\<lparr>data := d\<rparr>"
  have eq: "set_bdata i d s = s\<lparr>bufs := (bufs s)[i := ?x]\<rparr>"
    by (simp add: set_bdata_def upd_buf_def)
  have "cache_inv (set_bdata i d s)" "rest (set_bdata i d s) = rest s"
    "abs_store (set_bdata i d s) = (abs_store s)\<lparr>vw := (view s)(b := data ?x),
       dty := if dirty ?x then insert b (dirty_blocks s) else dirty_blocks s - {b}\<rparr>"
    unfolding eq by (rule held_update [OF assms(1,2)]; use H assms(3) in simp)+
  then show ?thesis
    using H assms(2) by (auto simp: a_put_def abs_store_def insert_absorb)
qed

lemma pin_refines:
  assumes "cache_inv s" "held s i = Some b"
  shows "cache_inv (pin i s) \<and> rest (pin i s) = rest s \<and> abs_store (pin i s) = a_pin i (abs_store s)"
proof -
  note H = heldD [OF assms]
  let ?x = "(bufs s ! i)\<lparr>dirty := True\<rparr>"
  have eq: "pin i s = s\<lparr>bufs := (bufs s)[i := ?x]\<rparr>"
    by (simp add: pin_def upd_buf_def)
  have "cache_inv (pin i s)" "rest (pin i s) = rest s"
    "abs_store (pin i s) = (abs_store s)\<lparr>vw := (view s)(b := data ?x),
       dty := if dirty ?x then insert b (dirty_blocks s) else dirty_blocks s - {b}\<rparr>"
    unfolding eq by (rule held_update [OF assms]; use H in simp)+
  then show ?thesis
    using H assms(2) by (auto simp: a_pin_def abs_store_def)
qed

lemma disk_update:
  fixes s :: "'a bcache_scheme" and w :: "(uint \<times> block) list"
  assumes s: "cache_inv s" and h: "held s i = Some b"
  defines "t \<equiv> s\<lparr>disk := (disk s)(b := view s b), whist := w\<rparr>"
  shows "cache_inv t" "rest t = rest s" "abs_store t = (abs_store s)\<lparr>dk := (disk s)(b := view s b), hs := w\<rparr>"
proof -
  note S = cache_invD [OF s] and H = heldD [OF s h]
  have "buf_ok (disk t) (bufs s ! j)" if "j < NBUF" for j
    using S(2) [OF that] view_cached [OF s that] by (auto simp: buf_ok_def t_def)
  then have "\<forall>x\<in>set (bufs t). buf_ok (disk t) x"
    using S(1) by (auto simp: t_def in_set_conv_nth)
  moreover have "\<exists>xs. lru t xs"
    using S(5) by (simp add: t_def lru_def)
  ultimately show t: "cache_inv t"
    using s view_length [OF s] unfolding cache_inv_def by (auto simp: t_def)
  have "view t = view s"
    using S H(10) by (auto simp: view_def t_def fun_eq_iff split: option.splits)
  moreover have "locked_blocks t = locked_blocks s" "dirty_blocks t = dirty_blocks s" "held t = held s"
    by (auto simp: locked_blocks_def dirty_blocks_def held_def t_def)
  ultimately show "abs_store t = (abs_store s)\<lparr>dk := (disk s)(b := view s b), hs := w\<rparr>"
    by (simp add: abs_store_def t_def)
qed (simp add: t_def rest_def)

lemma bwrite_refines:
  assumes "cache_inv s" "held s i = Some b" "b < disksize s"
  shows "\<exists>t. bwrite i s = Inr t \<and> cache_inv t \<and> rest t = rest s \<and> abs_store t = a_bwrite i (abs_store s)"
proof -
  note H = heldD [OF assms(1,2)] and S = cache_invD [OF assms(1)]
  let ?x = "(bufs s ! i)\<lparr>dirty := False\<rparr>"
  let ?s = "s\<lparr>bufs := (bufs s)[i := ?x]\<rparr>"
  have u: "cache_inv ?s" "rest ?s = rest s"
    "abs_store ?s = (abs_store s)\<lparr>vw := (view s)(b := data ?x),
       dty := if dirty ?x then insert b (dirty_blocks s) else dirty_blocks s - {b}\<rparr>"
    by (rule held_update [OF assms(1,2)]; use H in simp)+
  have v: "view ?s = view s" "held ?s = held s" "dirty_blocks ?s = dirty_blocks s - {b}"
    "locked_blocks ?s = locked_blocks s"
    using u(3) H(10) by (auto simp: abs_store_def)
  let ?t = "?s\<lparr>disk := (disk ?s)(b := view ?s b), whist := whist s @ [(b, view s b)]\<rparr>"
  have "bwrite i s = Inr ?t"
    using H S(1) assms(3) v(1)
    by (cases "bufs s ! i") (auto simp: bwrite_def holdingsleep_def iderw_def Let_def upd_buf_def)
  moreover have "held ?s i = Some b"
    using v(2) assms(2) by simp
  note d = disk_update [OF u(1) this, where w = "whist s @ [(b, view s b)]"]
  have "abs_store ?t = a_bwrite i (abs_store s)"
    unfolding d(3) using assms(2) v by (simp add: a_bwrite_def Let_def abs_store_def)
  ultimately show ?thesis
    using d(1,2) u(2) by auto
qed

lemma to_front_refines:
  assumes s: "cache_inv s" and i: "i < NBUF"
  shows "cache_inv (to_front i s)" "rest (to_front i s) = rest s" "abs_store (to_front i s) = abs_store s"
proof -
  obtain xs where "lru s xs"
    using cache_invD(5) [OF s] by auto
  note T = lru_to_front [OF this i]
  have eq: "bufs (to_front i s) = bufs s" "disk (to_front i s) = disk s" "whist (to_front i s) = whist s"
    "curpid (to_front i s) = curpid s"
    by (simp_all add: to_front_def Let_def)
  show "cache_inv (to_front i s)"
    using s T(1) unfolding cache_inv_def eq by blast
  have "view (to_front i s) = view s" "held (to_front i s) = held s"
    by (rule ext, simp add: view_def eq split: option.split) (rule ext, simp add: held_def eq)
  then show "abs_store (to_front i s) = abs_store s"
    by (simp add: abs_store_def locked_blocks_def dirty_blocks_def eq)
  show "rest (to_front i s) = rest s"
    by (simp add: rest_def to_front_def Let_def)
qed

lemma brelse_refines:
  assumes s: "cache_inv s" and h: "held s i = Some b" and c: "settled (abs_store s) b"
  shows "\<exists>t. brelse i s = Inr t \<and> cache_inv t \<and> rest t = rest s \<and> abs_store t = a_brelse i (abs_store s)"
proof -
  note H = heldD [OF s h] and S = cache_invD [OF s]
  let ?x = "(bufs s ! i)\<lparr>slk := releasesleep (slk (bufs s ! i)), refcnt := 0\<rparr>"
  let ?t = "s\<lparr>bufs := (bufs s)[i := ?x]\<rparr>"
  have e: "brelse i s = Inr (to_front i ?t)"
    using H S(1) by (auto simp: brelse_def holdingsleep_def upd_buf_def Let_def)
  have n: "\<not> is_block s b j" if "j \<noteq> i" "j < NBUF" for j
    using that H S(4) [of i j] by (auto simp: is_block_def)
  have "buf_ok (disk s) ?x"
    using H c S(2) [of i] by (auto simp: buf_ok_def settled_def)
  then have t: "cache_inv ?t"
    using s H n by (intro cache_inv_put) (auto simp: is_block_def)
  have "view ?t = view s"
    using view_put [OF s H(1) _ t] H by auto
  moreover have "locked_blocks ?t = locked_blocks s - {b}" "dirty_blocks ?t = dirty_blocks s"
    using replace_block_sets [OF s H(1) t] H by auto
  moreover have "held ?t = (held s)(i := None)"
    using held_put [OF S(1) H(1)] by (simp add: holdingsleep_def releasesleep_def)
  ultimately have "abs_store ?t = a_brelse i (abs_store s)" "rest ?t = rest s"
    using h by (auto simp: abs_store_def a_brelse_def rest_def)
  then show ?thesis
    using e to_front_refines [OF t H(1)] by simp
qed

lemma free_is_settled:
  assumes s: "cache_inv s" and b: "b \<notin> locked_blocks s"
  shows "settled (abs_store s) b"
proof (cases "\<exists>i<NBUF. valid (bufs s ! i) \<and> blockno (bufs s ! i) = b")
  case True
  then obtain i where i: "i < NBUF" "valid (bufs s ! i)" "blockno (bufs s ! i) = b"
    by auto
  moreover have "\<not> slocked (slk (bufs s ! i))"
    using b i by (auto simp: locked_blocks_iff [OF s])
  ultimately show ?thesis
    using cache_invD(2) [OF s i(1)] view_cached [OF s i(1)]
    by (auto simp: settled_def buf_ok_def dirty_blocks_iff [OF s])
next
  case False
  then show ?thesis
    using view_uncached [OF s] by (auto simp: settled_def)
qed

interpretation bc: block_store "bread 1" bwrite brelse bdata set_bdata pin cache_inv abs_store rest disksize
proof (unfold_locales, goal_cases)
  case (1 s b i t)
  then show ?case by (rule bread_refines)
next
  case (2 s b)
  then show ?case
    using bread_total [of s b] by (auto simp: avail_def rest_def)
next
  case (3 s i b)
  then show ?case using heldD(10) [of s i b] by (simp add: bdata_def)
next
  case (4 s i b d)
  then show ?case using set_bdata_refines [of s i b d] by simp
next
  case (5 s i b)
  then show ?case using pin_refines [of s i b] by simp
next
  case (6 s i b)
  then show ?case using bwrite_refines [of s i b] by (simp add: rest_def)
next
  case (7 s i b)
  then show ?case using brelse_refines [of s i b] by simp
qed (auto intro: heldD(11) free_is_settled view_length)

lemma store_sel:
  assumes "abs_store t = A"
  shows "view t = vw A" "disk t = dk A" "whist t = hs A" "held t = hld A" "locked_blocks t = lkd A" "dirty_blocks t = dty A"
  using assms by (auto simp: abs_store_def)

text \<open>The abstract state depends on the fields of the cache only, not on what extends it.\<close>

lemma same_cache:
  fixes s :: "'a bcache_scheme" and t :: "'b bcache_scheme"
  assumes "bufs t = bufs s" "bnext t = bnext s" "bprev t = bprev s" "disk t = disk s" "whist t = whist s" "curpid t = curpid s"
  shows "cache_inv t = cache_inv s" "abs_store t = abs_store s"
proof -
  show "cache_inv t = cache_inv s"
    by (simp add: cache_inv_def lru_def assms)
  have "view t = view s" "held t = held s"
    by (rule ext, simp add: view_def assms split: option.split) (rule ext, simp add: held_def assms)
  then show "abs_store t = abs_store s"
    by (simp add: abs_store_def locked_blocks_def dirty_blocks_def assms)
qed

text \<open>Whatever the state of the cache, its operations touch nothing else.\<close>

lemma rest_upd_buf [simp]: "rest (upd_buf i f s) = rest s" "rest (to_front i s) = rest s" "rest (set_bdata i d s) = rest s" "rest (pin i s) = rest s"
  by (simp_all add: rest_def upd_buf_def to_front_def set_bdata_def pin_def Let_def)

lemma iderw_rest: "iderw i s = Inr t \<Longrightarrow> rest t = rest s"
  by (auto simp: iderw_def Let_def rest_def upd_buf_def split: if_splits)

lemma bread_rest: "bread dev b s = Inr (i, t) \<Longrightarrow> rest t = rest s"
  by (auto simp: bread_def bget_def block_lock_def bindE_eq_Inr dest!: iderw_rest split: if_splits)

lemma bwrite_rest: "bwrite i s = Inr t \<Longrightarrow> rest t = rest s"
  by (auto simp: bwrite_def dest!: iderw_rest split: if_splits)

lemma brelse_rest: "brelse i s = Inr t \<Longrightarrow> rest t = rest s"
  by (auto simp: brelse_def Let_def split: if_splits)

lemmas cache_rest = bread_rest bwrite_rest brelse_rest

section \<open>The start of the cache\<close>

text \<open>A buffer of the zeroed memory in which \<^verbatim>\<open>binit\<close> runs.\<close>

definition zero_buf :: buf where
  "zero_buf = \<lparr>valid = False, dirty = False, bdev = 0, blockno = 0, slk = initsleeplock, refcnt = 0,
     data = replicate BSIZE 0\<rparr>"

lemma binit_bufs:
  assumes "\<forall>b\<in>set (bufs s). b = zero_buf"
  shows "bufs (fold binit_link ks s) = bufs s \<and> disk (fold binit_link ks s) = disk s \<and>
    rest (fold binit_link ks s) = rest s \<and> whist (fold binit_link ks s) = whist s \<and> curpid (fold binit_link ks s) = curpid s"
  using assms
proof (induction ks arbitrary: s)
  case (Cons k ks)
  have "bufs (binit_link k s) = bufs s"
  proof (cases "k < length (bufs s)")
    case True
    then have "bufs s ! k = zero_buf"
      using Cons.prems by simp
    then show ?thesis
      by (metis (no_types, lifting) binit_links(3) buf.surjective buf.update_convs(5) list_update_id zero_buf_def)
  next
    case False
    then show ?thesis by (simp add: binit_links(3) list_update_beyond not_less)
  qed
  moreover have "disk (binit_link k s) = disk s" "rest (binit_link k s) = rest s" "whist (binit_link k s) = whist s"
    "curpid (binit_link k s) = curpid s"
    by (simp_all add: binit_link_def Let_def upd_buf_def rest_def)
  ultimately show ?case
    using Cons by simp
qed simp

section \<open>Properties of the buffer cache\<close>

lemma lru_binit:
  assumes "length (bnext s) = NBUF + 1" "length (bprev s) = NBUF + 1"
  shows "lru (binit s) (rev [0..<NBUF])"
  using binit_ring [OF assms, of NBUF] by (auto simp: lru_def binit_def)

text \<open>The state after \<^verbatim>\<open>binit\<close>.\<close>

definition zeroed :: "'a bcache_scheme \<Rightarrow> bool" where
  "zeroed s \<longleftrightarrow> bufs s = replicate NBUF zero_buf \<and> length (bnext s) = NBUF + 1 \<and> length (bprev s) = NBUF + 1 \<and>
     (\<forall>b. length (disk s b) = BSIZE)"

lemma binit_zeroed:
  assumes "zeroed s"
  shows "bufs (binit s) = replicate NBUF zero_buf" "disk (binit s) = disk s" "whist (binit s) = whist s"
    "rest (binit s) = rest s" "lru (binit s) (rev [0..<NBUF])"
proof -
  show "bufs (binit s) = replicate NBUF zero_buf" "disk (binit s) = disk s" "whist (binit s) = whist s" "rest (binit s) = rest s"
    using binit_bufs [of "s\<lparr>bprev := (bprev s)[NBUF := NBUF], bnext := (bnext s)[NBUF := NBUF]\<rparr>" "[0..<NBUF]"] assms
    by (auto simp: binit_def zeroed_def rest_def)
  show "lru (binit s) (rev [0..<NBUF])"
    using assms by (intro lru_binit) (simp_all add: zeroed_def)
qed

lemma boot_store:
  assumes "zeroed s"
  shows "cache_inv (binit s)"
    "abs_store (binit s) = \<lparr>vw = disk s, dk = disk s, hs = whist s, hld = (\<lambda>_. None), lkd = {}, dty = {}\<rparr>"
proof -
  note t = binit_zeroed [OF assms]
  show "cache_inv (binit s)"
    using assms t by (auto simp: zeroed_def cache_inv_def buf_ok_def zero_buf_def initsleeplock_def)
  moreover have "view (binit s) = disk s"
    using t by (auto simp: view_def fun_eq_iff zero_buf_def find_Some_iff split: option.splits)
  moreover have "locked_blocks (binit s) = {}" "dirty_blocks (binit s) = {}" "held (binit s) = (\<lambda>_. None)"
    using t by (auto simp: locked_blocks_def dirty_blocks_def held_def fun_eq_iff zero_buf_def initsleeplock_def holdingsleep_def)
  ultimately show "abs_store (binit s) = \<lparr>vw = disk s, dk = disk s, hs = whist s, hld = (\<lambda>_. None), lkd = {}, dty = {}\<rparr>"
    using t by (simp add: abs_store_def)
qed

text \<open>
  \<^verbatim>\<open>binit\<close> on zeroed memory links all buffers into one circular list, with the last buffer of the
  array most recently used, and leaves a cache that satisfies the invariant, holds nothing and
  shows exactly the disk.
\<close>

theorem binit_establishes:
  assumes "zeroed s"
  shows "lru (binit s) (rev [0..<NBUF]) \<and> cache_inv (binit s) \<and> rest (binit s) = rest s \<and>
    abs_store (binit s) = \<lparr>vw = disk s, dk = disk s, hs = whist s, hld = (\<lambda>_. None), lkd = {}, dty = {}\<rparr>"
  using boot_store [OF assms] binit_zeroed [OF assms] by blast

text \<open>A zeroed cache over a disk of 1000 equal blocks, for the examples.\<close>

definition sevens :: bcache where
  "sevens = \<lparr>bufs = replicate NBUF zero_buf, bnext = replicate (NBUF + 1) 0, bprev = replicate (NBUF + 1) 0,
     disk = (\<lambda>_. replicate BSIZE 7), disksize = 1000, whist = [], curpid = 1\<rparr>"

lemma sevens_boot:
  "zeroed sevens" "cache_inv (binit sevens)" "view (binit sevens) = (\<lambda>_. replicate BSIZE 7)"
  "locked_blocks (binit sevens) = {}" "dirty_blocks (binit sevens) = {}" "disksize (binit sevens) = 1000"
  "bufs (binit sevens) = replicate NBUF zero_buf" "lru (binit sevens) (rev [0..<NBUF])"
proof -
  show z: "zeroed sevens"
    by (simp add: zeroed_def sevens_def)
  note B = boot_store [OF z] binit_zeroed [OF z]
  show "cache_inv (binit sevens)" "view (binit sevens) = (\<lambda>_. replicate BSIZE 7)"
    "locked_blocks (binit sevens) = {}" "dirty_blocks (binit sevens) = {}"
    "bufs (binit sevens) = replicate NBUF zero_buf" "lru (binit sevens) (rev [0..<NBUF])"
    using B store_sel [OF B(2)] by (simp_all add: sevens_def)
  show "disksize (binit sevens) = 1000"
    using arg_cong [OF B(6), of disksize] by (simp add: rest_def sevens_def)
qed

theorem binit_establishes_witness:
  "cache_inv (binit sevens)"
  using binit_establishes [OF sevens_boot(1)] by blast

text \<open>
  C6: \<^verbatim>\<open>bread\<close> that returns gives exclusive use of a buffer holding the block as its last writer left
  it: the block was locked by nobody, the buffer returned is one the process did not hold, its
  data is what the cache showed for the block (also after a recycled buffer was read from disk),
  and what the cache shows for every block, the disk and the pinned blocks are as before.
\<close>

theorem bread_coherent:
  assumes "cache_inv s" "bread 1 b s = Inr (i, t)"
  shows "cache_inv t \<and> bdata i t = view s b \<and> b \<notin> locked_blocks s \<and> held s i = None \<and>
    held t = (held s)(i \<mapsto> b) \<and> view t = view s \<and> disk t = disk s \<and> dirty_blocks t = dirty_blocks s"
proof -
  note R = bread_refines [OF assms]
  then have "abs_store t = a_bread i b (abs_store s)"
    by simp
  then have "view t = view s" "disk t = disk s" "held t = (held s)(i \<mapsto> b)" "dirty_blocks t = dirty_blocks s"
    by (auto simp: abs_store_def a_bread_def)
  then show ?thesis
    using R bc.fetch [of t i b] by (simp add: a_bread_def)
qed

theorem bread_coherent_witness:
  "\<exists>i t. bread 1 5 (binit sevens) = Inr (i, t) \<and>
     bdata i t = replicate BSIZE 7 \<and> held t i = Some 5"
proof -
  define s where "s = binit sevens"
  have a: "cache_inv s" "view s = (\<lambda>_. replicate BSIZE 7)" "locked_blocks s = {}" "dirty_blocks s = {}" "disksize s = 1000"
    using sevens_boot by (simp_all add: s_def)
  then obtain i t where r: "bread 1 5 s = Inr (i, t)"
    using bread_total [of s 5] by (auto simp: NBUF_def)
  from bread_coherent [OF a(1) this] show ?thesis
    using a(2) r by (auto simp: s_def)
qed

text \<open>
  C5: The write-back protocol of one holder: reading a block that nobody holds, changing it, writing
  it and releasing it succeeds whenever a buffer can be had; afterwards both the cache and the
  disk show the new contents for this block and the old ones for every other, the disk has
  received exactly this one write, and no lock is left behind.
\<close>

theorem bread_bwrite_brelse:
  assumes "cache_inv s" "b < disksize s" "b \<notin> locked_blocks s"
    and "card (locked_blocks s \<union> dirty_blocks s) < NBUF" "length d = BSIZE"
  shows "\<exists>i t u v. bread 1 b s = Inr (i, t) \<and> bwrite i (set_bdata i d t) = Inr u \<and> brelse i u = Inr v \<and>
    cache_inv v \<and> view v = (view s)(b := d) \<and> disk v = (disk s)(b := d) \<and> whist v = whist s @ [(b, d)] \<and>
    held v = held s \<and> locked_blocks v = locked_blocks s \<and> dirty_blocks v = dirty_blocks s - {b}"
proof -
  have "avail (abs_store s) b" "b < disksize (rest s)" "b \<notin> lkd (abs_store s)"
    using assms by (simp_all add: avail_def rest_def)
  from bc.write_block [OF assms(1) this(2,3,1), of "\<lambda>_. d"] assms(5)
  show ?thesis by (auto simp: abs_store_def)
qed

theorem bread_bwrite_brelse_witness:
  "\<exists>i t u v. bread 1 5 (binit sevens) = Inr (i, t) \<and>
     bwrite i (set_bdata i (replicate BSIZE 9) t) = Inr u \<and> brelse i u = Inr v \<and> disk v 5 = replicate BSIZE 9"
proof -
  define s where "s = binit sevens"
  have a: "cache_inv s" and e: "locked_blocks s = {}" "dirty_blocks s = {}" and "disksize s = 1000"
    using sevens_boot by (simp_all add: s_def)
  then have "\<exists>i t u v. bread 1 5 s = Inr (i, t) \<and> bwrite i (set_bdata i (replicate BSIZE 9) t) = Inr u \<and> brelse i u = Inr v \<and>
    cache_inv v \<and> view v = (view s)(5 := replicate BSIZE 9) \<and> disk v = (disk s)(5 := replicate BSIZE 9) \<and>
    whist v = whist s @ [(5, replicate BSIZE 9)] \<and> held v = held s \<and> locked_blocks v = locked_blocks s \<and>
    dirty_blocks v = dirty_blocks s - {5}"
    using a e by (intro bread_bwrite_brelse) (simp_all add: NBUF_def)
  then show ?thesis by (auto simp: s_def)
qed

lemma find_append: "find P (xs @ ys) = (case find P xs of None \<Rightarrow> find P ys | Some x \<Rightarrow> Some x)"
  by (induction xs) auto

text \<open>
  C7: Replacement policy: when no buffer holds the block, \<^verbatim>\<open>bget\<close> takes the least recently used buffer
  that is neither referenced nor waiting to be written, gives it the new identity, marks its
  contents invalid and locks it for the caller; the rest of the cache is unchanged.
\<close>

theorem bget_recycles_lru:
  assumes "cache_inv s" "lru s (us @ i # vs)" "refcnt (bufs s ! i) = 0" "\<not> dirty (bufs s ! i)"
    and "\<forall>j\<in>set vs. refcnt (bufs s ! j) \<noteq> 0 \<or> dirty (bufs s ! j)"
    and "\<forall>j<NBUF. \<not> (bdev (bufs s ! j) = dev \<and> blockno (bufs s ! j) = b)"
  shows "bget dev b s = Inr (i, s\<lparr>bufs := (bufs s)[i := (bufs s ! i)\<lparr>valid := False, dirty := False, bdev := dev,
    blockno := b, slk := \<lparr>slocked = True, spid = curpid s\<rparr>, refcnt := 1\<rparr>]\<rparr>)"
proof -
  have i: "i < NBUF" and set: "set (us @ i # vs) = {..<NBUF}"
    using assms(2) by (auto simp: lru_def)
  have "find (\<lambda>j. bdev (bufs s ! j) = dev \<and> blockno (bufs s ! j) = b) (us @ i # vs) = None"
    unfolding find_None_iff using assms(6) set by auto
  moreover have "find (\<lambda>j. refcnt (bufs s ! j) = 0 \<and> \<not> dirty (bufs s ! j)) (rev vs) = None"
    unfolding find_None_iff using assms(5) by auto
  then have "find (\<lambda>j. refcnt (bufs s ! j) = 0 \<and> \<not> dirty (bufs s ! j)) (rev (us @ i # vs)) = Some i"
    using assms(3,4) by (simp add: find_append)
  moreover have "\<not> slocked (slk (bufs s ! i))" "i < length (bufs s)"
    using cache_invD(1,2) [OF assms(1)] i assms(3) by (auto simp: buf_ok_def)
  ultimately show ?thesis
    unfolding bget_lru [OF assms(2)]
    by (cases "bufs s ! i"; cases "slk (bufs s ! i)") (auto simp: block_lock_def acquiresleep_def upd_buf_def)
qed

theorem bget_recycles_lru_witness:
  "\<exists>s :: bcache. bget 1 5 s = Inr (0, s\<lparr>bufs := (bufs s)[0 := (bufs s ! 0)\<lparr>valid := False, dirty := False, bdev := 1,
    blockno := 5, slk := \<lparr>slocked = True, spid = curpid s\<rparr>, refcnt := 1\<rparr>]\<rparr>)"
proof -
  define s where "s = binit sevens"
  have "rev [0..<NBUF] = rev [1..<NBUF] @ 0 # []"
    by (simp add: NBUF_def upt_conv_Cons)
  then have a: "cache_inv s" "lru s (rev [1..<NBUF] @ 0 # [])" "bufs s = replicate NBUF zero_buf"
    using sevens_boot by (simp_all add: s_def)
  show ?thesis
    by (rule exI [of _ s], rule bget_recycles_lru [OF a(1,2)]) (simp_all add: a(3) NBUF_def zero_buf_def)
qed

end
