(* ===== verification/Log_c.thy ===== *)
theory Log_c
  imports Bio_c Fs_h
begin

text \<open>
  The redo log (\<^verbatim>\<open>log.c\<close>).  The fields of \<^verbatim>\<open>struct log\<close> extend the state of the buffer cache;
  \<^verbatim>\<open>log.lock\<close> is held only inside a function and is not represented, and a call that would sleep
  on \<^verbatim>\<open>&log\<close> is \<^verbatim>\<open>Waits\<close>.  Block numbers (\<^verbatim>\<open>log.start\<close>, \<^verbatim>\<open>lh.block\<close>) are words, the counters are
  integers.  The header block is read and written field by field at the offsets of
  \<^verbatim>\<open>struct logheader\<close>.
\<close>

unbundle bit_operations_syntax

section \<open>Definitions\<close>

definition MAXOPBLOCKS :: int where "MAXOPBLOCKS = 10"
definition LOGSIZE :: int where "LOGSIZE = MAXOPBLOCKS * 3"

record logst = bcache +
  log_start :: uint
  log_size :: int
  log_outstanding :: int
  log_committing :: bool
  log_dev :: uint
  lh_n :: int
  lh_block :: "uint list"

definition readsb :: "uint \<Rightarrow> 'a bcache_scheme \<Rightarrow> (superblock \<times> 'a bcache_scheme) res" where
  "readsb dev s =
     bindE (bread dev 1 s) (\<lambda>(bp, s). bindE (brelse bp s) (\<lambda>s'. Inr (dec_sb (bdata bp s), s')))"

definition install_one :: "nat \<Rightarrow> 'a logst_scheme \<Rightarrow> 'a logst_scheme res" where
  "install_one tail s =
     bindE (bread (log_dev s) (log_start s + of_nat tail + 1) s) (\<lambda>(lbuf, s).
     bindE (bread (log_dev s) (lh_block s ! tail) s) (\<lambda>(dbuf, s).
     bindE (bwrite dbuf (set_bdata dbuf (bdata lbuf s) s)) (\<lambda>s.
     bindE (brelse lbuf s) (\<lambda>s. brelse dbuf s))))"

definition install_trans :: "'a logst_scheme \<Rightarrow> 'a logst_scheme res" where
  "install_trans s = foldE install_one [0..<nat (lh_n s)] s"

text \<open>
  A header count above \<^verbatim>\<open>LOGSIZE\<close> makes \<^verbatim>\<open>read_head\<close> write past \<^verbatim>\<open>log.lh.block\<close>.
\<close>

definition read_head :: "'a logst_scheme \<Rightarrow> 'a logst_scheme res" where
  "read_head s =
     bindE (bread (log_dev s) (log_start s) s) (\<lambda>(b, s).
       let d = bdata b s; n = sint (get32 0 d) in
       if n > LOGSIZE then Inl Fault
       else brelse b (s\<lparr>lh_n := n, lh_block := fold (\<lambda>i bl. bl[i := get32 (4 + 4 * i) d]) [0..<nat n] (lh_block s)\<rparr>))"

definition head_bytes :: "int \<Rightarrow> uint list \<Rightarrow> block \<Rightarrow> block" where
  "head_bytes n bl d = fold (\<lambda>i d. put32 (4 + 4 * i) (bl ! i) d) [0..<nat n] (put32 0 (of_int n) d)"

definition write_head :: "'a logst_scheme \<Rightarrow> 'a logst_scheme res" where
  "write_head s =
     bindE (bread (log_dev s) (log_start s) s) (\<lambda>(b, s).
     bindE (bwrite b (set_bdata b (head_bytes (lh_n s) (lh_block s) (bdata b s)) s)) (\<lambda>s. brelse b s))"

definition recover_from_log :: "'a logst_scheme \<Rightarrow> 'a logst_scheme res" where
  "recover_from_log s =
     bindE (read_head s) (\<lambda>s. bindE (install_trans s) (\<lambda>s. write_head (s\<lparr>lh_n := 0\<rparr>)))"

definition initlog :: "uint \<Rightarrow> 'a logst_scheme \<Rightarrow> 'a logst_scheme res" where
  "initlog dev s =
     (if 4 + 4 * nat LOGSIZE \<ge> BSIZE then Inl (Panic ''initlog: too big logheader'')
      else bindE (readsb dev s) (\<lambda>(sb, s).
        recover_from_log (s\<lparr>log_start := sb_logstart sb, log_size := sint (sb_nlog sb), log_dev := dev\<rparr>)))"

definition begin_op :: "'a logst_scheme \<Rightarrow> 'a logst_scheme res" where
  "begin_op s =
     (if log_committing s then Inl Waits
      else if lh_n s + (log_outstanding s + 1) * MAXOPBLOCKS > LOGSIZE then Inl Waits
      else Inr (s\<lparr>log_outstanding := log_outstanding s + 1\<rparr>))"

definition log_one :: "nat \<Rightarrow> 'a logst_scheme \<Rightarrow> 'a logst_scheme res" where
  "log_one tail s =
     bindE (bread (log_dev s) (log_start s + of_nat tail + 1) s) (\<lambda>(to, s).
     bindE (bread (log_dev s) (lh_block s ! tail) s) (\<lambda>(frm, s).
     bindE (bwrite to (set_bdata to (bdata frm s) s)) (\<lambda>s.
     bindE (brelse frm s) (\<lambda>s. brelse to s))))"

definition write_log :: "'a logst_scheme \<Rightarrow> 'a logst_scheme res" where
  "write_log s = foldE log_one [0..<nat (lh_n s)] s"

definition commit :: "'a logst_scheme \<Rightarrow> 'a logst_scheme res" where
  "commit s =
     (if lh_n s > 0 then
        bindE (write_log s) (\<lambda>s. bindE (write_head s) (\<lambda>s. bindE (install_trans s) (\<lambda>s.
          write_head (s\<lparr>lh_n := 0\<rparr>))))
      else Inr s)"

definition end_op :: "'a logst_scheme \<Rightarrow> 'a logst_scheme res" where
  "end_op s =
     (let s = s\<lparr>log_outstanding := log_outstanding s - 1\<rparr> in
      if log_committing s then Inl (Panic ''log.committing'')
      else if log_outstanding s = 0 then
        bindE (commit (s\<lparr>log_committing := True\<rparr>)) (\<lambda>s. Inr (s\<lparr>log_committing := False\<rparr>))
      else Inr s)"

text \<open>The slot of \<^verbatim>\<open>lh.block\<close> the loop of \<^verbatim>\<open>log_write\<close> stops at.\<close>

fun log_slot :: "uint \<Rightarrow> uint list \<Rightarrow> nat" where
  "log_slot b [] = 0"
| "log_slot b (x # xs) = (if x = b then 0 else Suc (log_slot b xs))"

definition log_write :: "nat \<Rightarrow> 'a logst_scheme \<Rightarrow> 'a logst_scheme res" where
  "log_write b s =
     (if lh_n s \<ge> LOGSIZE \<or> lh_n s \<ge> log_size s - 1 then Inl (Panic ''too big a transaction'')
      else if log_outstanding s < 1 then Inl (Panic ''log_write outside of trans'')
      else
        let bno = blockno (bufs s ! b);
            i = log_slot bno (take (nat (lh_n s)) (lh_block s));
            s = s\<lparr>lh_block := (lh_block s)[i := bno]\<rparr>;
            s = (if int i = lh_n s then s\<lparr>lh_n := lh_n s + 1\<rparr> else s)
        in Inr (pin b s))"

section \<open>Sequences of writes\<close>

text \<open>A disk after a sequence of block writes, and a store in which they have been made through the cache.\<close>

definition apply_writes :: "(uint \<times> block) list \<Rightarrow> (uint \<Rightarrow> block) \<Rightarrow> uint \<Rightarrow> block" where
  "apply_writes W = fold (\<lambda>(b, d) M. M(b := d)) W"

definition wrote :: "(uint \<times> block) list \<Rightarrow> bstore \<Rightarrow> bstore" where
  "wrote W A = A\<lparr>vw := apply_writes W (vw A), dk := apply_writes W (dk A), hs := hs A @ W, dty := dty A - fst ` set W\<rparr>"

lemma apply_writes_simps [simp]:
  "apply_writes [] M = M"
  "apply_writes ((b, d) # W) M = apply_writes W (M(b := d))"
  "apply_writes (W @ W') M = apply_writes W' (apply_writes W M)"
  by (simp_all add: apply_writes_def)

lemma wrote_simps [simp]: "wrote [] A = A" "wrote W' (wrote W A) = wrote (W @ W') A"
  by (cases A, auto simp: wrote_def)+

lemma wrote_sel [simp]:
  "vw (wrote W A) = apply_writes W (vw A)" "dk (wrote W A) = apply_writes W (dk A)" "hs (wrote W A) = hs A @ W"
  "hld (wrote W A) = hld A" "lkd (wrote W A) = lkd A" "dty (wrote W A) = dty A - fst ` set W"
  by (simp_all add: wrote_def)

lemma apply_writes_other: "b \<notin> fst ` set W \<Longrightarrow> apply_writes W M b = M b"
  by (induction W arbitrary: M) auto

lemma apply_writes_nth:
  assumes "distinct (map fst W)" "k < length W"
  shows "apply_writes W M (fst (W ! k)) = snd (W ! k)"
  using assms
proof (induction W arbitrary: M k)
  case (Cons p W)
  obtain b d where p: "p = (b, d)"
    by (cases p)
  show ?case
  proof (cases k)
    case 0
    then show ?thesis using Cons.prems p by (auto simp: apply_writes_other)
  next
    case (Suc j)
    then show ?thesis using Cons p by auto
  qed
qed simp

text \<open>Writing what is already there changes nothing.\<close>

lemma apply_writes_idem: "\<forall>(b, d)\<in>set W. M b = d \<Longrightarrow> apply_writes W M = M"
proof (induction W arbitrary: M)
  case (Cons p W)
  then have "M(fst p := snd p) = M"
    by (auto simp: fun_upd_idem_iff)
  then show ?case using Cons by (cases p) auto
qed simp

lemma copied_wrote: "copied x y A = wrote [(y, vw A x)] A"
  by (simp add: copied_def wrote_def)

text \<open>A loop of copies whose sources are never destinations.\<close>

lemma copies_loop:
  fixes x y :: "nat \<Rightarrow> uint" and s :: "'a bcache_scheme"
  assumes s: "cache_inv s" and d: "\<And>j k. j < n \<Longrightarrow> k < n \<Longrightarrow> x k \<noteq> y j"
    and f: "\<And>k t. \<lbrakk>k < n; cache_inv t; rest t = rest s;
        abs_store t = wrote (map (\<lambda>k. (y k, view s (x k))) [0..<k]) (abs_store s)\<rbrakk> \<Longrightarrow>
      \<exists>u. f k t = Inr u \<and> cache_inv u \<and> rest u = rest s \<and> abs_store u = copied (x k) (y k) (abs_store t)"
  shows "\<exists>t. foldE f [0..<n] s = Inr t \<and> cache_inv t \<and> rest t = rest s \<and>
    abs_store t = wrote (map (\<lambda>k. (y k, view s (x k))) [0..<n]) (abs_store s)"
proof (rule foldE_upt [where P = "\<lambda>k t. cache_inv t \<and> rest t = rest s \<and>
    abs_store t = wrote (map (\<lambda>k. (y k, view s (x k))) [0..<k]) (abs_store s)"])
  fix k t
  let ?W = "map (\<lambda>k. (y k, view s (x k))) [0..<k]"
  assume k: "k < n" and "cache_inv t \<and> rest t = rest s \<and> abs_store t = wrote ?W (abs_store s)"
  then have t: "cache_inv t" "rest t = rest s" "abs_store t = wrote ?W (abs_store s)"
    by auto
  obtain u where u: "f k t = Inr u" "cache_inv u" "rest u = rest s" "abs_store u = copied (x k) (y k) (abs_store t)"
    using f [OF k t] by blast
  have "x k \<notin> fst ` set ?W"
  proof
    assume "x k \<in> fst ` set ?W"
    then obtain j where "j < k" "x k = y j"
      by auto
    then show False
      using d [of j k] k by simp
  qed
  then have "vw (abs_store t) (x k) = view s (x k)"
    using t(3) by (simp add: apply_writes_other del: abs_store_sel) simp
  then have "abs_store u = wrote (map (\<lambda>k. (y k, view s (x k))) [0..<Suc k]) (abs_store s)"
    unfolding u(4) copied_wrote by (simp add: t(3))
  then show "\<exists>u. f k t = Inr u \<and> cache_inv u \<and> rest u = rest s \<and>
      abs_store u = wrote (map (\<lambda>k. (y k, view s (x k))) [0..<Suc k]) (abs_store s)"
    using u by blast
qed (use s in simp)

section \<open>The log area and the steps of a commit\<close>

lemma rest_fields:
  fixes s t :: "'a logst_scheme"
  assumes "rest t = rest s"
  shows "log_start t = log_start s" "log_size t = log_size s" "log_dev t = log_dev s" "lh_n t = lh_n s"
    "lh_block t = lh_block s" "disksize t = disksize s" "log_outstanding t = log_outstanding s"
    "log_committing t = log_committing s" "curpid t = curpid s"
  using arg_cong [OF assms, of log_start] arg_cong [OF assms, of log_size] arg_cong [OF assms, of log_dev]
    arg_cong [OF assms, of lh_n] arg_cong [OF assms, of lh_block] arg_cong [OF assms, of disksize]
    arg_cong [OF assms, of log_outstanding] arg_cong [OF assms, of log_committing] arg_cong [OF assms, of curpid]
  by (simp_all add: rest_def)

definition in_log :: "'a logst_scheme \<Rightarrow> uint \<Rightarrow> bool" where
  "in_log s b \<longleftrightarrow> log_start s \<le> b \<and> unat b < unat (log_start s) + nat (log_size s)"

definition log_geom :: "'a logst_scheme \<Rightarrow> bool" where
  "log_geom s \<longleftrightarrow> log_dev s = 1 \<and> 0 < log_size s \<and> unat (log_start s) + nat (log_size s) \<le> unat (disksize s)"

definition log_blk :: "'a logst_scheme \<Rightarrow> nat \<Rightarrow> uint" where
  "log_blk s k = log_start s + of_nat k + 1"

lemma log_blk:
  assumes "log_geom s" "int k + 1 < log_size s"
  shows "unat (log_blk s k) = unat (log_start s) + k + 1" "log_blk s k < disksize s" "in_log s (log_blk s k)"
    "log_blk s k \<noteq> log_start s"
proof -
  have k: "unat (log_start s) + (k + 1) < 4294967296"
    using assms unat_uint_less [of "disksize s"] unfolding log_geom_def by linarith
  have "log_blk s k = log_start s + of_nat (k + 1)"
    by (simp add: log_blk_def)
  then show u: "unat (log_blk s k) = unat (log_start s) + k + 1"
    using k unat_of_nat_uint [of "k + 1"] unat_add_uint [of "log_start s" "of_nat (k + 1)"] by simp
  then show "log_blk s k < disksize s" "in_log s (log_blk s k)" "log_blk s k \<noteq> log_start s"
    using assms by (auto simp: log_geom_def in_log_def word_less_nat_alt word_le_nat_alt word_unat_eq_iff)
qed

lemma log_start_in_log: "log_geom s \<Longrightarrow> in_log s (log_start s) \<and> log_start s < disksize s"
  by (auto simp: in_log_def log_geom_def word_less_nat_alt)

text \<open>One round of \<^verbatim>\<open>install_trans\<close> and of \<^verbatim>\<open>write_log\<close>, and \<^verbatim>\<open>write_head\<close>.\<close>

lemma install_one_ok:
  assumes "cache_inv s" "log_dev s = 1" "log_blk s k < disksize s" "lh_block s ! k < disksize s" "log_blk s k \<noteq> lh_block s ! k"
    and "locked_blocks s = {}" "card (dirty_blocks s) < NBUF"
    and "lh_block s ! k \<in> dirty_blocks s \<or> card (insert (log_blk s k) (dirty_blocks s)) < NBUF"
  shows "\<exists>u. install_one k s = Inr u \<and> cache_inv u \<and> rest u = rest s \<and>
    abs_store u = copied (log_blk s k) (lh_block s ! k) (abs_store s)"
proof -
  have "\<exists>i s1 j s2 u v w. bread 1 (log_blk s k) s = Inr (i, s1) \<and> bread 1 (lh_block s ! k) s1 = Inr (j, s2) \<and>
    rest s1 = rest s \<and> rest s2 = rest s \<and>
    bwrite j (set_bdata j (bdata i s2) s2) = Inr u \<and> brelse i u = Inr v \<and> brelse j v = Inr w \<and>
    cache_inv w \<and> rest w = rest s \<and> abs_store w = copied (log_blk s k) (lh_block s ! k) (abs_store s)"
    using assms by (intro bc.copy_block) (auto simp: rest_def avail_def)
  then obtain i s1 j s2 u v w where r: "bread 1 (log_blk s k) s = Inr (i, s1)" "bread 1 (lh_block s ! k) s1 = Inr (j, s2)"
    "rest s1 = rest s" "rest s2 = rest s" "bwrite j (set_bdata j (bdata i s2) s2) = Inr u" "brelse i u = Inr v" "brelse j v = Inr w"
    "cache_inv w" "rest w = rest s" "abs_store w = copied (log_blk s k) (lh_block s ! k) (abs_store s)"
    by blast
  have "install_one k s = Inr w"
    using r(1,2,5-7) assms(2) rest_fields(3,5) [OF r(3)] by (simp add: install_one_def log_blk_def)
  then show ?thesis using r by blast
qed

lemma log_one_ok:
  assumes "cache_inv s" "log_dev s = 1" "log_blk s k < disksize s" "lh_block s ! k < disksize s" "log_blk s k \<noteq> lh_block s ! k"
    and "locked_blocks s = {}" "card (dirty_blocks s) < NBUF" "lh_block s ! k \<in> dirty_blocks s"
  shows "\<exists>u. log_one k s = Inr u \<and> cache_inv u \<and> rest u = rest s \<and>
    abs_store u = copied (lh_block s ! k) (log_blk s k) (abs_store s)"
proof -
  have "\<exists>i s1 j s2 u v w. bread 1 (log_blk s k) s = Inr (j, s1) \<and> bread 1 (lh_block s ! k) s1 = Inr (i, s2) \<and>
    rest s1 = rest s \<and> rest s2 = rest s \<and>
    bwrite j (set_bdata j (bdata i s2) s2) = Inr u \<and> brelse i u = Inr v \<and> brelse j v = Inr w \<and>
    cache_inv w \<and> rest w = rest s \<and> abs_store w = copied (lh_block s ! k) (log_blk s k) (abs_store s)"
    using assms by (intro bc.copy_block_back) (auto simp: rest_def avail_def)
  then obtain i s1 j s2 u v w where r: "bread 1 (log_blk s k) s = Inr (j, s1)" "bread 1 (lh_block s ! k) s1 = Inr (i, s2)"
    "rest s1 = rest s" "rest s2 = rest s" "bwrite j (set_bdata j (bdata i s2) s2) = Inr u" "brelse i u = Inr v" "brelse j v = Inr w"
    "cache_inv w" "rest w = rest s" "abs_store w = copied (lh_block s ! k) (log_blk s k) (abs_store s)"
    by blast
  have "log_one k s = Inr w"
    using r(1,2,5-7) assms(2) rest_fields(3,5) [OF r(3)] by (simp add: log_one_def log_blk_def)
  then show ?thesis using r by blast
qed

lemma length_head_bytes [simp]: "length (head_bytes n bl d) = length d"
proof -
  have "length (fold (\<lambda>i d. put32 (4 + 4 * i) (bl ! i) d) ks d) = length d" for ks d
    by (induction ks arbitrary: d) auto
  then show ?thesis
    by (simp add: head_bytes_def)
qed

lemma write_head_ok:
  assumes "cache_inv s" "log_dev s = 1" "log_start s < disksize s" "locked_blocks s = {}" "card (dirty_blocks s) < NBUF"
  defines "h \<equiv> head_bytes (lh_n s) (lh_block s) (view s (log_start s))"
  shows "\<exists>u. write_head s = Inr u \<and> cache_inv u \<and> rest u = rest s \<and> abs_store u = wrote [(log_start s, h)] (abs_store s)"
proof -
  have "\<exists>i t u v. bread 1 (log_start s) s = Inr (i, t) \<and>
    bwrite i (set_bdata i (head_bytes (lh_n s) (lh_block s) (bdata i t)) t) = Inr u \<and> brelse i u = Inr v \<and>
    cache_inv v \<and> rest v = rest s \<and> rest t = rest s \<and> bdata i t = vw (abs_store s) (log_start s) \<and>
    abs_store v = (abs_store s)\<lparr>
      vw := (vw (abs_store s))(log_start s := head_bytes (lh_n s) (lh_block s) (vw (abs_store s) (log_start s))),
      dk := (dk (abs_store s))(log_start s := head_bytes (lh_n s) (lh_block s) (vw (abs_store s) (log_start s))),
      hs := hs (abs_store s) @ [(log_start s, head_bytes (lh_n s) (lh_block s) (vw (abs_store s) (log_start s)))],
      dty := dty (abs_store s) - {log_start s}\<rparr>"
    using assms by (intro bc.write_block) (auto simp: rest_def avail_def)
  then obtain i t u v where r: "bread 1 (log_start s) s = Inr (i, t)"
    "bwrite i (set_bdata i (head_bytes (lh_n s) (lh_block s) (bdata i t)) t) = Inr u" "brelse i u = Inr v"
    "cache_inv v" "rest v = rest s" "rest t = rest s"
    "abs_store v = wrote [(log_start s, h)] (abs_store s)"
    by (auto simp: wrote_def h_def)
  then show ?thesis
    using assms(2) rest_fields [OF r(6)] by (simp add: write_head_def)
qed

text \<open>Reading a header that \<^verbatim>\<open>write_head\<close> has written.\<close>

lemma head_bytes_get:
  assumes "length d = BSIZE" "n \<le> LOGSIZE"
  shows "get32 0 (head_bytes n bl d) = of_int n" "k < nat n \<Longrightarrow> get32 (4 + 4 * k) (head_bytes n bl d) = bl ! k"
proof -
  have g: "get32 0 (fold (\<lambda>i d. put32 (4 + 4 * i) (bl ! i) d) ks e) = get32 0 e" for ks e
    by (induction ks arbitrary: e) (auto simp: get_put_other)
  show "get32 0 (head_bytes n bl d) = of_int n"
    using assms by (simp add: head_bytes_def g get32_put32_same BSIZE_def)
  have l: "length (fold (\<lambda>i d. put32 (4 + 4 * i) (bl ! i) d) ks e) = length e" for ks e
    by (induction ks arbitrary: e) auto
  have "k < m \<Longrightarrow> m \<le> 30 \<Longrightarrow> length e = 512 \<Longrightarrow>
      get32 (4 + 4 * k) (fold (\<lambda>i d. put32 (4 + 4 * i) (bl ! i) d) [0..<m] e) = bl ! k" for m e
  proof (induction m)
    case (Suc m)
    then show ?case
      by (cases "k = m") (auto simp: get32_put32_same get_put_other l)
  qed simp
  then show "k < nat n \<Longrightarrow> get32 (4 + 4 * k) (head_bytes n bl d) = bl ! k"
    using assms by (simp add: head_bytes_def BSIZE_def LOGSIZE_def MAXOPBLOCKS_def)
qed

lemma sint_small: "0 \<le> n \<Longrightarrow> n \<le> LOGSIZE \<Longrightarrow> sint (of_int n :: uint) = n"
  by (simp add: signed_of_int signed_take_bit_int_eq_self LOGSIZE_def MAXOPBLOCKS_def)

text \<open>The blocks of the current transaction, and a log that can be committed.\<close>

definition logged :: "'a logst_scheme \<Rightarrow> uint list" where
  "logged s = take (nat (lh_n s)) (lh_block s)"

definition log_ok :: "'a logst_scheme \<Rightarrow> bool" where
  "log_ok s \<longleftrightarrow> cache_inv s \<and> log_geom s \<and> length (lh_block s) = nat LOGSIZE \<and> 0 \<le> lh_n s \<and>
     lh_n s < log_size s \<and> lh_n s < int NBUF \<and> distinct (logged s) \<and>
     (\<forall>b\<in>set (logged s). b < disksize s \<and> \<not> in_log s b) \<and> dirty_blocks s = set (logged s)"

lemma logged_nth: "log_ok s \<Longrightarrow> k < nat (lh_n s) \<Longrightarrow> lh_block s ! k = logged s ! k \<and> k < length (logged s)"
  by (auto simp: logged_def log_ok_def NBUF_def LOGSIZE_def MAXOPBLOCKS_def)

lemma length_logged: "log_ok s \<Longrightarrow> length (logged s) = nat (lh_n s)"
  by (auto simp: logged_def log_ok_def NBUF_def LOGSIZE_def MAXOPBLOCKS_def)

lemma log_okD:
  assumes "log_ok s" "k < nat (lh_n s)"
  shows "lh_block s ! k \<in> dirty_blocks s" "lh_block s ! k < disksize s" "\<not> in_log s (lh_block s ! k)"
    "log_blk s k < disksize s" "in_log s (log_blk s k)" "log_blk s k \<noteq> log_start s"
    "j < nat (lh_n s) \<Longrightarrow> lh_block s ! k \<noteq> log_blk s j"
    "j < nat (lh_n s) \<Longrightarrow> lh_block s ! k = lh_block s ! j \<Longrightarrow> k = j"
    "j < nat (lh_n s) \<Longrightarrow> log_blk s k = log_blk s j \<Longrightarrow> k = j"
proof -
  note N = logged_nth [OF assms] and g = assms(1) [unfolded log_ok_def]
  have m: "lh_block s ! k \<in> set (logged s)"
    using N by simp
  then show "lh_block s ! k \<in> dirty_blocks s" "lh_block s ! k < disksize s" "\<not> in_log s (lh_block s ! k)"
    using g by auto
  have b: "int j + 1 < log_size s" if "j < nat (lh_n s)" for j
    using g that by linarith
  show l: "log_blk s k < disksize s" "in_log s (log_blk s k)" "log_blk s k \<noteq> log_start s"
    using log_blk [of s k] g b assms(2) by auto
  show "lh_block s ! k \<noteq> log_blk s j" if "j < nat (lh_n s)"
    using log_blk(3) [of s j] g b [OF that] m by auto
  show "k = j" if "j < nat (lh_n s)" "lh_block s ! k = lh_block s ! j"
    using N logged_nth [OF assms(1) that(1)] that(2) g by (metis nth_eq_iff_index_eq)
  show "k = j" if "j < nat (lh_n s)" "log_blk s k = log_blk s j"
    using log_blk(1) [of s j] log_blk(1) [of s k] g b assms(2) that by auto
qed

lemma card_dirty: "log_ok s \<Longrightarrow> card (dirty_blocks s) < NBUF"
  using length_logged [of s] distinct_card [of "logged s"] by (auto simp: log_ok_def)

lemma write_log_ok:
  assumes s: "log_ok s" and l: "locked_blocks s = {}"
  shows "\<exists>t. write_log s = Inr t \<and> cache_inv t \<and> rest t = rest s \<and>
    abs_store t = wrote (map (\<lambda>k. (log_blk s k, view s (lh_block s ! k))) [0..<nat (lh_n s)]) (abs_store s)"
  unfolding write_log_def
proof (rule copies_loop)
  fix k and t :: "'a logst_scheme"
  assume k: "k < nat (lh_n s)" and t: "cache_inv t" "rest t = rest s"
    "abs_store t = wrote (map (\<lambda>k. (log_blk s k, view s (lh_block s ! k))) [0..<k]) (abs_store s)"
  note D = log_okD [OF s k] and F = rest_fields [OF t(2)]
  have "dirty_blocks t = dirty_blocks s - log_blk s ` {0..<k}" "locked_blocks t = {}"
    using arg_cong [OF t(3), of dty] arg_cong [OF t(3), of lkd] l by (auto simp: image_image)
  moreover have "log_blk s j \<notin> dirty_blocks s" if "j < k" for j
    using log_okD(5) [OF s, of j] k that s by (auto simp: log_ok_def)
  ultimately have d: "dirty_blocks t = dirty_blocks s" "locked_blocks t = {}"
    by auto
  have e: "log_blk t k = log_blk s k" "lh_block t = lh_block s" "disksize t = disksize s"
    by (simp_all add: log_blk_def F)
  have g: "log_dev t = 1"
    using s F by (simp add: log_ok_def log_geom_def)
  show "\<exists>u. log_one k t = Inr u \<and> cache_inv u \<and> rest u = rest s \<and>
      abs_store u = copied (lh_block s ! k) (log_blk s k) (abs_store t)"
    using log_one_ok [OF t(1) g, of k] D(1,2,4) D(7) [OF k] d card_dirty [OF s] t(2) by (auto simp: e)
qed (use s log_okD(7) [OF s] in \<open>auto simp: log_ok_def\<close>)

text \<open>When \<^verbatim>\<open>install_trans\<close> runs through: in a commit (the blocks are pinned) and in recovery (the cache is clean).\<close>

definition installable :: "'a logst_scheme \<Rightarrow> bool" where
  "installable s \<longleftrightarrow> cache_inv s \<and> log_geom s \<and> lh_n s < log_size s \<and> locked_blocks s = {} \<and>
     (\<forall>k<nat (lh_n s). lh_block s ! k < disksize s \<and> \<not> in_log s (lh_block s ! k)) \<and>
     (dirty_blocks s = {} \<or> card (dirty_blocks s) < NBUF \<and> inj_on (nth (lh_block s)) {..<nat (lh_n s)} \<and>
        (\<forall>k<nat (lh_n s). lh_block s ! k \<in> dirty_blocks s))"

lemma install_trans_ok:
  assumes s: "installable s"
  shows "\<exists>t. install_trans s = Inr t \<and> cache_inv t \<and> rest t = rest s \<and>
    abs_store t = wrote (map (\<lambda>k. (lh_block s ! k, view s (log_blk s k))) [0..<nat (lh_n s)]) (abs_store s)"
  unfolding install_trans_def
proof (rule copies_loop)
  note S = s [unfolded installable_def]
  have b: "int k + 1 < log_size s" if "k < nat (lh_n s)" for k
    using S that by linarith
  have g: "log_geom s"
    using S by blast
  show "log_blk s k \<noteq> lh_block s ! j" if "j < nat (lh_n s)" "k < nat (lh_n s)" for j k
    using log_blk(3) [OF g b [OF that(2)]] S that(1) by auto
  fix k and t :: "'a logst_scheme"
  assume k: "k < nat (lh_n s)" and t: "cache_inv t" "rest t = rest s"
    "abs_store t = wrote (map (\<lambda>k. (lh_block s ! k, view s (log_blk s k))) [0..<k]) (abs_store s)"
  note L = log_blk [OF g b [OF k]] and F = rest_fields [OF t(2)]
  have d: "dirty_blocks t = dirty_blocks s - nth (lh_block s) ` {..<k}" "locked_blocks t = {}"
    using arg_cong [OF t(3), of dty] arg_cong [OF t(3), of lkd] S by (auto simp: image_image lessThan_atLeast0)
  have e: "log_blk t k = log_blk s k" "lh_block t = lh_block s" "disksize t = disksize s" "log_dev t = 1"
    using g by (simp_all add: log_blk_def F log_geom_def)
  have c: "card (dirty_blocks t) < NBUF"
    using S d(1) card_mono [of "dirty_blocks s" "dirty_blocks t"] by (auto simp: NBUF_def)
  have a: "lh_block s ! k \<in> dirty_blocks t \<or> card (insert (log_blk s k) (dirty_blocks t)) < NBUF"
  proof (cases "dirty_blocks s = {}")
    case True
    then show ?thesis using d(1) by (simp add: NBUF_def)
  next
    case False
    then have "inj_on (nth (lh_block s)) {..<nat (lh_n s)}" "lh_block s ! k \<in> dirty_blocks s"
      using S k by auto
    then have "lh_block s ! k \<notin> nth (lh_block s) ` {..<k}"
      using k by (auto dest: inj_onD)
    then show ?thesis using d(1) \<open>lh_block s ! k \<in> dirty_blocks s\<close> by simp
  qed
  have n: "log_blk s k \<noteq> lh_block s ! k" "lh_block s ! k < disksize s"
    using L(3) S k by auto
  show "\<exists>u. install_one k t = Inr u \<and> cache_inv u \<and> rest u = rest s \<and>
      abs_store u = copied (log_blk s k) (lh_block s ! k) (abs_store t)"
    using install_one_ok [OF t(1) e(4), of k] L(2) n d(2) c a t(2) by (auto simp: e)
qed (use s in \<open>simp add: installable_def\<close>)

text \<open>Fields of the log are not part of the cache.\<close>

lemma lh_n_update_store [simp]:
  fixes s :: "'a logst_scheme"
  shows "cache_inv (s\<lparr>lh_n := v\<rparr>) = cache_inv s" "abs_store (s\<lparr>lh_n := v\<rparr>) = abs_store s"
  by (rule same_cache; simp)+

lemma rest_lh_n:
  fixes s :: "'a logst_scheme"
  shows "rest (s\<lparr>lh_n := v\<rparr>) = (rest s)\<lparr>lh_n := v\<rparr>"
  by (cases s) (simp add: rest_def)

definition commit_writes :: "'a logst_scheme \<Rightarrow> (uint \<times> block) list" where
  "commit_writes s =
     (let n = nat (lh_n s); h = head_bytes (lh_n s) (lh_block s) (view s (log_start s)) in
      map (\<lambda>k. (log_blk s k, view s (lh_block s ! k))) [0..<n] @ [(log_start s, h)] @
      map (\<lambda>k. (lh_block s ! k, view s (lh_block s ! k))) [0..<n] @ [(log_start s, put32 0 0 h)])"

lemma head_bytes_0: "head_bytes 0 bl d = put32 0 0 d"
  by (simp add: head_bytes_def)

lemma apply_writes_map_at:
  assumes "\<And>i j. i < n \<Longrightarrow> j < n \<Longrightarrow> y i = y j \<Longrightarrow> i = j" "k < n"
  shows "apply_writes (map (\<lambda>k. (y k, v k)) [0..<n]) M (y k) = v k"
proof -
  have "distinct (map fst (map (\<lambda>k. (y k, v k)) [0..<n]))"
    using assms(1) by (auto simp: distinct_map o_def inj_on_def)
  then show ?thesis
    using apply_writes_nth [of "map (\<lambda>k. (y k, v k)) [0..<n]" k M] assms(2) by simp
qed

lemma apply_writes_map_other:
  "(\<And>k. k < n \<Longrightarrow> y k \<noteq> b) \<Longrightarrow> apply_writes (map (\<lambda>k. (y k, v k)) [0..<n]) M b = M b"
  by (rule apply_writes_other) fastforce

text \<open>\<^verbatim>\<open>commit\<close> succeeds and makes exactly these writes, in this order.\<close>

lemma commit_ok:
  assumes s: "log_ok s" and l: "locked_blocks s = {}" and n: "lh_n s > 0"
  shows "\<exists>t. commit s = Inr t \<and> cache_inv t \<and> rest t = rest (s\<lparr>lh_n := 0\<rparr>) \<and>
    abs_store t = wrote (commit_writes s) (abs_store s)"
proof -
  let ?n = "nat (lh_n s)"
  let ?W1 = "map (\<lambda>k. (log_blk s k, view s (lh_block s ! k))) [0..<?n]"
  let ?h = "head_bytes (lh_n s) (lh_block s) (view s (log_start s))"
  note D = log_okD [OF s] and S = s [unfolded log_ok_def]
  have st: "in_log s (log_start s)" "log_start s < disksize s" "log_dev s = 1"
    using S log_start_in_log [of s] by (auto simp: log_geom_def)
  obtain s1 where s1: "write_log s = Inr s1" "cache_inv s1" "rest s1 = rest s" "abs_store s1 = wrote ?W1 (abs_store s)"
    using write_log_ok [OF s l] by blast
  note F1 = rest_fields [OF s1(3)] and A1 = store_sel [OF s1(4)]
  have v1: "view s1 (log_start s) = view s (log_start s)" and d1: "dirty_blocks s1 = dirty_blocks s" "locked_blocks s1 = {}"
    using D(5,6) S l by (auto simp: A1 apply_writes_map_other)
  obtain s2 where s2: "write_head s1 = Inr s2" "cache_inv s2" "rest s2 = rest s" "abs_store s2 = wrote (?W1 @ [(log_start s, ?h)]) (abs_store s)"
    using write_head_ok [OF s1(2)] F1 st d1 card_dirty [OF s] s1(3,4) v1 by auto
  note F2 = rest_fields [OF s2(3)] and A2 = store_sel [OF s2(4)]
  have lb: "log_blk s2 = log_blk s" "in_log s2 = in_log s"
    by (simp_all add: log_blk_def in_log_def fun_eq_iff F2)
  have d2: "dirty_blocks s2 = dirty_blocks s" "locked_blocks s2 = {}"
    using D(5) S l st by (auto simp: A2)
  have v2: "view s2 (log_blk s k) = view s (lh_block s ! k)" if "k < ?n" for k
    using apply_writes_map_at [of ?n "log_blk s" k "\<lambda>k. view s (lh_block s ! k)"] D(6,9) that by (auto simp: A2)
  have "installable s2"
    using s2(2) S d2 D(1-3,8) card_dirty [OF s]
    by (auto simp: installable_def F2 lb log_geom_def inj_on_def)
  then obtain s3 where s3: "install_trans s2 = Inr s3" "cache_inv s3" "rest s3 = rest s2"
    "abs_store s3 = wrote (map (\<lambda>k. (lh_block s2 ! k, view s2 (log_blk s2 k))) [0..<nat (lh_n s2)]) (abs_store s2)"
    using install_trans_ok by blast
  have "abs_store s3 = wrote (map (\<lambda>k. (lh_block s ! k, view s (lh_block s ! k))) [0..<?n]) (abs_store s2)"
    unfolding s3(4) F2 lb using v2 by (intro arg_cong2 [where f = wrote]) auto
  then have a3: "abs_store s3 = wrote (?W1 @ [(log_start s, ?h)] @ map (\<lambda>k. (lh_block s ! k, view s (lh_block s ! k))) [0..<?n]) (abs_store s)"
    unfolding s2(4) by simp
  note F3 = rest_fields [OF s3(3)] and A3 = store_sel [OF a3]
  have "card (dirty_blocks s3) \<le> card (dirty_blocks s)"
    unfolding A3 by (rule card_mono) auto
  moreover have "log_start s \<notin> fst ` set (map (\<lambda>k. (lh_block s ! k, view s (lh_block s ! k))) [0..<?n])"
    using D(3) st(1) by auto
  then have "view s3 (log_start s) = ?h"
    by (simp add: A3 apply_writes_other)
  moreover have "locked_blocks s3 = {}"
    using l by (simp add: A3)
  moreover have "view (s3\<lparr>lh_n := 0\<rparr>) = view s3" "locked_blocks (s3\<lparr>lh_n := 0\<rparr>) = locked_blocks s3" "dirty_blocks (s3\<lparr>lh_n := 0\<rparr>) = dirty_blocks s3"
    using store_sel [OF lh_n_update_store(2) [where s = s3 and v = 0]] by simp_all
  ultimately obtain t where t: "write_head (s3\<lparr>lh_n := 0\<rparr>) = Inr t" "cache_inv t" "rest t = rest (s3\<lparr>lh_n := 0\<rparr>)"
    "abs_store t = wrote [(log_start s, put32 0 0 ?h)] (abs_store s3)"
    using write_head_ok [of "s3\<lparr>lh_n := 0\<rparr>"] s3(2) F3 F2 st card_dirty [OF s] by (auto simp: head_bytes_0)
  have "rest (s3\<lparr>lh_n := 0\<rparr>) = rest (s\<lparr>lh_n := 0\<rparr>)"
    using s3(3) s2(3) by (simp add: rest_lh_n)
  then show ?thesis
    using n s1(1) s2(1) s3(1) t a3 by (simp add: commit_def commit_writes_def Let_def)
qed

section \<open>Crashes and recovery\<close>

text \<open>
  What the log on a disk says the home blocks should be: the blocks named by the header at
  \<^verbatim>\<open>start\<close> replaced by the log blocks behind it.  A disk left by a crash stands for this state.
\<close>

definition replay_writes :: "uint \<Rightarrow> (uint \<Rightarrow> block) \<Rightarrow> (uint \<times> block) list" where
  "replay_writes start D =
     map (\<lambda>k. (get32 (4 + 4 * k) (D start), D (start + of_nat k + 1))) [0..<nat (sint (get32 0 (D start)))]"

definition recovered :: "uint \<Rightarrow> (uint \<Rightarrow> block) \<Rightarrow> uint \<Rightarrow> block" where
  "recovered start D = apply_writes (replay_writes start D) D"

lemma recovered_empty: "get32 0 (D start) = 0 \<Longrightarrow> recovered start D = D"
  by (simp add: recovered_def replay_writes_def)

lemma take_append_cases:
  obtains (l) "j \<le> length xs" "take j (xs @ ys) = take j xs"
  | (r) i where "j = length xs + i" "0 < i" "take j (xs @ ys) = xs @ take i ys"
proof (cases "j \<le> length xs")
  case True
  then show ?thesis by (intro l) auto
next
  case False
  then show ?thesis by (intro r [of "j - length xs"]) auto
qed

text \<open>A committed header with the log blocks in place stands for the new contents, whatever part of it has been installed.\<close>

lemma recovered_committed:
  assumes s: "log_ok s" and h: "D (log_start s) = head_bytes (lh_n s) (lh_block s) d" "length d = BSIZE"
    and b: "\<And>k. k < nat (lh_n s) \<Longrightarrow> D (log_blk s k) = view s (lh_block s ! k)"
    and o: "\<And>b. b \<notin> dirty_blocks s \<Longrightarrow> \<not> in_log s b \<Longrightarrow> D b = view s b" and a: "\<not> in_log s a"
  shows "recovered (log_start s) D a = view s a"
proof -
  have n: "lh_n s \<le> LOGSIZE" "0 \<le> lh_n s"
    using s by (auto simp: log_ok_def NBUF_def LOGSIZE_def MAXOPBLOCKS_def)
  have c: "sint (get32 0 (D (log_start s))) = lh_n s"
    unfolding h(1) head_bytes_get(1) [OF h(2) n(1)] using n by (intro sint_small)
  have w: "replay_writes (log_start s) D = map (\<lambda>k. (lh_block s ! k, view s (lh_block s ! k))) [0..<nat (lh_n s)]"
    unfolding replay_writes_def c using b by (auto simp: h(1) head_bytes_get(2) [OF h(2) n(1)] log_blk_def)
  show ?thesis
  proof (cases "a \<in> dirty_blocks s")
    case True
    then obtain k where "k < nat (lh_n s)" "a = lh_block s ! k"
      using s logged_nth [OF s] length_logged [OF s] by (auto simp: log_ok_def in_set_conv_nth)
    then show ?thesis
      unfolding recovered_def w using log_okD(8) [OF s]
        apply_writes_map_at [of "nat (lh_n s)" "nth (lh_block s)" k "\<lambda>k. view s (lh_block s ! k)" D] by simp
  next
    case False
    then have "a \<noteq> lh_block s ! k" if "k < nat (lh_n s)" for k
      using log_okD(1) [OF s that] by auto
    then show ?thesis
      unfolding recovered_def w using o [OF False a] by (subst apply_writes_map_other) auto
  qed
qed

lemma view_settled:
  assumes "cache_inv s" "b \<notin> locked_blocks s" "b \<notin> dirty_blocks s"
  shows "view s b = disk s b"
  using free_is_settled [OF assms(1,2)] assms(3) by (simp add: settled_def)

text \<open>The four groups of writes of a commit.\<close>

definition log_writes :: "'a logst_scheme \<Rightarrow> (uint \<times> block) list" where
  "log_writes s = map (\<lambda>k. (log_blk s k, view s (lh_block s ! k))) [0..<nat (lh_n s)]"

definition home_writes :: "'a logst_scheme \<Rightarrow> (uint \<times> block) list" where
  "home_writes s = map (\<lambda>k. (lh_block s ! k, view s (lh_block s ! k))) [0..<nat (lh_n s)]"

definition head_of :: "'a logst_scheme \<Rightarrow> block" where
  "head_of s = head_bytes (lh_n s) (lh_block s) (view s (log_start s))"

lemma commit_writes_split:
  "commit_writes s = log_writes s @ (log_start s, head_of s) # home_writes s @ [(log_start s, put32 0 0 (head_of s))]"
  by (simp add: commit_writes_def Let_def log_writes_def home_writes_def head_of_def)

lemma commit_targets:
  assumes s: "log_ok s"
  shows "a \<in> fst ` set (log_writes s) \<Longrightarrow> in_log s a \<and> a \<noteq> log_start s" "fst ` set (home_writes s) = dirty_blocks s"
    "a \<in> dirty_blocks s \<Longrightarrow> \<not> in_log s a" "in_log s (log_start s)" "length (view s (log_start s)) = BSIZE"
    "length (log_writes s) = nat (lh_n s)" "length (home_writes s) = nat (lh_n s)"
proof -
  note S = s [unfolded log_ok_def]
  show "a \<in> fst ` set (log_writes s) \<Longrightarrow> in_log s a \<and> a \<noteq> log_start s"
    using log_okD(5,6) [OF s] by (auto simp: log_writes_def)
  have "nth (lh_block s) ` {0..<nat (lh_n s)} = set (logged s)"
    using logged_nth [OF s] length_logged [OF s] by (force simp: set_conv_nth)
  then show "fst ` set (home_writes s) = dirty_blocks s"
    using S by (simp add: home_writes_def image_image)
  show "a \<in> dirty_blocks s \<Longrightarrow> \<not> in_log s a"
    using S by auto
  show "in_log s (log_start s)"
    using S log_start_in_log by blast
  show "length (view s (log_start s)) = BSIZE"
    using view_length S by blast
qed (simp_all add: log_writes_def home_writes_def)

lemma commit_whole:
  assumes s: "log_ok s" and l: "locked_blocks s = {}" and b: "\<not> in_log s b"
  shows "apply_writes (commit_writes s) (disk s) b = view s b"
proof (cases "b \<in> dirty_blocks s")
  case True
  then have "b \<in> fst ` set (home_writes s)"
    using commit_targets(2) [OF s] by simp
  then obtain k where k: "k < nat (lh_n s)" "b = lh_block s ! k"
    by (auto simp: home_writes_def)
  have "b \<noteq> log_start s"
    using commit_targets(4) [OF s] b by auto
  then show ?thesis
    using apply_writes_map_at [of "nat (lh_n s)" "nth (lh_block s)" k "\<lambda>k. view s (lh_block s ! k)"] log_okD(8) [OF s] k
    by (simp add: commit_writes_split home_writes_def)
next
  case False
  then have "b \<notin> fst ` set (commit_writes s)"
    using commit_targets [OF s] b by (auto simp: commit_writes_split)
  then show ?thesis
    using view_settled [of s b] s l False by (simp add: apply_writes_other log_ok_def)
qed

lemma commit_whole_head: "log_ok s \<Longrightarrow> get32 0 (apply_writes (commit_writes s) (disk s) (log_start s)) = 0"
  using commit_targets(5) [of s] by (simp add: commit_writes_split head_of_def get32_put32_same BSIZE_def)

lemma commit_installing:
  assumes s: "log_ok s" and l: "locked_blocks s = {}" and b: "\<not> in_log s b"
  shows "recovered (log_start s) (apply_writes (log_writes s @ (log_start s, head_of s) # take i (home_writes s)) (disk s)) b = view s b"
proof -
  let ?V = "take i (home_writes s)"
  let ?D = "apply_writes (log_writes s @ (log_start s, head_of s) # ?V) (disk s)"
  note T = commit_targets [OF s]
  have v: "a \<in> fst ` set ?V \<Longrightarrow> a \<in> dirty_blocks s" for a
    using set_take_subset [of i "home_writes s"] T(2) by blast
  have 1: "?D (log_start s) = head_bytes (lh_n s) (lh_block s) (view s (log_start s))"
  proof -
    have "log_start s \<notin> fst ` set ?V"
      using v T(3,4) by blast
    then show ?thesis by (simp add: apply_writes_other head_of_def)
  qed
  have 2: "?D (log_blk s k) = view s (lh_block s ! k)" if k: "k < nat (lh_n s)" for k
  proof -
    have "log_blk s k \<notin> fst ` set ?V"
      using v T(3) log_okD(5) [OF s k] by blast
    then show ?thesis
      using log_okD(6) [OF s k] log_okD(9) [OF s]
        apply_writes_map_at [of "nat (lh_n s)" "log_blk s" k "\<lambda>k. view s (lh_block s ! k)"] k
      by (simp add: apply_writes_other log_writes_def)
  qed
  have 3: "?D a = view s a" if "a \<notin> dirty_blocks s" "\<not> in_log s a" for a
  proof -
    have "a \<notin> fst ` set ?V" "a \<notin> fst ` set (log_writes s)" "a \<noteq> log_start s"
      using v T(1,4) that by blast+
    then show ?thesis
      using view_settled [of s a] s l that(1) by (simp add: apply_writes_other log_ok_def)
  qed
  show ?thesis
    by (rule recovered_committed [OF s 1 T(5) 2 3 b])
qed

lemma commit_prefix:
  assumes s: "log_ok s" and l: "locked_blocks s = {}" and e: "get32 0 (disk s (log_start s)) = 0" and b: "\<not> in_log s b"
  shows "recovered (log_start s) (apply_writes (take j (commit_writes s)) (disk s)) b =
    (if j \<le> nat (lh_n s) then disk s b else view s b)"
proof (cases rule: take_append_cases [of j "log_writes s" "(log_start s, head_of s) # home_writes s @ [(log_start s, put32 0 0 (head_of s))]"])
  case l
  have "fst ` set (take j (log_writes s)) \<subseteq> fst ` set (log_writes s)"
    using set_take_subset by fast
  then have "log_start s \<notin> fst ` set (take j (log_writes s))" "b \<notin> fst ` set (take j (log_writes s))"
    using commit_targets(1) [OF s] b by auto
  then show ?thesis
    using l e commit_targets(6) [OF s] by (simp add: commit_writes_split recovered_empty apply_writes_other)
next
  case (r i)
  have t: "take j (commit_writes s) =
      log_writes s @ (log_start s, head_of s) # take (i - 1) (home_writes s @ [(log_start s, put32 0 0 (head_of s))])"
    and jn: "\<not> j \<le> nat (lh_n s)"
    using r commit_targets(6) [OF s] by (auto simp: take_Cons' commit_writes_split)
  show ?thesis
  proof (cases "i - 1 \<le> nat (lh_n s)")
    case True
    then show ?thesis
      using commit_installing [OF s assms(2) b, of "i - 1"] t jn commit_targets(7) [OF s] by simp
  next
    case False
    then have "take j (commit_writes s) = commit_writes s"
      using t commit_targets(7) [OF s] by (simp add: commit_writes_split)
    then show ?thesis
      using commit_whole [OF s assms(2) b] commit_whole_head [OF s] jn by (simp add: recovered_empty)
  qed
qed

text \<open>
  C1: Crash atomicity of \<^verbatim>\<open>commit\<close>.  From a quiescent log whose on-disk header is empty, \<^verbatim>\<open>commit\<close>
  succeeds, and after any prefix of the disk writes it makes the disk stands for all of the
  transaction or for none of it, outside the log area: up to and including the last log block for
  none of it (the home blocks as they were before the commit), and from the header write on for
  all of it (every block as the processes saw it).  At the end the disk itself has the new blocks.
\<close>

theorem commit_crash_atomic:
  assumes s: "log_ok s" and l: "locked_blocks s = {}" and n: "lh_n s > 0"
    and e: "get32 0 (disk s (log_start s)) = 0"
  shows "\<exists>t W. commit s = Inr t \<and> whist t = whist s @ W \<and> disk t = apply_writes W (disk s) \<and> lh_n t = 0 \<and>
    log_ok t \<and> (\<forall>b. \<not> in_log s b \<longrightarrow> view t b = view s b \<and> disk t b = view s b) \<and>
    (\<forall>j b. \<not> in_log s b \<longrightarrow> recovered (log_start s) (apply_writes (take j W) (disk s)) b =
       (if j \<le> nat (lh_n s) then disk s b else view s b))"
proof -
  obtain t where t: "commit s = Inr t" "cache_inv t" "rest t = rest (s\<lparr>lh_n := 0\<rparr>)" "abs_store t = wrote (commit_writes s) (abs_store s)"
    using commit_ok [OF s l n] by blast
  note A = store_sel [OF t(4)] and F = rest_fields [OF t(3)] and S = s [unfolded log_ok_def] and P = commit_prefix [OF s l e] commit_whole [OF s l]
  have dt: "dirty_blocks t = {}"
    using commit_targets(2) [OF s] by (auto simp: A commit_writes_split)
  then have dv: "view t b = disk t b" for b
    using view_settled [OF t(2)] l A by auto
  have "log_ok t"
    using S t(2) dt F by (auto simp: log_ok_def logged_def log_geom_def)
  then show ?thesis
    using t(1) P dv A F by (intro exI [of _ t] exI [of _ "commit_writes s"]) auto
qed

text \<open>A disk whose superblock and log header \<^verbatim>\<open>initlog\<close> can work with.\<close>

definition log_image :: "(uint \<Rightarrow> block) \<Rightarrow> uint \<Rightarrow> bool" where
  "log_image D sz \<longleftrightarrow>
     (let sb = dec_sb (D 1); start = sb_logstart sb; size = sint (sb_nlog sb); n = sint (get32 0 (D start)) in
      1 < sz \<and> 0 < size \<and> unat start + nat size \<le> unat sz \<and> 0 \<le> n \<and> n < size \<and> n \<le> LOGSIZE \<and>
      (\<forall>k<nat n. get32 (4 + 4 * k) (D start) < sz \<and>
         \<not> (start \<le> get32 (4 + 4 * k) (D start) \<and> unat (get32 (4 + 4 * k) (D start)) < unat start + nat size)))"

lemma readsb_ok:
  fixes s :: "'a bcache_scheme"
  assumes "cache_inv s" "1 < disksize s" "locked_blocks s = {}" "dirty_blocks s = {}"
  shows "\<exists>t. readsb 1 s = Inr (dec_sb (view s 1), t) \<and> cache_inv t \<and> rest t = rest s \<and> abs_store t = abs_store s"
proof -
  have "\<exists>i t u. bread 1 1 s = Inr (i, t) \<and> bdata i t = vw (abs_store s) 1 \<and> brelse i t = Inr u \<and>
    cache_inv u \<and> rest u = rest s \<and> abs_store u = abs_store s \<and> rest t = rest s"
    using assms by (intro bc.read_block) (auto simp: rest_def avail_def NBUF_def)
  then show ?thesis
    by (auto simp: readsb_def)
qed

lemma fold_upd_nth:
  "length bl \<ge> n \<Longrightarrow> length (fold (\<lambda>i bl. bl[i := v i]) [0..<n] bl) = length bl \<and>
     (\<forall>k<n. fold (\<lambda>i bl. bl[i := v i]) [0..<n] bl ! k = v k)"
  by (induction n) (auto simp: nth_list_update less_Suc_eq)

lemma rest_lh:
  fixes s :: "'a logst_scheme"
  shows "rest (s\<lparr>lh_n := v, lh_block := w\<rparr>) = (rest s)\<lparr>lh_n := v, lh_block := w\<rparr>"
  by (cases s) (simp add: rest_def)

lemma read_head_ok:
  fixes s :: "'a logst_scheme"
  assumes s: "cache_inv s" and d: "log_dev s = 1" "log_start s < disksize s" "locked_blocks s = {}" "dirty_blocks s = {}"
  defines "h \<equiv> view s (log_start s)"
  assumes n: "sint (get32 0 h) \<le> LOGSIZE" and b: "length (lh_block s) = nat LOGSIZE"
  shows "\<exists>t bl. read_head s = Inr t \<and> cache_inv t \<and> abs_store t = abs_store s \<and>
    rest t = rest (s\<lparr>lh_n := sint (get32 0 h), lh_block := bl\<rparr>) \<and> length bl = nat LOGSIZE \<and>
    (\<forall>k<nat (sint (get32 0 h)). bl ! k = get32 (4 + 4 * k) h)"
proof -
  obtain i t where t: "bread 1 (log_start s) s = Inr (i, t)" "cache_inv t" "rest t = rest s"
    "abs_store t = a_bread i (log_start s) (abs_store s)" "hld (abs_store t) i = Some (log_start s)"
    "bdata i t = vw (abs_store s) (log_start s)" "hld (abs_store s) i = None"
    by (rule bc.bread_step [OF s, of "log_start s"]) (use d in \<open>simp_all add: rest_def avail_def NBUF_def\<close>)
  define bl where "bl = fold (\<lambda>i bl. bl[i := get32 (4 + 4 * i) h]) [0..<nat (sint (get32 0 h))] (lh_block t)"
  let ?t = "t\<lparr>lh_n := sint (get32 0 h), lh_block := bl\<rparr>"
  have c: "cache_inv ?t" "abs_store ?t = abs_store t"
    using same_cache [of ?t t] t(2) by auto
  have "settled (abs_store ?t) (log_start s)"
    using view_settled [OF s] d(3,4) t(4) by (auto simp: c(2) settled_def a_bread_def)
  then obtain u where u: "brelse i ?t = Inr u" "cache_inv u" "rest u = rest ?t" "abs_store u = a_brelse i (abs_store ?t)"
    using bc.brelse_ref [OF c(1)] c(2) t(5) by metis
  have "abs_store u = abs_store s"
    using u(4) t(4,7) d(3) unfolding c(2) by (cases "abs_store s") (auto simp: a_ops fun_upd_idem_iff abs_store_def)
  moreover have "read_head s = Inr u"
    using t(1,6) u(1) d(1) n by (simp add: read_head_def Let_def bl_def h_def)
  moreover have "rest ?t = rest (s\<lparr>lh_n := sint (get32 0 h), lh_block := bl\<rparr>)"
    by (simp only: rest_lh t(3))
  moreover have "length bl = nat LOGSIZE \<and> (\<forall>k<nat (sint (get32 0 h)). bl ! k = get32 (4 + 4 * k) h)"
    unfolding bl_def using fold_upd_nth [of "nat (sint (get32 0 h))" "lh_block t" "\<lambda>k. get32 (4 + 4 * k) h"] n b rest_fields(5) [OF t(3)]
    by simp
  ultimately show ?thesis
    using u(2,3) by (intro exI [of _ u] exI [of _ bl]) simp
qed

text \<open>Writing again what will be overwritten anyway.\<close>

lemma apply_writes_absorb:
  assumes "fst ` set V \<subseteq> fst ` set W"
  shows "apply_writes W (apply_writes V M) = apply_writes W M"
proof -
  have eq: "apply_writes W M b = apply_writes W M' b" if "b \<in> fst ` set W \<or> M b = M' b" for M M' b
    using that
  proof (induction W arbitrary: M M')
    case (Cons p W)
    have "apply_writes W (M(fst p := snd p)) b = apply_writes W (M'(fst p := snd p)) b"
      by (rule Cons.IH) (use Cons.prems in auto)
    then show ?case by (cases p) simp
  qed simp
  show ?thesis
    by (rule ext, rule eq) (use assms apply_writes_other [of _ V M] in blast)
qed

lemma replay_targets:
  "a \<in> fst ` set (replay_writes start D) \<longleftrightarrow> (\<exists>k<nat (sint (get32 0 (D start))). a = get32 (4 + 4 * k) (D start))"
  by (auto simp: replay_writes_def image_image)

text \<open>Recovery from a clean cache makes the writes the log asks for and then empties the header.\<close>

lemma recover_ok:
  fixes s :: "'a logst_scheme"
  assumes s: "cache_inv s" "log_geom s" "locked_blocks s = {}" "dirty_blocks s = {}" "length (lh_block s) = nat LOGSIZE"
  defines "h \<equiv> disk s (log_start s)"
  assumes n: "sint (get32 0 h) < log_size s" "sint (get32 0 h) \<le> LOGSIZE"
    and b: "\<And>k. k < nat (sint (get32 0 h)) \<Longrightarrow> get32 (4 + 4 * k) h < disksize s \<and> \<not> in_log s (get32 (4 + 4 * k) h)"
  shows "\<exists>t bl. recover_from_log s = Inr t \<and> cache_inv t \<and> rest t = rest (s\<lparr>lh_n := 0, lh_block := bl\<rparr>) \<and> length bl = nat LOGSIZE \<and>
    abs_store t = wrote (replay_writes (log_start s) (disk s) @ [(log_start s, put32 0 0 h)]) (abs_store s)"
proof -
  have v: "view s = disk s"
    using view_settled [OF s(1)] s(3,4) by auto
  have st: "log_start s < disksize s" "in_log s (log_start s)" "log_dev s = 1"
    using log_start_in_log [OF s(2)] s(2) by (auto simp: log_geom_def)
  let ?n = "sint (get32 0 h)"
  obtain s2 bl where s2: "read_head s = Inr s2" "cache_inv s2" "abs_store s2 = abs_store s"
    "rest s2 = rest (s\<lparr>lh_n := ?n, lh_block := bl\<rparr>)" "length bl = nat LOGSIZE" "\<And>k. k < nat ?n \<Longrightarrow> bl ! k = get32 (4 + 4 * k) h"
    using read_head_ok [OF s(1) st(3,1) s(3,4) _ s(5)] n(2) unfolding v h_def by blast
  note A2 = store_sel [OF s2(3)] and F2 = rest_fields [OF s2(4)]
  have g2: "log_geom s2" "in_log s2 = in_log s" "log_blk s2 = log_blk s"
    using s(2) by (auto simp: log_geom_def in_log_def log_blk_def F2 fun_eq_iff)
  have "installable s2"
    using s2 g2 n s(3,4) b by (auto simp: installable_def A2 F2)
  then obtain s3 where s3: "install_trans s2 = Inr s3" "cache_inv s3" "rest s3 = rest s2"
    "abs_store s3 = wrote (map (\<lambda>k. (lh_block s2 ! k, view s2 (log_blk s2 k))) [0..<nat (lh_n s2)]) (abs_store s2)"
    using install_trans_ok by blast
  let ?R = "replay_writes (log_start s) (disk s)"
  have "map (\<lambda>k. (lh_block s2 ! k, view s2 (log_blk s2 k))) [0..<nat (lh_n s2)] = ?R"
    using s2(6) by (auto simp: replay_writes_def F2 g2 log_blk_def A2 v h_def)
  then have a3: "abs_store s3 = wrote ?R (abs_store s)"
    using s3(4) s2(3) by simp
  note A3 = store_sel [OF a3] and F3 = rest_fields [OF s3(3)]
  have "log_start s \<notin> fst ` set ?R"
    unfolding replay_targets using b st(2) by (metis h_def)
  then have hs: "view s3 (log_start s) = h"
    using v by (simp add: A3 apply_writes_other h_def)
  have "view (s3\<lparr>lh_n := 0\<rparr>) = view s3" "locked_blocks (s3\<lparr>lh_n := 0\<rparr>) = {}" "dirty_blocks (s3\<lparr>lh_n := 0\<rparr>) = {}"
    using store_sel [OF lh_n_update_store(2) [where s = s3 and v = 0]] A3 s(3,4) by simp_all
  then obtain t where t: "write_head (s3\<lparr>lh_n := 0\<rparr>) = Inr t" "cache_inv t" "rest t = rest (s3\<lparr>lh_n := 0\<rparr>)"
    "abs_store t = wrote [(log_start s, put32 0 0 h)] (abs_store s3)"
    using write_head_ok [of "s3\<lparr>lh_n := 0\<rparr>"] s3(2) F3 F2 st hs by (auto simp: head_bytes_0 NBUF_def)
  have "rest (s3\<lparr>lh_n := 0\<rparr>) = rest (s\<lparr>lh_n := 0, lh_block := bl\<rparr>)"
    unfolding rest_lh_n s3(3) s2(4) by (cases s) (simp add: rest_def)
  then show ?thesis
    using s2(1,5) s3(1) t a3 by (intro exI [of _ t] exI [of _ bl]) (simp add: recover_from_log_def)
qed

text \<open>What a prefix of the writes of recovery leaves.\<close>

lemma recovery_prefix:
  fixes D :: "uint \<Rightarrow> block" and start :: uint
  defines "R \<equiv> replay_writes start D"
  assumes R: "\<And>k. k < nat (sint (get32 0 (D start))) \<Longrightarrow> start + of_nat k + 1 \<notin> fst ` set R" "start \<notin> fst ` set R"
    and h: "length (D start) = BSIZE" and b: "b \<noteq> start"
  shows "recovered start (apply_writes (take j (R @ [(start, put32 0 0 (D start))])) D) b = recovered start D b"
proof (cases rule: take_append_cases [of j R "[(start, put32 0 0 (D start))]"])
  case l
  have sub: "fst ` set (take j R) \<subseteq> fst ` set R"
    using set_take_subset by fast
  let ?D = "apply_writes (take j R) D"
  have 1: "?D start = D start"
    using sub R(2) by (intro apply_writes_other) auto
  have 2: "?D (start + of_nat k + 1) = D (start + of_nat k + 1)" if "k < nat (sint (get32 0 (D start)))" for k
    using sub R(1) [OF that] by (intro apply_writes_other) auto
  have "replay_writes start ?D = replay_writes start D"
    unfolding replay_writes_def 1 using 2 by (intro map_cong) auto
  then have "recovered start ?D = recovered start D"
    using apply_writes_absorb [OF sub, of D] by (simp add: recovered_def R_def)
  then show ?thesis using l by simp
next
  case (r i)
  let ?D = "apply_writes (R @ [(start, put32 0 0 (D start))]) D"
  have "get32 0 (?D start) = 0"
    using h by (simp add: get32_put32_same BSIZE_def)
  then have "recovered start ?D = ?D"
    by (rule recovered_empty)
  moreover have "take j (R @ [(start, put32 0 0 (D start))]) = R @ [(start, put32 0 0 (D start))]"
    using r by simp
  ultimately show ?thesis
    using b by (simp add: recovered_def R_def)
qed

text \<open>
  C2: Recovery.  On a freshly booted cache over any disk whose superblock and log header are well
  formed, \<^verbatim>\<open>initlog\<close> succeeds; afterwards every block outside the log is what the log said it should
  be, the on-disk header is empty, the cache shows the disk, and the log is ready for new
  transactions.  A crash after any prefix of the writes recovery makes leaves a disk that stands
  for the same blocks, so recovery can be interrupted and repeated any number of times.
\<close>

theorem initlog_recovers:
  fixes s :: "'a logst_scheme"
  assumes s: "cache_inv s" "locked_blocks s = {}" "dirty_blocks s = {}" "length (lh_block s) = nat LOGSIZE"
    and D: "log_image (disk s) (disksize s)"
  defines "start \<equiv> sb_logstart (dec_sb (disk s 1))"
  shows "\<exists>t W. initlog 1 s = Inr t \<and> whist t = whist s @ W \<and> disk t = apply_writes W (disk s) \<and> view t = disk t \<and>
    log_start t = start \<and> lh_n t = 0 \<and> log_ok t \<and> get32 0 (disk t start) = 0 \<and>
    (\<forall>b. \<not> in_log t b \<longrightarrow> disk t b = recovered start (disk s) b \<and>
      (\<forall>j. recovered start (apply_writes (take j W) (disk s)) b = recovered start (disk s) b))"
proof -
  define h where "h = disk s start"
  define size where "size = sint (sb_nlog (dec_sb (disk s 1)))"
  have v: "view s = disk s"
    using view_settled [OF s(1)] s(2,3) by auto
  have I: "1 < disksize s" "0 < size" "unat start + nat size \<le> unat (disksize s)" "0 \<le> sint (get32 0 h)"
    "sint (get32 0 h) < size" "sint (get32 0 h) \<le> LOGSIZE"
    "\<And>k. k < nat (sint (get32 0 h)) \<Longrightarrow> get32 (4 + 4 * k) h < disksize s"
    "\<And>k. k < nat (sint (get32 0 h)) \<Longrightarrow> \<not> (start \<le> get32 (4 + 4 * k) h \<and> unat (get32 (4 + 4 * k) h) < unat start + nat size)"
    using D by (auto simp: log_image_def Let_def start_def size_def h_def)
  obtain s0 where s0: "readsb 1 s = Inr (dec_sb (disk s 1), s0)" "cache_inv s0" "rest s0 = rest s" "abs_store s0 = abs_store s"
    using readsb_ok [OF s(1) I(1) s(2,3)] v by auto
  define s1 where "s1 = s0\<lparr>log_start := start, log_size := size, log_dev := 1\<rparr>"
  have s1: "cache_inv s1" "abs_store s1 = abs_store s" "log_start s1 = start" "log_size s1 = size" "log_dev s1 = 1"
    "disksize s1 = disksize s" "lh_block s1 = lh_block s"
    using same_cache [of s1 s0] s0 rest_fields [OF s0(3)] by (auto simp: s1_def)
  note A1 = store_sel [OF s1(2)]
  have g: "log_geom s1"
    using I(2,3) s1 by (simp add: log_geom_def)
  let ?R = "replay_writes start (disk s)"
  have b1: "get32 (4 + 4 * k) (disk s1 (log_start s1)) < disksize s1 \<and> \<not> in_log s1 (get32 (4 + 4 * k) (disk s1 (log_start s1)))"
    if "k < nat (sint (get32 0 (disk s1 (log_start s1))))" for k
    using I(7,8) [of k] that by (simp add: in_log_def s1 A1 h_def)
  obtain t bl where t: "recover_from_log s1 = Inr t" "cache_inv t" "rest t = rest (s1\<lparr>lh_n := 0, lh_block := bl\<rparr>)"
    "length bl = nat LOGSIZE" "abs_store t = wrote (?R @ [(start, put32 0 0 h)]) (abs_store s)"
    using recover_ok [OF s1(1) g _ _ _ _ _ b1] s(2-4) I(5,6) s1 A1 by (auto simp: h_def)
  note A = store_sel [OF t(5)] and F = rest_fields [OF t(3)]
  have R: "a \<in> fst ` set ?R \<Longrightarrow> \<not> in_log t a" for a
    unfolding replay_targets using I(8) by (auto simp: h_def in_log_def F s1)
  have gt: "log_geom t" "log_start t = start"
    using g by (auto simp: log_geom_def F s1)
  have vt: "view t = disk t" "dirty_blocks t = {}"
    using s(3) v by (auto simp: A)
  have "in_log t (log_blk t k)" if "k < nat (sint (get32 0 h))" for k
    using log_blk(3) [OF gt(1), of k] I(5) that by (simp add: F s1)
  then have lb: "start + of_nat k + 1 \<notin> fst ` set ?R" if "k < nat (sint (get32 0 (disk s start)))" for k
    using R that gt(2) by (auto simp: log_blk_def h_def)
  have ts: "in_log t start" "start \<notin> fst ` set ?R"
    using log_start_in_log [OF gt(1)] gt(2) R by auto
  have hl: "length (disk s start) = BSIZE"
    using cache_invD(3) [OF s(1)] .
  have ok: "log_ok t"
    using t(2,4) gt I(2) vt(2) by (simp add: log_ok_def logged_def F NBUF_def s1)
  have home: "disk t b = recovered start (disk s) b" if "b \<noteq> start" for b
    using that by (simp add: A recovered_def)
  have head: "get32 0 (disk t start) = 0"
    using hl by (simp add: A h_def get32_put32_same BSIZE_def)
  have pre: "recovered start (apply_writes (take j (?R @ [(start, put32 0 0 h)])) (disk s)) b = recovered start (disk s) b"
    if "b \<noteq> start" for b j
    unfolding h_def by (rule recovery_prefix [OF lb ts(2) hl that])
  have "initlog 1 s = Inr t"
    using s0(1) t(1) by (simp add: initlog_def LOGSIZE_def MAXOPBLOCKS_def BSIZE_def s1_def start_def size_def)
  then show ?thesis
    using A gt(2) F ok vt head home pre ts(1)
    by (intro exI [of _ t] exI [of _ "?R @ [(start, put32 0 0 h)]"]) (auto simp: s1)
qed

text \<open>A small disk: a superblock with the log at block 2, and one logged block, number 500.\<close>

definition log_disk :: "uint \<Rightarrow> block" where
  "log_disk b = (if b = 1 then put32 12 30 (put32 16 2 (replicate BSIZE 0)) else replicate BSIZE 0)"

definition log_demo :: logst where
  "log_demo = \<lparr>bufs = replicate NBUF zero_buf, bnext = replicate (NBUF + 1) 0, bprev = replicate (NBUF + 1) 0,
     disk = log_disk, disksize = 1000, whist = [], curpid = 1, log_start = 2, log_size = 30, log_outstanding = 0,
     log_committing = False, log_dev = 1, lh_n = 1, lh_block = replicate (nat LOGSIZE) 500\<rparr>"

definition log_demo_dirty :: logst where
  "log_demo_dirty = (binit log_demo)\<lparr>bufs := (bufs (binit log_demo))[0 := \<lparr>valid = True, dirty = True, bdev = 1, blockno = 500,
     slk = initsleeplock, refcnt = 0, data = replicate BSIZE 9\<rparr>]\<rparr>"

lemma get32_zeros: "p + 3 < n \<Longrightarrow> get32 p (replicate n 0) = 0"
  by (simp add: get32_def)

lemma log_demo_boot:
  "zeroed log_demo" "cache_inv (binit log_demo)" "disk (binit log_demo) = log_disk" "view (binit log_demo) = log_disk"
  "locked_blocks (binit log_demo) = {}" "dirty_blocks (binit log_demo) = {}" "rest (binit log_demo) = rest log_demo"
  "bufs (binit log_demo) = replicate NBUF zero_buf"
proof -
  show z: "zeroed log_demo"
    by (simp add: zeroed_def log_demo_def log_disk_def)
  note B = boot_store [OF z] binit_zeroed [OF z]
  show "cache_inv (binit log_demo)" "disk (binit log_demo) = log_disk" "view (binit log_demo) = log_disk"
    "locked_blocks (binit log_demo) = {}" "dirty_blocks (binit log_demo) = {}" "rest (binit log_demo) = rest log_demo"
    "bufs (binit log_demo) = replicate NBUF zero_buf"
    using B store_sel [OF B(2)] by (simp_all add: log_demo_def)
qed

lemma log_demo_dirty_ok:
  "log_ok log_demo_dirty" "locked_blocks log_demo_dirty = {}" "lh_n log_demo_dirty = 1"
  "get32 0 (disk log_demo_dirty (log_start log_demo_dirty)) = 0" "log_start log_demo_dirty = 2" "log_size log_demo_dirty = 30"
  "view log_demo_dirty 500 = replicate BSIZE 9"
proof -
  note B = log_demo_boot
  let ?x = "\<lparr>valid = True, dirty = True, bdev = 1, blockno = 500, slk = initsleeplock, refcnt = 0, data = replicate BSIZE 9\<rparr>"
  have c: "cache_inv log_demo_dirty"
    unfolding log_demo_dirty_def using B
    by (intro cache_inv_put) (auto simp: buf_ok_def zero_buf_def initsleeplock_def NBUF_def)
  have "\<not> is_block (binit log_demo) 500 j" if "j < NBUF" for j
    using B that by (simp add: is_block_def zero_buf_def)
  then have sets: "locked_blocks log_demo_dirty = {}" "dirty_blocks log_demo_dirty = {500}"
    using replace_block_sets [OF B(2) _ c [unfolded log_demo_dirty_def]] B
    by (simp_all add: log_demo_dirty_def zero_buf_def initsleeplock_def NBUF_def)
  then show "locked_blocks log_demo_dirty = {}"
    by simp
  have "rest log_demo_dirty = rest (binit log_demo)"
    by (simp add: log_demo_dirty_def rest_def)
  then have r: "rest log_demo_dirty = rest log_demo"
    using B by simp
  note F = rest_fields [OF r]
  show n: "lh_n log_demo_dirty = 1" "log_start log_demo_dirty = 2" "log_size log_demo_dirty = 30"
    using F by (simp_all add: log_demo_def)
  have "logged log_demo_dirty = [500]"
    using F by (simp add: logged_def log_demo_def LOGSIZE_def MAXOPBLOCKS_def)
  then show "log_ok log_demo_dirty"
    using c sets F by (simp add: log_ok_def log_geom_def in_log_def NBUF_def log_demo_def)
  have "disk log_demo_dirty = log_disk"
    using B by (simp add: log_demo_dirty_def)
  then show "get32 0 (disk log_demo_dirty (log_start log_demo_dirty)) = 0"
    by (simp add: n log_disk_def get32_zeros BSIZE_def)
  show "view log_demo_dirty 500 = replicate BSIZE 9"
    using view_cached [OF c, of 0] B by (simp add: log_demo_dirty_def NBUF_def)
qed

theorem commit_crash_atomic_witness:
  "\<exists>t. commit log_demo_dirty = Inr t \<and> disk t 500 = replicate BSIZE 9"
proof -
  note O = log_demo_dirty_ok
  have "\<not> in_log log_demo_dirty 500"
    by (simp add: in_log_def O)
  moreover have "lh_n log_demo_dirty > 0"
    by (simp add: O)
  ultimately show ?thesis
    using commit_crash_atomic [OF O(1,2) _ O(4)] O(7) by metis
qed

theorem initlog_recovers_witness:
  "\<exists>t. initlog 1 (binit log_demo) = Inr t \<and> log_ok t"
proof -
  note B = log_demo_boot
  note F = rest_fields [OF B(7)]
  have sb: "sb_logstart (dec_sb (log_disk 1)) = 2" "sb_nlog (dec_sb (log_disk 1)) = 30"
    by (simp_all add: dec_sb_def log_disk_def get32_put32_same get_put_other BSIZE_def)
  have h: "get32 0 (log_disk 2) = 0" and ds: "disksize (binit log_demo) = 1000"
    using F(6) by (simp_all add: log_disk_def get32_zeros BSIZE_def) (simp add: log_demo_def)
  have "log_image (disk (binit log_demo)) (disksize (binit log_demo))"
    unfolding B(3) ds log_image_def Let_def sb h by (simp add: LOGSIZE_def MAXOPBLOCKS_def)
  moreover have "length (lh_block (binit log_demo)) = nat LOGSIZE"
    unfolding F(5) by (simp add: log_demo_def)
  ultimately show ?thesis
    using initlog_recovers [OF B(2,5,6)] by blast
qed

section \<open>The reservation of log space\<close>

lemma rest_log_loops:
  fixes s :: "'a logst_scheme"
  shows "install_one k s = Inr t \<Longrightarrow> rest t = rest s" "log_one k s = Inr t \<Longrightarrow> rest t = rest s"
    "write_head s = Inr t \<Longrightarrow> rest t = rest s"
  by (auto simp: install_one_def log_one_def write_head_def bindE_eq_Inr dest!: cache_rest)

lemma foldE_rest:
  assumes "\<And>k s t. f k s = Inr t \<Longrightarrow> rest t = rest s" "foldE f ks s = Inr t"
  shows "rest t = rest s"
  using assms(2)
proof (induction ks arbitrary: s)
  case (Cons k ks)
  then obtain u where "f k s = Inr u" "foldE f ks u = Inr t"
    by (auto simp: bindE_eq_Inr)
  then show ?case using Cons.IH assms(1) by metis
qed simp

text \<open>A commit that returns leaves an empty transaction and changes no other field of the log.\<close>

lemma commit_fields:
  fixes s :: "'a logst_scheme"
  assumes "commit s = Inr t" "0 \<le> lh_n s"
  shows "lh_n t = 0" "log_size t = log_size s" "log_outstanding t = log_outstanding s" "log_committing t = log_committing s" "lh_block t = lh_block s"
proof -
  have "lh_n t = 0 \<and> lh_block t = lh_block s \<and> log_size t = log_size s \<and> log_outstanding t = log_outstanding s \<and> log_committing t = log_committing s"
  proof (cases "lh_n s > 0")
    case True
    then obtain s1 s2 s3 where r: "write_log s = Inr s1" "write_head s1 = Inr s2" "install_trans s2 = Inr s3"
      "write_head (s3\<lparr>lh_n := 0\<rparr>) = Inr t"
      using assms(1) by (auto simp: commit_def bindE_eq_Inr)
    have "rest s1 = rest s" "rest s3 = rest s2"
      using foldE_rest [of log_one, OF rest_log_loops(2)] foldE_rest [of install_one, OF rest_log_loops(1)] r(1,3)
      by (simp_all add: write_log_def install_trans_def)
    moreover have "rest s2 = rest s1"
      using r(2) by (rule rest_log_loops)
    ultimately have "rest s3 = rest s"
      by simp
    note F = rest_fields [OF this] and G = rest_fields [OF rest_log_loops(3) [OF r(4)]]
    show ?thesis
      using F G by simp
  next
    case False
    then show ?thesis using assms by (auto simp: commit_def)
  qed
  then show "lh_n t = 0" "log_size t = log_size s" "log_outstanding t = log_outstanding s" "log_committing t = log_committing s" "lh_block t = lh_block s"
    by auto
qed

lemma log_slot_spec: "log_slot b xs = (if b \<in> set xs then log_slot b xs else length xs)"
  "b \<in> set xs \<Longrightarrow> log_slot b xs < length xs \<and> xs ! log_slot b xs = b"
  by (induction xs) auto

text \<open>
  File-system calls of several processes, each call a step: \<^verbatim>\<open>ops p\<close> is the set of blocks process
  \<^verbatim>\<open>p\<close> has logged since its \<^verbatim>\<open>begin_op\<close>, and \<^verbatim>\<open>k\<close> bounds how many different blocks an operation logs.
  The last rule is everything the processes do with the cache in between.
\<close>

type_synonym ops = "int \<Rightarrow> uint set option"

inductive op_step :: "nat \<Rightarrow> logst \<times> ops \<Rightarrow> logst \<times> ops \<Rightarrow> bool" for k where
  op_begin: "\<lbrakk>ops p = None; begin_op s = Inr t\<rbrakk> \<Longrightarrow> op_step k (s, ops) (t, ops(p \<mapsto> {}))"
| op_write: "\<lbrakk>ops p = Some B; b = blockno (bufs s ! i); card (insert b B) \<le> k; log_write i s = Inr t\<rbrakk> \<Longrightarrow>
    op_step k (s, ops) (t, ops(p \<mapsto> insert b B))"
| op_end: "\<lbrakk>ops p = Some B; end_op s = Inr t\<rbrakk> \<Longrightarrow> op_step k (s, ops) (t, ops(p := None))"
| op_cache: "rest t = rest s \<Longrightarrow> op_step k (s, ops) (t, ops)"

inductive_cases op_stepE: "op_step k x y"

text \<open>How many blocks the running operations may still log, when each logs at most \<^verbatim>\<open>m\<close>.\<close>

definition reserved :: "int \<Rightarrow> ops \<Rightarrow> int" where
  "reserved m ops = (\<Sum>p\<in>dom ops. m - int (card (the (ops p))))"

text \<open>
  What is logged and what may still be logged: an operation starts on an empty log, or \<^verbatim>\<open>begin_op\<close> has counted
  \<^verbatim>\<open>MAXOPBLOCKS\<close> for it and for at least one other operation that will use at most \<^verbatim>\<open>k\<close> of them.
\<close>

definition res_inv :: "nat \<Rightarrow> int \<Rightarrow> logst \<times> ops \<Rightarrow> bool" where
  "res_inv k sz = (\<lambda>(s, ops). int k \<le> MAXOPBLOCKS \<and> finite (dom ops) \<and> log_outstanding s = int (card (dom ops)) \<and> \<not> log_committing s \<and>
     0 \<le> lh_n s \<and> length (lh_block s) = nat LOGSIZE \<and> log_size s = sz \<and> (dom ops = {} \<longrightarrow> lh_n s = 0) \<and>
     (\<forall>p B. ops p = Some B \<longrightarrow> finite B \<and> card B \<le> k \<and> B \<subseteq> set (logged s)) \<and>
     lh_n s + reserved (int k) ops \<le> LOGSIZE - 2 * (MAXOPBLOCKS - int k))"

lemma reserved_upd:
  assumes "finite (dom ops)"
  shows "ops p = None \<Longrightarrow> reserved m (ops(p \<mapsto> B)) = reserved m ops + m - int (card B)"
    "ops p = Some C \<Longrightarrow> reserved m (ops(p \<mapsto> B)) = reserved m ops + int (card C) - int (card B)"
    "ops p = Some C \<Longrightarrow> reserved m (ops(p := None)) = reserved m ops - m + int (card C)"
proof -
  let ?f = "\<lambda>ops p. m - int (card (the (ops p :: uint set option)))"
  have eq: "(\<Sum>q\<in>dom ops - {p}. ?f (ops(p := x)) q) = (\<Sum>q\<in>dom ops - {p}. ?f ops q)" for x
    by (rule sum.cong) auto
  have split: "q p \<noteq> None \<Longrightarrow> finite (dom q) \<Longrightarrow> reserved m q = ?f q p + (\<Sum>r\<in>dom q - {p}. ?f q r)" for q
    unfolding reserved_def by (intro sum.remove) auto
  have new: "reserved m (ops(p \<mapsto> B)) = m - int (card B) + (\<Sum>r\<in>dom ops - {p}. ?f ops r)"
    using split [of "ops(p \<mapsto> B)"] eq [of "Some B"] assms by simp
  show "ops p = None \<Longrightarrow> reserved m (ops(p \<mapsto> B)) = reserved m ops + m - int (card B)"
    using new by (simp add: reserved_def [of m ops] domIff)
  show "ops p = Some C \<Longrightarrow> reserved m (ops(p \<mapsto> B)) = reserved m ops + int (card C) - int (card B)"
    using new split [of ops] assms by simp
  show "ops p = Some C \<Longrightarrow> reserved m (ops(p := None)) = reserved m ops - m + int (card C)"
    using eq [of None] split [of ops] assms by (simp add: reserved_def [of m "ops(p := None)"])
qed

lemma reserved_bound: "reserved m ops \<le> m * int (card (dom ops))"
proof -
  have "reserved m ops \<le> (\<Sum>p\<in>dom ops. m)"
    unfolding reserved_def by (rule sum_mono) simp
  then show ?thesis by (simp add: mult.commute)
qed

text \<open>What a successful \<^verbatim>\<open>log_write\<close> does to the transaction: the block is in it, once.\<close>

lemma log_write_fields:
  fixes s :: "'a logst_scheme"
  assumes w: "log_write i s = Inr t" and n: "0 \<le> lh_n s" "length (lh_block s) = nat LOGSIZE"
  defines "b \<equiv> blockno (bufs s ! i)"
  shows "set (logged t) = insert b (set (logged s))" "lh_n t = (if b \<in> set (logged s) then lh_n s else lh_n s + 1)"
    "length (lh_block t) = nat LOGSIZE" "log_outstanding t = log_outstanding s" "log_size t = log_size s"
    "log_committing t = log_committing s" "distinct (logged s) \<Longrightarrow> distinct (logged t)"
proof -
  let ?i = "log_slot b (logged s)"
  let ?s = "s\<lparr>lh_block := (lh_block s)[?i := b]\<rparr>"
  let ?u = "if int ?i = lh_n s then ?s\<lparr>lh_n := lh_n s + 1\<rparr> else ?s"
  have lt: "lh_n s < LOGSIZE" and t: "t = pin i ?u"
    using w by (auto simp: log_write_def Let_def b_def logged_def split: if_splits)
  have len: "length (logged s) = nat (lh_n s)" "nat (lh_n s) < length (lh_block s)"
    using n lt by (auto simp: logged_def)
  have F: "lh_n t = lh_n ?u" "lh_block t = (lh_block s)[?i := b]" "log_outstanding t = log_outstanding s" "log_size t = log_size s"
    "log_committing t = log_committing s"
    using rest_fields [OF rest_upd_buf(4) [of i ?u]] t by auto
  show "length (lh_block t) = nat LOGSIZE" "log_outstanding t = log_outstanding s" "log_size t = log_size s" "log_committing t = log_committing s"
    using F n by auto
  have slot: "b \<in> set (logged s) \<Longrightarrow> ?i < nat (lh_n s) \<and> logged s ! ?i = b" "b \<notin> set (logged s) \<Longrightarrow> ?i = nat (lh_n s)"
    using log_slot_spec [of b "logged s"] len by auto
  show nt: "lh_n t = (if b \<in> set (logged s) then lh_n s else lh_n s + 1)"
    using slot F(1) n(1) by auto
  have lg: "logged t = (if b \<in> set (logged s) then logged s else logged s @ [b])"
  proof (cases "b \<in> set (logged s)")
    case True
    then have "(lh_block s)[?i := b] = lh_block s"
      using slot(1) len by (auto simp: logged_def intro!: list_update_same_conv [THEN iffD2])
    then show ?thesis
      using True nt F(2) by (simp add: logged_def)
  next
    case False
    then show ?thesis
      using slot(2) nt F(2) n(1) len(2) by (simp add: logged_def take_Suc_conv_app_nth nat_add_distrib)
  qed
  show "set (logged t) = insert b (set (logged s))" "distinct (logged s) \<Longrightarrow> distinct (logged t)"
    by (auto simp: lg)
qed

lemma res_inv_write:
  assumes i: "res_inv k sz (s, ops)" and p: "ops p = Some B" "card (insert b B) \<le> k" "b = blockno (bufs s ! i)" "log_write i s = Inr t"
  shows "res_inv k sz (t, ops(p \<mapsto> insert b B))"
proof -
  note I = i [unfolded res_inv_def prod.case]
  have n: "0 \<le> lh_n s" "length (lh_block s) = nat LOGSIZE"
    using I by auto
  note W = log_write_fields [OF p(4) n, folded p(3)]
  have B: "finite B" "B \<subseteq> set (logged s)"
    using I p(1) by auto
  have c: "int (card (insert b B)) = int (card B) + (if b \<in> B then 0 else 1)"
    using B(1) by (simp add: card_insert_if)
  have "lh_n t + reserved (int k) (ops(p \<mapsto> insert b B)) \<le> LOGSIZE - 2 * (MAXOPBLOCKS - int k)"
    using reserved_upd(2) [of ops p B "int k" "insert b B"] I p(1) c W(2) B(2) by (auto split: if_splits)
  moreover have "dom (ops(p \<mapsto> insert b B)) = dom ops"
    using p(1) by auto
  moreover have "finite C \<and> card C \<le> k \<and> C \<subseteq> set (logged t)" if "(ops(p \<mapsto> insert b B)) q = Some C" for q C
  proof (cases "q = p")
    case True
    then show ?thesis using that p(2) B W(1) by auto
  next
    case False
    then have "finite C \<and> card C \<le> k \<and> C \<subseteq> set (logged s)"
      using that I by auto
    then show ?thesis using W(1) by auto
  qed
  ultimately show ?thesis
    using I W(2-6) unfolding res_inv_def prod.case by auto
qed

lemma res_inv_end:
  assumes i: "res_inv k sz (s, ops)" and p: "ops p = Some B" "end_op s = Inr t"
  shows "res_inv k sz (t, ops(p := None))"
proof -
  note I = i [unfolded res_inv_def prod.case]
  have c: "int (card B) \<le> int k"
    using I p(1) by auto
  have card: "card (dom ops) = Suc (card (dom ops - {p}))"
    using I p(1) by (intro card.remove) auto
  have r: "reserved (int k) (ops(p := None)) \<le> reserved (int k) ops"
    using reserved_upd(3) [of ops p B "int k"] I p(1) c by auto
  show ?thesis
  proof (cases "log_outstanding s = 1")
    case True
    then have "dom (ops(p := None)) = {}"
      using card I by (simp add: card_eq_0_iff)
    then have e: "ops(p := None) = Map.empty"
      by (simp only: dom_eq_empty_conv)
    obtain u where u: "commit (s\<lparr>log_outstanding := 0, log_committing := True\<rparr>) = Inr u" "t = u\<lparr>log_committing := False\<rparr>"
      using p(2) True I by (auto simp: end_op_def Let_def bindE_eq_Inr)
    note C = commit_fields [OF u(1)]
    have "length (lh_block u) = nat LOGSIZE"
      using C(5) I by simp
    then show ?thesis
      unfolding e using C u(2) I by (simp add: res_inv_def reserved_def LOGSIZE_def MAXOPBLOCKS_def)
  next
    case False
    then have "t = s\<lparr>log_outstanding := log_outstanding s - 1\<rparr>"
      using p(2) I by (auto simp: end_op_def Let_def)
    moreover have "ops(p := None) \<noteq> Map.empty"
    proof
      assume "ops(p := None) = Map.empty"
      then have "dom ops - {p} = {}"
        by (metis dom_eq_empty_conv dom_fun_upd)
      then show False
        using card False I by simp
    qed
    ultimately show ?thesis
      using I r card by (auto simp: res_inv_def logged_def split: if_splits)
  qed
qed

lemma res_inv_step:
  assumes "op_step k x y" "res_inv k sz x"
  shows "res_inv k sz y"
  using assms(1)
proof cases
  case (op_begin ops p s t)
  have I: "finite (dom ops)" "log_outstanding s = int (card (dom ops))" "lh_n s + (log_outstanding s + 1) * MAXOPBLOCKS \<le> LOGSIZE"
    and t: "t = s\<lparr>log_outstanding := log_outstanding s + 1\<rparr>" and d: "card (dom (ops(p \<mapsto> {}))) = Suc (card (dom ops))"
    using assms(2) op_begin by (auto simp: res_inv_def begin_op_def domIff split: if_splits)
  have k: "int k \<le> MAXOPBLOCKS" "dom ops = {} \<longrightarrow> lh_n s = 0"
    using assms(2) op_begin by (auto simp: res_inv_def)
  have "lh_n s + reserved (int k) (ops(p \<mapsto> {})) \<le> LOGSIZE - 2 * (MAXOPBLOCKS - int k)"
  proof (cases "dom ops = {}")
    case True
    then show ?thesis
      using reserved_bound [of "int k" "ops(p \<mapsto> {})"] k d by (simp add: LOGSIZE_def MAXOPBLOCKS_def)
  next
    case False
    then have "1 * (MAXOPBLOCKS - int k) \<le> int (card (dom ops)) * (MAXOPBLOCKS - int k)"
      using I(1) k(1) by (intro mult_right_mono) (auto simp: Suc_le_eq card_gt_0_iff)
    then show ?thesis
      using reserved_bound [of "int k" "ops(p \<mapsto> {})"] I d by (simp add: algebra_simps)
  qed
  then show ?thesis
    using assms(2) t d unfolding op_begin by (auto simp: res_inv_def logged_def split: if_splits)
next
  case (op_write ops p B b s i t)
  then show ?thesis using res_inv_write assms(2) by simp
next
  case (op_end ops p B s t)
  then show ?thesis using res_inv_end assms(2) by simp
next
  case (op_cache t s ops)
  then show ?thesis
    using assms(2) rest_fields [OF op_cache(3)] by (auto simp: res_inv_def logged_def)
qed

interpretation lr: stepwise_invariant "op_step k" "res_inv k sz"
  by unfold_locales (rule res_inv_step)

text \<open>
  C4: The reservation of \<^verbatim>\<open>begin_op\<close> is enough, for any interleaving of operations, as long as an operation
  logs at most \<^verbatim>\<open>k\<close> different blocks with \<^verbatim>\<open>k\<close> below \<^verbatim>\<open>MAXOPBLOCKS\<close> and the log area can hold more than
  \<^verbatim>\<open>LOGSIZE - 2 * (MAXOPBLOCKS - k)\<close> blocks besides its header: no \<^verbatim>\<open>log_write\<close> by a running operation
  panics.  With the log of \<^verbatim>\<open>LOGSIZE\<close> blocks that \<^verbatim>\<open>mkfs\<close> makes this is the case for every
  \<^verbatim>\<open>k\<close> below \<^verbatim>\<open>MAXOPBLOCKS\<close>.
\<close>

theorem log_write_never_panics:
  assumes r: "(op_step k)\<^sup>*\<^sup>* (s0, \<lambda>_. None) (s, ops)"
    and i: "log_outstanding s0 = 0" "\<not> log_committing s0" "lh_n s0 = 0" "length (lh_block s0) = nat LOGSIZE"
    and k: "int k < MAXOPBLOCKS" "LOGSIZE - 2 * (MAXOPBLOCKS - int k) < log_size s0 - 1"
    and p: "ops p = Some B" "card (insert (blockno (bufs s ! b)) B) \<le> k"
  shows "\<exists>t. log_write b s = Inr t"
proof -
  have "res_inv k (log_size s0) (s0, \<lambda>_. None)"
    using i k(1) by (simp add: res_inv_def reserved_def LOGSIZE_def MAXOPBLOCKS_def)
  then have I: "res_inv k (log_size s0) (s, ops)"
    using lr.reachable [OF r] by simp
  then have f: "finite (dom ops)" "card B \<le> k" "log_outstanding s = int (card (dom ops))"
    using p(1) by (auto simp: res_inv_def)
  have "0 \<le> reserved (int k) ops"
    unfolding reserved_def using I by (intro sum_nonneg) (auto simp: res_inv_def)
  moreover have "lh_n s + reserved (int k) ops \<le> LOGSIZE - 2 * (MAXOPBLOCKS - int k)" "log_size s = log_size s0"
    using I by (auto simp: res_inv_def)
  ultimately have "lh_n s \<le> LOGSIZE - 2 * (MAXOPBLOCKS - int k)" "log_size s = log_size s0"
    by linarith+
  then have "lh_n s < LOGSIZE" "lh_n s < log_size s - 1"
    using k by auto
  moreover have "log_outstanding s \<ge> 1"
    using f(1,3) p(1) by (auto simp: Suc_le_eq card_gt_0_iff)
  ultimately show ?thesis
    by (auto simp: log_write_def Let_def)
qed

theorem log_write_never_panics_witness:
  "\<exists>t s. (op_step 9)\<^sup>*\<^sup>* (log_demo\<lparr>lh_n := 0\<rparr>, \<lambda>_. None) (s, [7 \<mapsto> {}]) \<and> log_write 3 s = Inr t"
proof -
  define s0 where "s0 = log_demo\<lparr>lh_n := 0\<rparr>"
  have e: "log_outstanding s0 = 0" "\<not> log_committing s0" "lh_n s0 = 0" "length (lh_block s0) = nat LOGSIZE" "log_size s0 = 30"
    by (simp_all add: s0_def log_demo_def)
  have "begin_op s0 = Inr (s0\<lparr>log_outstanding := 1\<rparr>)"
    using e by (simp add: begin_op_def LOGSIZE_def MAXOPBLOCKS_def)
  then have "op_step 9 (s0, \<lambda>_. None) (s0\<lparr>log_outstanding := 1\<rparr>, [7 \<mapsto> {}])"
    using op_begin [of "\<lambda>_. None" 7 s0] by simp
  then have r: "(op_step 9)\<^sup>*\<^sup>* (s0, \<lambda>_. None) (s0\<lparr>log_outstanding := 1\<rparr>, [7 \<mapsto> {}])"
    by (rule r_into_rtranclp)
  have "\<exists>t. log_write 3 (s0\<lparr>log_outstanding := 1\<rparr>) = Inr t"
    by (rule log_write_never_panics [OF r e(1-4), of 7 "{}"]) (simp_all add: e(5) LOGSIZE_def MAXOPBLOCKS_def)
  then show ?thesis
    using r unfolding s0_def by blast
qed

subsection \<open>Three full operations\<close>

text \<open>
  Three operations that log ten buffers each, in turn: the blocks process \<^verbatim>\<open>j\<close> has logged when \<^verbatim>\<open>n\<close> buffers have been
  written, and all of them.
\<close>

definition op_blocks :: "'a bcache_scheme \<Rightarrow> nat \<Rightarrow> nat \<Rightarrow> uint set" where
  "op_blocks s n j = (\<lambda>i. blockno (bufs s ! i)) ` {10 * j..<min (10 * j + 10) n}"

definition three_ops :: "'a bcache_scheme \<Rightarrow> nat \<Rightarrow> ops" where
  "three_ops s n = [0 \<mapsto> op_blocks s n 0, 1 \<mapsto> op_blocks s n 1, 2 \<mapsto> op_blocks s n 2]"

lemma op_blocks_card: "card (op_blocks s n j) \<le> 10"
  unfolding op_blocks_def by (rule order_trans [OF card_image_le]) simp_all

lemma op_blocks_Suc: "op_blocks s (Suc n) j = (if n div 10 = j then insert (blockno (bufs s ! n)) (op_blocks s n j) else op_blocks s n j)"
proof (cases "n div 10 = j")
  case True
  then have "{10 * j..<min (10 * j + 10) (Suc n)} = insert n {10 * j..<min (10 * j + 10) n}"
    by auto
  then show ?thesis
    using True by (simp add: op_blocks_def)
next
  case False
  then have "n < 10 * j \<or> 10 * j + 10 \<le> n"
    by auto
  then have "{10 * j..<min (10 * j + 10) (Suc n)} = {10 * j..<min (10 * j + 10) n}"
    by auto
  then show ?thesis
    using False by (simp add: op_blocks_def)
qed

lemma three_ops_Suc:
  assumes "n < 30"
  shows "three_ops s n (int (n div 10)) = Some (op_blocks s n (n div 10))"
    "three_ops s (Suc n) = (three_ops s n)(int (n div 10) \<mapsto> op_blocks s (Suc n) (n div 10))"
proof -
  have "n div 10 < 3"
    using assms by (intro less_mult_imp_div_less) simp
  then have "n div 10 \<in> {0, 1, 2}"
    by auto
  then show "three_ops s n (int (n div 10)) = Some (op_blocks s n (n div 10))"
    "three_ops s (Suc n) = (three_ops s n)(int (n div 10) \<mapsto> op_blocks s (Suc n) (n div 10))"
    by (auto simp: three_ops_def op_blocks_Suc fun_eq_iff)
qed

lemma log_write_bufs: "log_write b s = Inr t \<Longrightarrow> map blockno (bufs t) = map blockno (bufs s)"
proof -
  have "map blockno ((bufs s)[b := (bufs s ! b)\<lparr>dirty := True\<rparr>]) = map blockno (bufs s)"
    by (cases "b < length (bufs s)") (auto intro!: nth_equalityI simp: nth_list_update)
  then show "log_write b s = Inr t \<Longrightarrow> map blockno (bufs t) = map blockno (bufs s)"
    by (auto simp: log_write_def Let_def pin_def upd_buf_def split: if_splits)
qed

lemma three_ops_run:
  assumes s: "log_size s = LOGSIZE" "lh_n s = 0" "log_outstanding s = 0" "\<not> log_committing s" "length (lh_block s) = nat LOGSIZE"
    "length (bufs s) = NBUF" "distinct (map blockno (bufs s))"
  shows "n < nat LOGSIZE \<Longrightarrow> \<exists>t. (op_step 10)\<^sup>*\<^sup>* (s, \<lambda>_. None) (t, three_ops s n) \<and> lh_n t = int n \<and> log_outstanding t = 3 \<and>
    log_size t = LOGSIZE \<and> length (lh_block t) = nat LOGSIZE \<and> map blockno (bufs t) = map blockno (bufs s) \<and>
    set (logged t) = set (take n (map blockno (bufs s)))"
proof (induction n)
  case 0
  let ?t = "\<lambda>k. s\<lparr>log_outstanding := k\<rparr>"
  have "begin_op s = Inr (?t 1)" "begin_op (?t 1) = Inr (?t 2)" "begin_op (?t 2) = Inr (?t 3)"
    using s by (simp_all add: begin_op_def LOGSIZE_def MAXOPBLOCKS_def)
  then have "op_step 10 (s, \<lambda>_. None) (?t 1, [0 \<mapsto> {}])" "op_step 10 (?t 1, [0 \<mapsto> {}]) (?t 2, [0 \<mapsto> {}, 1 \<mapsto> {}])"
      "op_step 10 (?t 2, [0 \<mapsto> {}, 1 \<mapsto> {}]) (?t 3, [0 \<mapsto> {}, 1 \<mapsto> {}, 2 \<mapsto> {}])"
    by (simp_all add: op_begin)
  then have "(op_step 10)\<^sup>*\<^sup>* (s, \<lambda>_. None) (?t 3, three_ops s 0)"
    by (simp add: three_ops_def op_blocks_def converse_rtranclp_into_rtranclp)
  then show ?case
    using s by (intro exI [of _ "?t 3"]) (simp add: logged_def)
next
  case (Suc n)
  then obtain t where t: "(op_step 10)\<^sup>*\<^sup>* (s, \<lambda>_. None) (t, three_ops s n)" "lh_n t = int n" "log_outstanding t = 3"
      "log_size t = LOGSIZE" "length (lh_block t) = nat LOGSIZE" "map blockno (bufs t) = map blockno (bufs s)"
      "set (logged t) = set (take n (map blockno (bufs s)))"
    by auto
  have n: "n < 29" "n < length (bufs s)" "length (bufs t) = length (bufs s)"
    using Suc.prems s(6) arg_cong [OF t(6), of length] by (simp_all add: LOGSIZE_def MAXOPBLOCKS_def NBUF_def)
  obtain u where u: "log_write n t = Inr u"
    using t(2-4) n(1) by (simp add: log_write_def LOGSIZE_def MAXOPBLOCKS_def Let_def)
  note W = log_write_fields [OF u, unfolded t(2,5), simplified]
  have b: "blockno (bufs t ! n) = blockno (bufs s ! n)"
    using arg_cong [OF t(6), of "\<lambda>xs. xs ! n"] n by simp
  have f: "map blockno (bufs s) ! n \<notin> set (take n (map blockno (bufs s)))"
    using s(7) n(2) id_take_nth_drop [of n "map blockno (bufs s)"] by (metis distinct_append disjoint_insert(1) length_map list.simps(15))
  note three_ops_Suc [of n s]
  moreover have "op_blocks s (Suc n) (n div 10) = insert (blockno (bufs t ! n)) (op_blocks s n (n div 10))"
    by (simp add: op_blocks_Suc b)
  ultimately have "op_step 10 (t, three_ops s n) (u, three_ops s (Suc n))"
    using n(1) op_write [of "three_ops s n" "int (n div 10)" _ _ t n 10 u] u op_blocks_card [of s "Suc n" "n div 10"] by simp
  then show ?case
    using t W log_write_bufs [OF u] f b n(2) by (intro exI [of _ u]) (auto simp: take_Suc_conv_app_nth)
qed

text \<open>
  C12: With the log of exactly \<^verbatim>\<open>LOGSIZE\<close> blocks that \<^verbatim>\<open>mkfs\<close> makes, \<^verbatim>\<open>begin_op\<close> hands out more space than
  \<^verbatim>\<open>log_write\<close> accepts: three operations admitted on an empty log can log \<^verbatim>\<open>LOGSIZE - 1\<close> different blocks, none of them more
  than \<^verbatim>\<open>MAXOPBLOCKS\<close>, and then the next \<^verbatim>\<open>log_write\<close> panics, although the operation that makes it has still one
  block left, and whatever block it writes.
\<close>

theorem begin_op_overcommits:
  assumes "log_size s = LOGSIZE" "lh_n s = 0" "log_outstanding s = 0" "\<not> log_committing s" "length (lh_block s) = nat LOGSIZE"
    "length (bufs s) = NBUF" "distinct (map blockno (bufs s))"
  shows "\<exists>t ops. (op_step (nat MAXOPBLOCKS))\<^sup>*\<^sup>* (s, \<lambda>_. None) (t, ops) \<and> map blockno (bufs t) = map blockno (bufs s) \<and>
    (\<exists>p B. ops p = Some B \<and> card B < nat MAXOPBLOCKS) \<and> (\<forall>b. log_write b t = Inl (Panic ''too big a transaction''))"
proof -
  obtain t where t: "(op_step 10)\<^sup>*\<^sup>* (s, \<lambda>_. None) (t, three_ops s 29)" "lh_n t = 29" "log_size t = LOGSIZE"
      "map blockno (bufs t) = map blockno (bufs s)"
    using three_ops_run [OF assms, of 29] by (auto simp: LOGSIZE_def MAXOPBLOCKS_def)
  have "three_ops s 29 2 = Some (op_blocks s 29 2)" "card (op_blocks s 29 2) < nat MAXOPBLOCKS"
    using card_image_le [of "{20..<29}" "\<lambda>i. blockno (bufs s ! i)"] by (simp_all add: three_ops_def op_blocks_def MAXOPBLOCKS_def)
  moreover have "log_write b t = Inl (Panic ''too big a transaction'')" for b
    using t(2,3) by (simp add: log_write_def LOGSIZE_def MAXOPBLOCKS_def)
  ultimately show ?thesis
    using t(1,4) by (intro exI [of _ t] exI [of _ "three_ops s 29"]) (auto simp: MAXOPBLOCKS_def)
qed

definition full_demo :: logst where
  "full_demo = log_demo\<lparr>lh_n := 0, bufs := map (\<lambda>i. zero_buf\<lparr>blockno := of_nat (100 + i)\<rparr>) [0..<NBUF]\<rparr>"

theorem begin_op_overcommits_witness:
  "\<exists>t ops. (op_step 10)\<^sup>*\<^sup>* (full_demo, \<lambda>_. None) (t, ops) \<and> (\<exists>p B. ops p = Some B \<and> card B < 10) \<and>
     log_write 29 t = Inl (Panic ''too big a transaction'')"
proof -
  have "distinct (map blockno (bufs full_demo))"
    by (simp add: full_demo_def NBUF_def upt_rec)
  moreover have "log_size full_demo = LOGSIZE" "lh_n full_demo = 0" "log_outstanding full_demo = 0" "\<not> log_committing full_demo"
    "length (lh_block full_demo) = nat LOGSIZE" "length (bufs full_demo) = NBUF"
    by (simp_all add: full_demo_def log_demo_def LOGSIZE_def MAXOPBLOCKS_def)
  ultimately show ?thesis
    using begin_op_overcommits [of full_demo] by (auto simp: MAXOPBLOCKS_def)
qed

section \<open>Logged updates\<close>

text \<open>\<^verbatim>\<open>log_write\<close> of a held buffer keeps the log committable and pins the block.\<close>

lemma log_write_ok:
  fixes s :: "'a logst_scheme"
  assumes ok: "log_ok s"
    and h: "held s i = Some b" "b < disksize s" "\<not> in_log s b"
    and n: "lh_n s < LOGSIZE" "lh_n s < log_size s - 1" "log_size s \<le> int NBUF" "log_outstanding s \<ge> 1"
  shows "\<exists>t. log_write i s = Inr t \<and> log_ok t \<and> abs_store t = a_pin i (abs_store s) \<and>
    rest t = rest (s\<lparr>lh_n := lh_n t, lh_block := lh_block t\<rparr>) \<and> set (logged t) = insert b (set (logged s))"
proof -
  have s: "cache_inv s" "log_geom s" "length (lh_block s) = nat LOGSIZE" "0 \<le> lh_n s" "distinct (logged s)"
      "\<forall>b\<in>set (logged s). b < disksize s \<and> \<not> in_log s b" "dirty_blocks s = set (logged s)"
    using ok by (auto simp: log_ok_def)
  have b: "blockno (bufs s ! i) = b"
    using heldD(2) [OF s(1) h(1)] .
  let ?i = "log_slot b (logged s)"
  define u where "u = (let s = s\<lparr>lh_block := (lh_block s)[?i := b]\<rparr> in if int ?i = lh_n s then s\<lparr>lh_n := lh_n s + 1\<rparr> else s)"
  have w: "log_write i s = Inr (pin i u)"
    using n by (simp add: log_write_def Let_def b logged_def u_def)
  have c: "bufs u = bufs s" "bnext u = bnext s" "bprev u = bprev s" "disk u = disk s" "whist u = whist s" "curpid u = curpid s"
    and r: "u = s\<lparr>lh_n := lh_n u, lh_block := lh_block u\<rparr>"
    by (simp_all add: u_def Let_def)
  have u: "cache_inv u" "abs_store u = abs_store s"
    using same_cache [OF c] s(1) by auto
  have hu: "hld (abs_store u) i = Some b"
    using u(2) h(1) by simp
  have p: "cache_inv (pin i u)" "abs_store (pin i u) = a_pin i (abs_store s)" "rest (pin i u) = rest u"
    using bc.pin_ref [OF u(1) hu] u(2) by auto
  note W = log_write_fields [OF w s(4,3), unfolded b] and F = rest_fields [OF p(3)]
  have "dirty_blocks (pin i u) = insert b (dirty_blocks s)"
    using store_sel(6) [OF p(2)] h(1) by (simp add: a_pin_def)
  moreover have "log_start u = log_start s" "disksize u = disksize s" "log_dev u = log_dev s"
    by (subst r, simp)+
  ultimately have "log_ok (pin i u)"
    using s n h p(1) W F(1-3,6) by (auto simp: log_ok_def log_geom_def in_log_def)
  moreover have "rest (pin i u) = rest (s\<lparr>lh_n := lh_n (pin i u), lh_block := lh_block (pin i u)\<rparr>)"
    unfolding p(3) F(4,5) using r by (rule arg_cong)
  ultimately show ?thesis
    using w p(2) W(1) by blast
qed

lemma log_ok_transfer:
  fixes s t :: "'a logst_scheme"
  assumes "log_ok s" "cache_inv t" "rest t = rest s" "dirty_blocks t = dirty_blocks s"
  shows "log_ok t"
  using assms(1,2,4) rest_fields [OF assms(3)] by (auto simp: log_ok_def log_geom_def in_log_def logged_def)

text \<open>When an operation can log another block.\<close>

definition can_log :: "'a logst_scheme \<Rightarrow> bool" where
  "can_log s \<longleftrightarrow> log_ok s \<and> lh_n s < LOGSIZE \<and> lh_n s < log_size s - 1 \<and> log_size s \<le> int NBUF \<and> log_outstanding s \<ge> 1"

text \<open>
  The update protocol of the file system: \<^verbatim>\<open>bread\<close>, change the data, \<^verbatim>\<open>log_write\<close>, \<^verbatim>\<open>brelse\<close>.  Inside
  a transaction with space left it succeeds; every process then sees the new contents of this
  block and the old contents of all others, nothing has reached the disk, no lock is left behind,
  the block is part of the transaction, and the log can still be committed.
\<close>

lemma logged_update:
  fixes s :: "'a logst_scheme"
  assumes c: "can_log s" and b: "b < disksize s" "\<not> in_log s b" "b \<notin> locked_blocks s"
    and a: "b \<in> dirty_blocks s \<or> card (locked_blocks s \<union> dirty_blocks s) < NBUF"
    and f: "\<And>d. length d = BSIZE \<Longrightarrow> length (f d) = BSIZE"
  shows "\<exists>i t u v. bread 1 b s = Inr (i, t) \<and> log_write i (set_bdata i (f (bdata i t)) t) = Inr u \<and> brelse i u = Inr v \<and>
    log_ok v \<and> view v = (view s)(b := f (view s b)) \<and> disk v = disk s \<and> held v = held s \<and> locked_blocks v = locked_blocks s \<and>
    set (logged v) = insert b (set (logged s)) \<and> rest v = rest (s\<lparr>lh_n := lh_n v, lh_block := lh_block v\<rparr>)"
proof -
  have s: "cache_inv s" "log_ok s"
    using c by (auto simp: can_log_def log_ok_def)
  obtain i t where t: "bread 1 b s = Inr (i, t)" "cache_inv t" "rest t = rest s" "abs_store t = a_bread i b (abs_store s)"
    "hld (abs_store t) i = Some b" "bdata i t = vw (abs_store s) b" "hld (abs_store s) i = None"
    by (rule bc.bread_step [OF s(1), of b]) (use b a in \<open>simp_all add: rest_def avail_def\<close>)
  define p where "p = set_bdata i (f (bdata i t)) t"
  have "length (f (bdata i t)) = BSIZE"
    using f view_length [OF s(1)] t(6) by simp
  then have p: "cache_inv p" "rest p = rest s" "abs_store p = a_put i (f (view s b)) (abs_store t)"
    using bc.put_ref [OF t(2,5)] t(3,6) by (auto simp: p_def)
  have hp: "held p i = Some b" "dirty_blocks p = dirty_blocks s"
    using t(4,5) store_sel [OF p(3)] by (auto simp: a_put_def a_bread_def)
  have okp: "log_ok p"
    by (rule log_ok_transfer [OF s(2) p(1,2) hp(2)])
  note F = rest_fields [OF p(2)]
  have "\<not> in_log p b"
    using b(2) F by (simp add: in_log_def)
  then obtain u where u: "log_write i p = Inr u" "log_ok u" "abs_store u = a_pin i (abs_store p)"
    "rest u = rest (p\<lparr>lh_n := lh_n u, lh_block := lh_block u\<rparr>)" "set (logged u) = insert b (set (logged p))"
    using log_write_ok [OF okp hp(1)] b(1) c F unfolding can_log_def by auto
  have hu: "hld (abs_store u) i = Some b" "settled (abs_store u) b" "cache_inv u"
    using u(2,3) hp(1) by (auto simp: a_pin_def settled_def log_ok_def)
  obtain v where v: "brelse i u = Inr v" "cache_inv v" "rest v = rest u" "abs_store v = a_brelse i (abs_store u)"
    using bc.brelse_ref [OF hu(3,1,2)] by blast
  note A = store_sel [OF v(4)] store_sel [OF u(3)] store_sel [OF p(3)] and G = rest_fields [OF v(3)]
  have "view v = (view s)(b := f (view s b))" "disk v = disk s" "dirty_blocks v = dirty_blocks u"
    using A t(4) by (auto simp: a_ops)
  moreover have "held v = held s" "locked_blocks v = locked_blocks s"
    using A t(4,7) b(3) by (auto simp: a_ops fun_upd_idem_iff)
  moreover have "rest v = rest (s\<lparr>lh_n := lh_n v, lh_block := lh_block v\<rparr>)"
    unfolding v(3) u(4) G(4,5) rest_lh p(2) ..
  moreover have "set (logged v) = insert b (set (logged s))"
    using u(5) F G by (simp add: logged_def)
  ultimately show ?thesis
    using t(1) u(1) v(1) log_ok_transfer [OF u(2) v(2,3)] by (auto simp: p_def)
qed

lemma log_ok_counters:
  fixes s :: "'a logst_scheme"
  assumes "log_ok s"
  shows "log_ok (s\<lparr>log_outstanding := n, log_committing := c\<rparr>)"
    "abs_store (s\<lparr>log_outstanding := n, log_committing := c\<rparr>) = abs_store s"
    "log_ok (s\<lparr>log_outstanding := n\<rparr>)" "abs_store (s\<lparr>log_outstanding := n\<rparr>) = abs_store s"
    "log_ok (s\<lparr>log_committing := c\<rparr>)" "abs_store (s\<lparr>log_committing := c\<rparr>) = abs_store s"
proof -
  let ?t = "s\<lparr>log_outstanding := n, log_committing := c\<rparr>" and ?u = "s\<lparr>log_outstanding := n\<rparr>" and ?v = "s\<lparr>log_committing := c\<rparr>"
  have c: "cache_inv ?t = cache_inv s" "abs_store ?t = abs_store s" "cache_inv ?u = cache_inv s" "abs_store ?u = abs_store s"
    "cache_inv ?v = cache_inv s" "abs_store ?v = abs_store s"
    by (rule same_cache; simp)+
  then show "abs_store ?t = abs_store s" "abs_store ?u = abs_store s" "abs_store ?v = abs_store s"
    by auto
  show "log_ok ?t" "log_ok ?u" "log_ok ?v"
    using assms c store_sel(6) [OF c(2)] store_sel(6) [OF c(4)] store_sel(6) [OF c(6)]
    by (simp_all add: log_ok_def log_geom_def in_log_def logged_def)
qed

text \<open>The last \<^verbatim>\<open>end_op\<close> of a non-empty transaction commits it.\<close>

lemma end_op_commits:
  fixes s :: "'a logst_scheme"
  assumes s: "log_ok s" "locked_blocks s = {}" "lh_n s > 0" "log_outstanding s = 1" "\<not> log_committing s"
  shows "\<exists>t. end_op s = Inr t \<and> log_ok t \<and> lh_n t = 0 \<and> log_outstanding t = 0 \<and> \<not> log_committing t \<and> locked_blocks t = {} \<and>
    whist t = whist s @ commit_writes s \<and> (\<forall>b. \<not> in_log s b \<longrightarrow> disk t b = view s b \<and> view t b = view s b)"
proof -
  define u where "u = s\<lparr>log_outstanding := 0, log_committing := True\<rparr>"
  have u: "log_ok u" "abs_store u = abs_store s" and f: "lh_n u > 0" "log_start u = log_start s" "log_size u = log_size s"
    using log_ok_counters(1,2) [OF s(1)] s(3) by (simp_all add: u_def)
  note U = store_sel [OF u(2)]
  have l: "locked_blocks u = {}"
    using U s(2) by simp
  obtain t where t: "commit u = Inr t" "cache_inv t" "rest t = rest (u\<lparr>lh_n := 0\<rparr>)" "abs_store t = wrote (commit_writes u) (abs_store u)"
    using commit_ok [OF u(1) l f(1)] by blast
  note A = store_sel [OF t(4)] and F = rest_fields [OF t(3)]
  have cw: "commit_writes u = commit_writes s"
    using U by (simp add: commit_writes_def Let_def log_blk_def u_def)
  have dt: "dirty_blocks t = {}"
    using commit_targets(2) [OF u(1)] by (auto simp: A commit_writes_split)
  have okt: "log_ok t"
    using u(1) t(2) dt F by (auto simp: log_ok_def logged_def log_geom_def)
  have d: "disk t b = view s b" "view t b = view s b" if "\<not> in_log s b" for b
    using commit_whole [OF u(1) l, of b] that view_settled [OF t(2), of b] dt l A U by (simp_all add: in_log_def f)
  have e: "end_op s = Inr (t\<lparr>log_committing := False\<rparr>)"
    using s(4,5) t(1) by (simp add: end_op_def Let_def u_def)
  note K = log_ok_counters(5,6) [OF okt, of False]
  note B = store_sel [OF K(2)]
  show ?thesis
    using e K(1) B A U F d l cw by (intro exI [of _ "t\<lparr>log_committing := False\<rparr>"]) (simp add: u_def)
qed

text \<open>
  C3: A whole transaction.  On a quiescent log, \<^verbatim>\<open>begin_op\<close>, the update protocol (\<^verbatim>\<open>bread\<close>, change the data,
  \<^verbatim>\<open>log_write\<close>, \<^verbatim>\<open>brelse\<close>) and \<^verbatim>\<open>end_op\<close> run through.  Before \<^verbatim>\<open>end_op\<close> the update is visible to every
  process but nothing has been written; after it the disk itself has the new block, every other
  block outside the log is unchanged, and the log is quiescent again.
\<close>

theorem transaction_durable:
  fixes s :: "'a logst_scheme"
  assumes s: "log_ok s" "locked_blocks s = {}" "lh_n s = 0" "log_outstanding s = 0" "\<not> log_committing s"
      "1 < log_size s" "log_size s \<le> int NBUF"
    and b: "b < disksize s" "\<not> in_log s b" and f: "\<And>d. length d = BSIZE \<Longrightarrow> length (f d) = BSIZE"
  shows "\<exists>s1 i t u v w. begin_op s = Inr s1 \<and> bread 1 b s1 = Inr (i, t) \<and> log_write i (set_bdata i (f (bdata i t)) t) = Inr u \<and>
    brelse i u = Inr v \<and> view v = (view s)(b := f (view s b)) \<and> disk v = disk s \<and>
    end_op v = Inr w \<and> disk w b = f (view s b) \<and> (\<forall>a. a \<noteq> b \<and> \<not> in_log s a \<longrightarrow> disk w a = view s a) \<and>
    log_ok w \<and> lh_n w = 0 \<and> log_outstanding w = 0 \<and> \<not> log_committing w \<and> locked_blocks w = {}"
proof -
  define s1 where "s1 = s\<lparr>log_outstanding := 1\<rparr>"
  have s1: "log_ok s1" "abs_store s1 = abs_store s" and b1: "begin_op s = Inr s1"
    using log_ok_counters(3,4) [OF s(1)] s(3-5) by (simp_all add: s1_def begin_op_def LOGSIZE_def MAXOPBLOCKS_def)
  note A1 = store_sel [OF s1(2)]
  have "can_log s1"
    using s1 s by (simp add: can_log_def s1_def LOGSIZE_def MAXOPBLOCKS_def)
  moreover have e: "dirty_blocks s1 = {}" "locked_blocks s1 = {}"
    using s1(1) s(2,3) A1 by (auto simp: log_ok_def logged_def s1_def)
  ultimately obtain i t u v where v: "bread 1 b s1 = Inr (i, t)" "log_write i (set_bdata i (f (bdata i t)) t) = Inr u" "brelse i u = Inr v"
    "log_ok v" "view v = (view s1)(b := f (view s1 b))" "disk v = disk s1" "locked_blocks v = {}"
    "set (logged v) = insert b (set (logged s1))" "rest v = rest (s1\<lparr>lh_n := lh_n v, lh_block := lh_block v\<rparr>)"
    using logged_update [of s1 b f] b f by (auto simp: s1_def in_log_def NBUF_def)
  note F = rest_fields [OF v(9)]
  have n: "lh_n v > 0"
    using v(4,8) by (cases "lh_n v = 0") (auto simp: log_ok_def logged_def)
  have il: "in_log v = in_log s"
    using F by (simp add: in_log_def fun_eq_iff s1_def)
  obtain w where w: "end_op v = Inr w" "log_ok w" "lh_n w = 0" "log_outstanding w = 0" "\<not> log_committing w" "locked_blocks w = {}"
    "\<forall>a. \<not> in_log v a \<longrightarrow> disk w a = view v a"
    using end_op_commits [OF v(4,7) n] F s(5) by (auto simp: s1_def)
  have "disk w b = f (view s b)" "\<forall>a. a \<noteq> b \<and> \<not> in_log s a \<longrightarrow> disk w a = view s a"
    using w(7) il b(2) v(5) A1 by auto
  then show ?thesis
    using b1 v A1 w by (intro exI [of _ s1] exI [of _ i] exI [of _ t] exI [of _ u] exI [of _ v] exI [of _ w]) simp
qed

definition log_demo_clean :: logst where
  "log_demo_clean = binit (log_demo\<lparr>lh_n := 0\<rparr>)"

lemma log_demo_clean_ok:
  "log_ok log_demo_clean" "locked_blocks log_demo_clean = {}" "lh_n log_demo_clean = 0" "log_outstanding log_demo_clean = 0"
  "\<not> log_committing log_demo_clean" "log_size log_demo_clean = 30" "log_start log_demo_clean = 2" "disksize log_demo_clean = 1000"
proof -
  have z: "zeroed (log_demo\<lparr>lh_n := 0\<rparr>)"
    using log_demo_boot(1) by (simp add: zeroed_def)
  note B = boot_store [OF z] and R = binit_zeroed(4) [OF z]
  note F = rest_fields [OF R] and S = store_sel [OF B(2)]
  show f: "lh_n log_demo_clean = 0" "log_outstanding log_demo_clean = 0" "\<not> log_committing log_demo_clean"
    "log_size log_demo_clean = 30" "log_start log_demo_clean = 2" "disksize log_demo_clean = 1000"
    using F by (simp_all add: log_demo_clean_def) (simp_all add: log_demo_def)
  have "lh_block log_demo_clean = replicate (nat LOGSIZE) 500" "log_dev log_demo_clean = 1"
    using F by (simp_all add: log_demo_clean_def) (simp_all add: log_demo_def)
  then show "log_ok log_demo_clean" "locked_blocks log_demo_clean = {}"
    using B(1) S f by (simp_all add: log_ok_def log_geom_def logged_def NBUF_def log_demo_clean_def)
qed

theorem transaction_durable_witness:
  "\<exists>s1 i t u v w. begin_op log_demo_clean = Inr s1 \<and> bread 1 500 s1 = Inr (i, t) \<and>
     log_write i (set_bdata i (map (\<lambda>x. x + 1) (bdata i t)) t) = Inr u \<and> brelse i u = Inr v \<and> end_op v = Inr w \<and> log_ok w"
proof -
  note L = log_demo_clean_ok
  have "\<not> in_log log_demo_clean 500" "500 < disksize log_demo_clean" "1 < log_size log_demo_clean" "log_size log_demo_clean \<le> int NBUF"
    by (simp_all add: in_log_def L NBUF_def)
  then show ?thesis
    using transaction_durable [OF L(1-5), where b = 500 and f = "map (\<lambda>x. x + 1)"] by simp blast
qed

end
