(* ===== verification/String_c.thy ===== *)
theory String_c
  imports Prelude
begin

text \<open>
  The kernel's memory and string routines (\<^verbatim>\<open>string.c\<close>) over byte-addressed memory, with the two
  string instructions they use (\<^verbatim>\<open>stosb\<close>, \<^verbatim>\<open>stosl\<close> of \<^verbatim>\<open>x86.h\<close>).  A pointer is a 32-bit address, a
  store is the new memory, a loop over a byte count is a recursion on that count.  The lemmas
  give each routine its reference meaning: a filled range, a copy that is correct for
  overlapping ranges, comparison of NUL-terminated prefixes, bounded copies that terminate
  their result.
\<close>

section \<open>Definitions\<close>

fun stosb :: "mem \<Rightarrow> addr \<Rightarrow> uchar \<Rightarrow> nat \<Rightarrow> mem" where
  "stosb m a c 0 = m"
| "stosb m a c (Suc n) = stosb (m(a := c)) (a + 1) c n"

fun stosl :: "mem \<Rightarrow> addr \<Rightarrow> uint \<Rightarrow> nat \<Rightarrow> mem" where
  "stosl m a v 0 = m"
| "stosl m a v (Suc n) = stosl (st32 m a v) (a + 4) v n"

definition memset :: "mem \<Rightarrow> addr \<Rightarrow> uint \<Rightarrow> uint \<Rightarrow> mem" where
  "memset m dst c n =
     (if unat dst mod 4 = 0 \<and> unat n mod 4 = 0 then
        (let c = c AND 0xFF
         in stosl m dst (push_bit 24 c OR push_bit 16 c OR push_bit 8 c OR c) (unat n div 4))
      else stosb m dst (ucast c) (unat n))"

fun memcmp_loop :: "mem \<Rightarrow> addr \<Rightarrow> addr \<Rightarrow> nat \<Rightarrow> int" where
  "memcmp_loop m s1 s2 0 = 0"
| "memcmp_loop m s1 s2 (Suc n) =
     (if m s1 \<noteq> m s2 then uint (m s1) - uint (m s2)
      else memcmp_loop m (s1 + 1) (s2 + 1) n)"

definition memcmp :: "mem \<Rightarrow> addr \<Rightarrow> addr \<Rightarrow> uint \<Rightarrow> int" where
  "memcmp m v1 v2 n = memcmp_loop m v1 v2 (unat n)"

fun copy_down :: "mem \<Rightarrow> addr \<Rightarrow> addr \<Rightarrow> nat \<Rightarrow> mem" where
  "copy_down m d s 0 = m"
| "copy_down m d s (Suc n) = (let d = d - 1; s = s - 1 in copy_down (m(d := m s)) d s n)"

fun copy_up :: "mem \<Rightarrow> addr \<Rightarrow> addr \<Rightarrow> nat \<Rightarrow> mem" where
  "copy_up m d s 0 = m"
| "copy_up m d s (Suc n) = copy_up (m(d := m s)) (d + 1) (s + 1) n"

definition memmove :: "mem \<Rightarrow> addr \<Rightarrow> addr \<Rightarrow> uint \<Rightarrow> mem" where
  "memmove m dst src n =
     (if src < dst \<and> src + n > dst then copy_down m (dst + n) (src + n) (unat n)
      else copy_up m dst src (unat n))"

definition memcpy :: "mem \<Rightarrow> addr \<Rightarrow> addr \<Rightarrow> uint \<Rightarrow> mem" where
  "memcpy m dst src n = memmove m dst src n"

fun strncmp_loop :: "mem \<Rightarrow> addr \<Rightarrow> addr \<Rightarrow> nat \<Rightarrow> int" where
  "strncmp_loop m p q 0 = 0"
| "strncmp_loop m p q (Suc n) =
     (if m p \<noteq> 0 \<and> m p = m q then strncmp_loop m (p + 1) (q + 1) n
      else uint (m p) - uint (m q))"

definition strncmp :: "mem \<Rightarrow> addr \<Rightarrow> addr \<Rightarrow> uint \<Rightarrow> int" where
  "strncmp m p q n = strncmp_loop m p q (unat n)"

text \<open>
  \<^verbatim>\<open>strncpy\<close> takes a signed count, so a count that is not positive copies nothing.  After the
  NUL has been copied the rest of the count is filled with NULs.
\<close>

fun strncpy_loop :: "mem \<Rightarrow> addr \<Rightarrow> addr \<Rightarrow> nat \<Rightarrow> mem" where
  "strncpy_loop m s t 0 = m"
| "strncpy_loop m s t (Suc n) =
     (let c = m t; m' = m(s := c)
      in if c \<noteq> 0 then strncpy_loop m' (s + 1) (t + 1) n else stosb m' (s + 1) 0 n)"

definition strncpy :: "mem \<Rightarrow> addr \<Rightarrow> addr \<Rightarrow> int \<Rightarrow> mem" where
  "strncpy m s t n = strncpy_loop m s t (nat n)"

fun safestrcpy_loop :: "mem \<Rightarrow> addr \<Rightarrow> addr \<Rightarrow> nat \<Rightarrow> mem" where
  "safestrcpy_loop m s t 0 = m(s := 0)"
| "safestrcpy_loop m s t (Suc n) =
     (let c = m t; m' = m(s := c)
      in if c \<noteq> 0 then safestrcpy_loop m' (s + 1) (t + 1) n else m'(s + 1 := 0))"

definition safestrcpy :: "mem \<Rightarrow> addr \<Rightarrow> addr \<Rightarrow> int \<Rightarrow> mem" where
  "safestrcpy m s t n = (if n \<le> 0 then m else safestrcpy_loop m s t (nat (n - 1)))"

text \<open>\<^verbatim>\<open>strlen\<close> does not return when no NUL follows; the result \<^verbatim>\<open>None\<close> is that case.\<close>

partial_function (option) strlen_from :: "mem \<Rightarrow> addr \<Rightarrow> nat \<Rightarrow> nat option" where
  "strlen_from m s n = (if m (s + of_nat n) = 0 then Some n else strlen_from m s (Suc n))"

definition strlen :: "mem \<Rightarrow> addr \<Rightarrow> nat option" where
  "strlen m s = strlen_from m s 0"

section \<open>Reading memory back\<close>

text \<open>\<^verbatim>\<open>rd m p n\<close> is the \<^verbatim>\<open>n\<close> bytes at \<^verbatim>\<open>p\<close>; \<^verbatim>\<open>cstr m p n\<close> is the C string there, cut at \<^verbatim>\<open>n\<close> bytes.\<close>

fun rd :: "mem \<Rightarrow> addr \<Rightarrow> nat \<Rightarrow> uchar list" where
  "rd m p 0 = []"
| "rd m p (Suc n) = m p # rd m (p + 1) n"

definition cstr :: "mem \<Rightarrow> addr \<Rightarrow> nat \<Rightarrow> uchar list" where
  "cstr m p n = takeWhile (\<lambda>c. c \<noteq> 0) (rd m p n)"

text \<open>The \<^verbatim>\<open>n\<close> bytes at \<^verbatim>\<open>a\<close> (wrapping around the address space) contain \<^verbatim>\<open>x\<close>.\<close>

definition in_range :: "addr \<Rightarrow> addr \<Rightarrow> nat \<Rightarrow> bool" where
  "in_range x a n \<longleftrightarrow> unat (x - a) < n"

lemma in_range_0 [simp]: "\<not> in_range x a 0"
  by (simp add: in_range_def)

lemma in_range_Suc: "in_range x a (Suc n) \<longleftrightarrow> x = a \<or> in_range x (a + 1) n"
proof (cases "x = a")
  case True
  then show ?thesis by (simp add: in_range_def)
next
  case False
  then have "x - a \<noteq> 0" by simp
  then have "unat (x - a - 1) = unat (x - a) - 1" and "0 < unat (x - a)"
    by (simp_all add: unat_minus_one unat_gt_0)
  moreover have "x - (a + 1) = x - a - 1" by simp
  ultimately show ?thesis using False unfolding in_range_def by (metis Suc_diff_1 Suc_less_eq)
qed

lemma rd_length [simp]: "length (rd m p n) = n"
  by (induction n arbitrary: p) auto

lemma rd_nth: "i < n \<Longrightarrow> rd m p n ! i = m (p + of_nat i)"
proof (induction n arbitrary: p i)
  case (Suc n)
  then show ?case by (cases i) (simp_all add: algebra_simps)
qed simp

lemma rd_cong: "(\<And>x. in_range x p n \<Longrightarrow> m x = m' x) \<Longrightarrow> rd m p n = rd m' p n"
  by (induction n arbitrary: p) (simp_all add: in_range_Suc)

lemma stosb_eq: "stosb m a c n = (\<lambda>x. if in_range x a n then c else m x)"
  by (induction n arbitrary: m a) (auto simp: in_range_Suc fun_eq_iff)

section \<open>Fill and copy\<close>

lemma stosb_append: "stosb (stosb m a c k) (a + of_nat k) c n = stosb m a c (k + n)"
proof (induction k arbitrary: m a)
  case (Suc k)
  show ?case by (simp add: add.assoc [symmetric] Suc.IH fun_upd_def)
qed simp

lemma st32_rep:
  assumes "(ucast p :: uchar) = c" "(ucast (drop_bit 8 p) :: uchar) = c"
    "(ucast (drop_bit 16 p) :: uchar) = c" "(ucast (drop_bit 24 p) :: uchar) = c"
  shows "st32 m a p = stosb m a c 4"
  using assms by (simp add: st32_def numeral_eq_Suc add.assoc)

lemma stosl_rep:
  assumes "\<And>m a. st32 m a p = stosb m a c 4"
  shows "stosl m a p n = stosb m a c (4 * n)"
proof (induction n arbitrary: m a)
  case (Suc n)
  have "stosb (stosb m a c 4) (a + 4) c (4 * n) = stosb m a c (4 + 4 * n)"
    using stosb_append [of m a c 4 "4 * n"] by simp
  then show ?case by (simp add: assms Suc.IH)
qed simp

lemma bit_0xFF: "bit (0xFF :: uint) n \<longleftrightarrow> n < 8"
proof -
  have e: "(0xFF :: uint) = mask 8" by (simp add: mask_eq_exp_minus_1)
  show ?thesis unfolding e by (auto simp: bit_mask_iff)
qed

lemma fill_pattern_bytes:
  fixes c :: uint
  defines "p \<equiv> push_bit 24 (c AND 0xFF) OR push_bit 16 (c AND 0xFF) OR push_bit 8 (c AND 0xFF) OR (c AND 0xFF)"
  shows "st32 m a p = stosb m a (ucast c) 4"
proof -
  have b: "bit p n \<longleftrightarrow> (if n < 8 then bit c n else if n < 16 then bit c (n - 8)
      else if n < 24 then bit c (n - 16) else n < 32 \<and> bit c (n - 24))" for n
    unfolding p_def bit_or_iff bit_push_bit_iff bit_and_iff bit_0xFF by auto
  show ?thesis
    by (rule st32_rep; rule bit_word_eqI; simp add: bit_unsigned_iff bit_drop_bit_eq b)
qed

lemma memset_is_stosb: "memset m dst c n = stosb m dst (ucast c) (unat n)"
proof (cases "unat dst mod 4 = 0 \<and> unat n mod 4 = 0")
  case True
  then have "4 * (unat n div 4) = unat n" by auto
  with True show ?thesis
    using stosl_rep [OF fill_pattern_bytes [of _ _ c], of m dst "unat n div 4"]
    by (simp only: memset_def Let_def if_True simp_thms)
next
  case False
  then show ?thesis by (simp only: memset_def if_False)
qed

lemma copy_up_eq:
  assumes "\<And>i j. i < j \<Longrightarrow> j < n \<Longrightarrow> d + of_nat i \<noteq> s + of_nat j"
  shows "copy_up m d s n = (\<lambda>x. if in_range x d n then m (s + (x - d)) else m x)"
  using assms
proof (induction n arbitrary: m d s)
  case (Suc n)
  have IH: "copy_up (m(d := m s)) (d + 1) (s + 1) n =
    (\<lambda>x. if in_range x (d + 1) n then (m(d := m s)) (s + 1 + (x - (d + 1))) else (m(d := m s)) x)"
  proof (rule Suc.IH)
    fix i j assume "i < j" "j < n"
    then show "d + 1 + of_nat i \<noteq> s + 1 + of_nat j"
      using Suc.prems [of "Suc i" "Suc j"] by (simp add: algebra_simps)
  qed
  have nz: "s + (x - d) \<noteq> d" if "in_range x (d + 1) n" "x \<noteq> d" for x
  proof -
    from that have r: "in_range x d (Suc n)" by (simp add: in_range_Suc)
    then have "unat (x - d) < Suc n" by (simp add: in_range_def)
    moreover from that(2) have "0 < unat (x - d)" by (simp add: unat_gt_0)
    ultimately have "d + of_nat 0 \<noteq> s + of_nat (unat (x - d))" by (intro Suc.prems) auto
    then show ?thesis by simp
  qed
  show ?case
  proof (rule ext)
    fix x
    show "copy_up m d s (Suc n) x = (if in_range x d (Suc n) then m (s + (x - d)) else m x)"
      using nz [of x] by (cases "x = d") (auto simp: IH in_range_Suc)
  qed
qed simp

lemma in_range_snoc:
  assumes "n < 2 ^ 32"
  shows "in_range x d (Suc n) \<longleftrightarrow> in_range x d n \<or> x = d + of_nat n"
proof -
  have "unat (x - d) = n \<longleftrightarrow> x = d + of_nat n"
  proof
    assume "unat (x - d) = n"
    then have "of_nat (unat (x - d)) = (of_nat n :: addr)" by simp
    then show "x = d + of_nat n" by (simp add: algebra_simps)
  next
    assume "x = d + of_nat n"
    then show "unat (x - d) = n" using assms by (simp add: unat_of_nat_uint)
  qed
  then show ?thesis by (auto simp: in_range_def)
qed

lemma copy_down_eq:
  assumes "\<And>i j. j < i \<Longrightarrow> i < n \<Longrightarrow> d + of_nat i \<noteq> s + of_nat j" and "n \<le> 2 ^ 32"
  shows "copy_down m (d + of_nat n) (s + of_nat n) n
     = (\<lambda>x. if in_range x d n then m (s + (x - d)) else m x)"
  using assms
proof (induction n arbitrary: m)
  case (Suc n)
  let ?m = "m(d + of_nat n := m (s + of_nat n))"
  have IH: "copy_down ?m (d + of_nat n) (s + of_nat n) n
      = (\<lambda>x. if in_range x d n then ?m (s + (x - d)) else ?m x)"
    using Suc.prems by (intro Suc.IH) auto
  have nz: "s + (x - d) \<noteq> d + of_nat n" if "in_range x d n" for x
  proof -
    from that have "unat (x - d) < n" by (simp add: in_range_def)
    with Suc.prems(1) [of "unat (x - d)" n] show ?thesis by auto
  qed
  have "copy_down m (d + of_nat (Suc n)) (s + of_nat (Suc n)) (Suc n)
      = copy_down ?m (d + of_nat n) (s + of_nat n) n"
    by (simp add: Let_def)
  moreover have "n < 2 ^ 32" using Suc.prems(2) by simp
  ultimately show ?case
    by (auto simp: IH fun_eq_iff in_range_snoc nz)
qed simp

lemma word_offset_eq:
  fixes a b :: addr
  assumes "unat a + i < 2 ^ 32" "unat b + j < 2 ^ 32" "a + of_nat i = b + of_nat j"
  shows "unat a + i = unat b + j"
proof -
  have "unat (a + of_nat i) = unat a + i" "unat (b + of_nat j) = unat b + j"
    using assms(1,2) by (simp_all add: unat_word_ariths unat_of_nat take_bit_eq_mod)
  with assms(3) show ?thesis by simp
qed

lemma memmove_eq:
  assumes "unat src + unat n < 2 ^ 32" and "unat dst + unat n \<le> 2 ^ 32"
  shows "memmove m dst src n = (\<lambda>x. if in_range x dst (unat n) then m (src + (x - dst)) else m x)"
proof (cases "src < dst \<and> src + n > dst")
  case True
  have "dst + of_nat i \<noteq> src + of_nat j" if "j < i" "i < unat n" for i j
    using word_offset_eq [of dst i src j] that assms True by (auto simp: word_less_nat_alt)
  then have "copy_down m (dst + of_nat (unat n)) (src + of_nat (unat n)) (unat n)
      = (\<lambda>x. if in_range x dst (unat n) then m (src + (x - dst)) else m x)"
    by (intro copy_down_eq) (auto simp: less_imp_le)
  with True show ?thesis by (simp add: memmove_def)
next
  case False
  have "dst + of_nat i \<noteq> src + of_nat j" if "i < j" "j < unat n" for i j
  proof
    assume "dst + of_nat i = src + of_nat j"
    then have e: "unat dst + i = unat src + j"
      using word_offset_eq [of dst i src j] that assms by simp
    have "unat (src + n) = unat src + unat n"
      using assms(1) by (simp add: unat_word_ariths)
    with e that have "src < dst \<and> src + n > dst" by (simp add: word_less_nat_alt)
    with False show False by simp
  qed
  then have "copy_up m dst src (unat n)
      = (\<lambda>x. if in_range x dst (unat n) then m (src + (x - dst)) else m x)"
    by (rule copy_up_eq)
  with False show ?thesis by (simp only: memmove_def if_False)
qed

lemma unat_numeral_uint_max: "unat (0xFFFFFFFF :: addr) = 4294967295"
  by simp

section \<open>Comparison\<close>

lemma memcmp_loop_0: "memcmp_loop m p q n = 0 \<longleftrightarrow> rd m p n = rd m q n"
  by (induction n arbitrary: p q) (auto simp: word_uint_eq_iff)

lemma strncmp_loop_0: "strncmp_loop m p q n = 0 \<longleftrightarrow> cstr m p n = cstr m q n"
  by (induction n arbitrary: p q) (auto simp: cstr_def word_uint_eq_iff)

section \<open>Bounded string copies\<close>

lemma not_in_range_next: "Suc n \<le> 2 ^ 32 \<Longrightarrow> \<not> in_range s (s + 1) n"
proof -
  assume "Suc n \<le> 2 ^ 32"
  then have "n \<le> 4294967295" by simp
  moreover have "unat (s - (s + 1)) = 4294967295"
  proof -
    have "s - (s + 1) = -1" and "(-1 :: addr) = 0xFFFFFFFF" by simp_all
    then have "s - (s + 1) = 0xFFFFFFFF" by metis
    then show ?thesis by (metis unat_numeral_uint_max)
  qed
  ultimately show ?thesis unfolding in_range_def by linarith
qed

lemma in_range_self [simp]: "0 < n \<Longrightarrow> in_range s s n"
  by (simp add: in_range_def)

lemma cstr_Suc: "cstr m p (Suc n) = (if m p = 0 then [] else m p # cstr m (p + 1) n)"
  by (simp add: cstr_def)

lemma cstr_cong: "(\<And>x. in_range x p n \<Longrightarrow> m x = m' x) \<Longrightarrow> cstr m p n = cstr m' p n"
  unfolding cstr_def by (subst rd_cong [of p n m m']) auto

lemma strncpy_loop_frame: "\<not> in_range x s n \<Longrightarrow> strncpy_loop m s t n x = m x"
proof (induction n arbitrary: m s t)
  case (Suc n)
  then show ?case by (auto simp: in_range_Suc Let_def stosb_eq)
qed simp

lemma rd_stosb_same: "n \<le> 2 ^ 32 \<Longrightarrow> rd (stosb m a c n) a n = replicate n c"
  by (rule nth_equalityI) (auto simp: rd_nth stosb_eq in_range_def unat_of_nat_uint)

lemma strncpy_loop_bytes:
  assumes "n \<le> 2 ^ 32" and "\<And>x. in_range x s n \<Longrightarrow> \<not> in_range x t n"
  shows "rd (strncpy_loop m s t n) s n = cstr m t n @ replicate (n - length (cstr m t n)) 0"
  using assms
proof (induction n arbitrary: m s t)
  case (Suc n)
  let ?m = "m(s := m t)"
  have st: "\<not> in_range s (t + 1) n"
    using Suc.prems(2) [of s] by (simp add: in_range_Suc)
  have ns: "\<not> in_range s (s + 1) n" using Suc.prems(1) by (rule not_in_range_next)
  show ?case
  proof (cases "m t = 0")
    case True
    then show ?thesis
      using Suc.prems(1) rd_stosb_same [of n ?m "s + 1" 0] ns
      by (simp add: cstr_Suc stosb_eq)
  next
    case False
    have "rd (strncpy_loop ?m (s + 1) (t + 1) n) (s + 1) n
        = cstr ?m (t + 1) n @ replicate (n - length (cstr ?m (t + 1) n)) 0"
      using Suc.prems by (intro Suc.IH) (auto simp: in_range_Suc)
    moreover have "cstr ?m (t + 1) n = cstr m (t + 1) n"
      using st by (intro cstr_cong) auto
    ultimately show ?thesis
      using False ns by (simp add: cstr_Suc strncpy_loop_frame)
  qed
qed (simp add: cstr_def)

lemma safestrcpy_loop_frame: "\<not> in_range x s (Suc n) \<Longrightarrow> safestrcpy_loop m s t n x = m x"
proof (induction n arbitrary: m s t)
  case (Suc n)
  then show ?case by (auto simp: in_range_Suc [of _ _ "Suc _"] in_range_Suc [of _ "s + 1"] Let_def)
qed (simp add: in_range_Suc)

lemma safestrcpy_loop_cstr:
  assumes "Suc n \<le> 2 ^ 32" and "\<And>x. in_range x s (Suc n) \<Longrightarrow> \<not> in_range x t n"
  shows "cstr (safestrcpy_loop m s t n) s (Suc n) = cstr m t n"
  using assms
proof (induction n arbitrary: m s t)
  case (Suc n)
  let ?m = "m(s := m t)"
  have st: "\<not> in_range s (t + 1) n"
    using Suc.prems(2) [of s] by (simp add: in_range_Suc)
  have ns: "\<not> in_range s (s + 1) (Suc n)" using Suc.prems(1) by (rule not_in_range_next)
  show ?case
  proof (cases "m t = 0")
    case True
    then show ?thesis by (simp add: cstr_Suc)
  next
    case False
    have "cstr (safestrcpy_loop ?m (s + 1) (t + 1) n) (s + 1) (Suc n) = cstr ?m (t + 1) n"
      using Suc.prems by (intro Suc.IH) (auto simp: in_range_Suc)
    moreover have "cstr ?m (t + 1) n = cstr m (t + 1) n"
      using st by (intro cstr_cong) auto
    ultimately show ?thesis
      using False ns by (simp add: cstr_Suc [of _ s] cstr_Suc [of _ t] safestrcpy_loop_frame)
  qed
qed (simp add: cstr_def)

section \<open>String length\<close>

lemma strlen_from_Some:
  assumes "strlen_from m s n = Some k"
  shows "n \<le> k \<and> m (s + of_nat k) = 0 \<and> (\<forall>i. n \<le> i \<longrightarrow> i < k \<longrightarrow> m (s + of_nat i) \<noteq> 0)"
proof (rule strlen_from.raw_induct [where P = "\<lambda>m s n k. n \<le> k \<and> m (s + of_nat k) = 0
    \<and> (\<forall>i. n \<le> i \<longrightarrow> i < k \<longrightarrow> m (s + of_nat i) \<noteq> 0)", OF _ assms])
  fix f m s n k
  assume IH: "\<And>m s n k. f m s n = Some k \<Longrightarrow> n \<le> k \<and> m (s + of_nat k) = 0
      \<and> (\<forall>i. n \<le> i \<longrightarrow> i < k \<longrightarrow> m (s + of_nat i) \<noteq> 0)"
    and eq: "(if m (s + of_nat n) = 0 then Some n else f m s (Suc n)) = Some k"
  show "n \<le> k \<and> m (s + of_nat k) = 0 \<and> (\<forall>i. n \<le> i \<longrightarrow> i < k \<longrightarrow> m (s + of_nat i) \<noteq> 0)"
  proof (cases "m (s + of_nat n) = 0")
    case False
    with eq have "f m s (Suc n) = Some k" by simp
    with IH False show ?thesis by (metis Suc_leD Suc_leI le_neq_implies_less)
  qed (use eq in auto)
qed

lemma strlen_from_reaches:
  assumes "n \<le> k" "m (s + of_nat k) = 0" "\<forall>i. n \<le> i \<longrightarrow> i < k \<longrightarrow> m (s + of_nat i) \<noteq> 0"
  shows "strlen_from m s n = Some k"
  using assms
proof (induction "k - n" arbitrary: n)
  case 0
  then have "n = k" by simp
  with 0 show ?case by (subst strlen_from.simps) simp
next
  case (Suc d)
  then have "m (s + of_nat n) \<noteq> 0" by auto
  moreover have "strlen_from m s (Suc n) = Some k" using Suc by auto
  ultimately show ?case by (subst strlen_from.simps) simp
qed

lemma strlen_Some_iff:
  "strlen m s = Some k \<longleftrightarrow> m (s + of_nat k) = 0 \<and> (\<forall>i < k. m (s + of_nat i) \<noteq> 0)"
proof
  assume "strlen m s = Some k"
  then show "m (s + of_nat k) = 0 \<and> (\<forall>i < k. m (s + of_nat i) \<noteq> 0)"
    using strlen_from_Some [of m s 0 k] unfolding strlen_def by blast
next
  assume "m (s + of_nat k) = 0 \<and> (\<forall>i < k. m (s + of_nat i) \<noteq> 0)"
  then show "strlen m s = Some k"
    unfolding strlen_def by (intro strlen_from_reaches) blast+
qed

section \<open>Ranges that do not wrap\<close>

lemma in_range_nat:
  assumes "unat a + n \<le> 2 ^ 32"
  shows "in_range x a n \<longleftrightarrow> unat a \<le> unat x \<and> unat x < unat a + n"
proof -
  have "unat (x - a) = (if unat a \<le> unat x then unat x - unat a else unat x + 2 ^ 32 - unat a)"
    using unat_sub_if' [of x a] by simp
  then show ?thesis using assms unfolding in_range_def by auto
qed

section \<open>Properties\<close>

text \<open>
  C11: \<^verbatim>\<open>memmove\<close> copies the \<^verbatim>\<open>n\<close> source bytes as they were before the call to the destination and
  changes nothing else, for source and destination ranges that may overlap in any way (the two
  ranges do not wrap around the address space).
\<close>

theorem memmove_correct:
  assumes "unat src + unat n < 2 ^ 32" and "unat dst + unat n \<le> 2 ^ 32"
  shows "(\<forall>i < unat n. memmove m dst src n (dst + of_nat i) = m (src + of_nat i))
     \<and> (\<forall>x. \<not> in_range x dst (unat n) \<longrightarrow> memmove m dst src n x = m x)"
proof -
  have "memmove m dst src n (dst + of_nat i) = m (src + of_nat i)" if i: "i < unat n" for i
  proof -
    from i have "i < 4294967296" using unat_uint_less [of n] by linarith
    with i show ?thesis using memmove_eq [OF assms] by (simp add: in_range_def unat_of_nat_uint)
  qed
  then show ?thesis using memmove_eq [OF assms] by simp
qed

theorem memmove_correct_witness:
  "memmove (\<lambda>a. ucast a) 0x1004 0x1000 8 (0x1004 + of_nat 5) = 5
     \<and> memmove (\<lambda>a. ucast a) 0x1004 0x1000 8 0x100C = 0x0C"
proof -
  have a: "(\<forall>i < unat (8 :: uint). memmove (\<lambda>a. ucast a) 0x1004 0x1000 8 (0x1004 + of_nat i)
        = ucast (0x1000 + of_nat i :: addr))
     \<and> (\<forall>x. \<not> in_range x 0x1004 (unat (8 :: uint)) \<longrightarrow> memmove (\<lambda>a. ucast a) 0x1004 0x1000 8 x = ucast x)"
    by (rule memmove_correct) simp_all
  have "memmove (\<lambda>a. ucast a) 0x1004 0x1000 8 (0x1004 + of_nat 5) = ucast (0x1000 + of_nat 5 :: addr)"
    by (rule a [THEN conjunct1, rule_format]) simp
  moreover have "memmove (\<lambda>a. ucast a) 0x1004 0x1000 8 0x100C = ucast (0x100C :: addr)"
    using a by (simp add: in_range_def)
  ultimately show ?thesis by simp
qed

text \<open>
  \<^verbatim>\<open>memset\<close> stores the low byte of \<^verbatim>\<open>c\<close> in exactly the \<^verbatim>\<open>n\<close> bytes from \<^verbatim>\<open>dst\<close>, whichever of its two
  paths (four bytes at a time, or one) it takes.
\<close>

theorem memset_fills:
  "memset m dst c n = (\<lambda>x. if in_range x dst (unat n) then ucast c else m x)"
  by (simp add: memset_is_stosb stosb_eq)

text \<open>
  \<^verbatim>\<open>strncpy\<close> and \<^verbatim>\<open>strncmp\<close> agree: after copying a string of any length into a disjoint
  buffer of \<^verbatim>\<open>n\<close> bytes, comparing the two for \<^verbatim>\<open>n\<close> bytes says equal, every byte after the copied
  characters is NUL, and \<^verbatim>\<open>strncmp\<close> says equal only for strings with the same first \<^verbatim>\<open>n\<close> characters.
\<close>

theorem strncpy_then_strncmp:
  assumes "\<And>x. in_range x s (unat n) \<Longrightarrow> \<not> in_range x t (unat n)"
  shows "strncmp (strncpy m s t (uint n)) s t n = 0
     \<and> rd (strncpy m s t (uint n)) s (unat n)
         = cstr m t (unat n) @ replicate (unat n - length (cstr m t (unat n))) 0
     \<and> (strncmp m p q n = 0 \<longleftrightarrow> cstr m p (unat n) = cstr m q (unat n))"
proof -
  let ?m = "strncpy_loop m s t (unat n)"
  have b: "rd ?m s (unat n) = cstr m t (unat n) @ replicate (unat n - length (cstr m t (unat n))) 0"
    using assms by (intro strncpy_loop_bytes) (simp_all add: less_imp_le)
  have t: "cstr ?m t (unat n) = cstr m t (unat n)"
    using assms by (intro cstr_cong) (auto intro!: strncpy_loop_frame)
  have nz: "\<forall>c \<in> set (cstr m t (unat n)). c \<noteq> 0"
    by (auto simp: cstr_def dest: set_takeWhileD)
  then have "cstr ?m s (unat n) = cstr m t (unat n)"
    unfolding cstr_def [of ?m s] b by (simp add: takeWhile_append2 takeWhile_replicate)
  with t b show ?thesis by (simp add: strncmp_def strncpy_def strncmp_loop_0)
qed

theorem strncpy_then_strncmp_witness:
  "strncmp (strncpy (\<lambda>a. if a = 0x2003 then 0 else 65) 0x1000 0x2000 (uint (6 :: uint))) 0x1000 0x2000 6 = 0"
proof -
  have d: "\<not> in_range x 0x2000 (unat (6 :: uint))" if "in_range x 0x1000 (unat (6 :: uint))" for x :: addr
    using that by (simp add: in_range_nat)
  show ?thesis by (rule strncpy_then_strncmp [THEN conjunct1]) (rule d)
qed

text \<open>
  \<^verbatim>\<open>safestrcpy\<close> always leaves a terminated string: with \<^verbatim>\<open>n > 0\<close> and a disjoint source, the
  destination holds the source string cut to \<^verbatim>\<open>n - 1\<close> characters, its NUL lies inside the
  \<^verbatim>\<open>n\<close>-byte buffer, and no byte outside the buffer changes.
\<close>

theorem safestrcpy_terminates:
  assumes "0 < n" and "n \<le> 2 ^ 31" and "\<And>x. in_range x s (nat n) \<Longrightarrow> \<not> in_range x t (nat n)"
  shows "cstr (safestrcpy m s t n) s (nat n) = cstr m t (nat n - 1)
     \<and> length (cstr (safestrcpy m s t n) s (nat n)) < nat n
     \<and> (\<forall>x. \<not> in_range x s (nat n) \<longrightarrow> safestrcpy m s t n x = m x)"
proof -
  obtain k where k: "nat n = Suc k" using assms(1) by (metis gr0_implies_Suc zero_less_nat_eq)
  then have l: "nat (n - 1) = k" by linarith
  have ir: "in_range x t k \<Longrightarrow> in_range x t (Suc k)" for x by (simp add: in_range_def)
  have "Suc k \<le> 2 ^ 32" using k assms(2) by simp
  then have e: "cstr (safestrcpy_loop m s t k) s (Suc k) = cstr m t k"
    using assms(3) ir unfolding k by (intro safestrcpy_loop_cstr) blast+
  have "length (cstr m t k) \<le> k"
    unfolding cstr_def by (metis length_takeWhile_le rd_length)
  with e k l assms(1) show ?thesis
    by (simp add: safestrcpy_def safestrcpy_loop_frame)
qed

theorem safestrcpy_terminates_witness:
  "cstr (safestrcpy (\<lambda>a. 65) 0x1000 0x2000 4) 0x1000 4 = [65, 65, 65]"
proof -
  have d: "\<not> in_range x 0x2000 (nat 4)" if "in_range x 0x1000 (nat 4)" for x :: addr
    using that by (simp add: in_range_nat)
  have "cstr (safestrcpy (\<lambda>a. 65) 0x1000 0x2000 4) 0x1000 (nat 4) = cstr (\<lambda>a. 65) 0x2000 (nat 4 - 1)"
    using safestrcpy_terminates [OF _ _ d, where m = "\<lambda>a. 65"] by simp
  moreover have "cstr (\<lambda>a. 65) 0x2000 (Suc (Suc (Suc 0))) = [65, 65, 65]"
    by (simp add: cstr_def)
  moreover have "nat 4 - 1 = Suc (Suc (Suc 0))" and "nat 4 = 4" by simp_all
  ultimately show ?thesis by metis
qed

end
