(* ===== verification/Fs_c.thy ===== *)
theory Fs_c
  imports Fs_h Log_c String_c
begin

text \<open>
  The file system (\<^verbatim>\<open>fs.c\<close>): block allocation, inodes, file contents, directories and path names, over
  the log.  The state extends that of the log with the superblock in memory and the inode cache.
  An inode pointer is the index of its cache entry; null pointers are \<^verbatim>\<open>None\<close> where a function can
  return one, and are never passed on.  \<^verbatim>\<open>icache.lock\<close> is held only inside a function and is not
  represented.  Buffers outside the file system (\<^verbatim>\<open>dst\<close>, \<^verbatim>\<open>src\<close>) are the byte sequences that are copied; path
  names are the bytes before the terminator.
\<close>

unbundle bit_operations_syntax

section \<open>Definitions\<close>

definition NINODE :: nat where "NINODE = 50"
definition NDEV :: int where "NDEV = 10"

record inode = dinode +
  idev :: uint
  inum :: uint
  iref :: int
  ilk :: sleeplock
  ivalid :: bool

record fsst = logst +
  sb :: superblock
  inodes :: "inode list"

subsection \<open>Blocks\<close>

text \<open>The sequence most updates of a block are made of: \<^verbatim>\<open>bread\<close>, change the data, \<^verbatim>\<open>log_write\<close>, \<^verbatim>\<open>brelse\<close>.\<close>

definition logged_write :: "uint \<Rightarrow> uint \<Rightarrow> (block \<Rightarrow> block) \<Rightarrow> 'a logst_scheme \<Rightarrow> 'a logst_scheme res" where
  "logged_write dev b f s =
     bindE (bread dev b s) (\<lambda>(bp, s).
     bindE (log_write bp (set_bdata bp (f (bdata bp s)) s)) (\<lambda>s. brelse bp s))"

definition bzero :: "uint \<Rightarrow> uint \<Rightarrow> 'a logst_scheme \<Rightarrow> 'a logst_scheme res" where
  "bzero dev bno s = logged_write dev bno (\<lambda>_. replicate BSIZE 0) s"

definition bmask :: "nat \<Rightarrow> uchar" where
  "bmask bi = push_bit (bi mod 8) 1"

definition in_use :: "block \<Rightarrow> nat \<Rightarrow> bool" where
  "in_use d bi \<longleftrightarrow> (d ! (bi div 8)) AND bmask bi \<noteq> 0"

definition mark_used :: "nat \<Rightarrow> block \<Rightarrow> block" where
  "mark_used bi d = d[bi div 8 := (d ! (bi div 8)) OR bmask bi]"

definition mark_free :: "nat \<Rightarrow> block \<Rightarrow> block" where
  "mark_free bi d = d[bi div 8 := (d ! (bi div 8)) AND NOT (bmask bi)]"

text \<open>The outer loop of \<^verbatim>\<open>balloc\<close>; \<^verbatim>\<open>sz\<close> is \<^verbatim>\<open>sb.size\<close>.  The inner loop looks for the first free bit.\<close>

function balloc_loop :: "uint \<Rightarrow> nat \<Rightarrow> nat \<Rightarrow> 'a fsst_scheme \<Rightarrow> (uint \<times> 'a fsst_scheme) res" where
  "balloc_loop dev sz b s =
     (if b < sz then
        bindE (bread dev (BBLOCK (of_nat b) (sb s)) s) (\<lambda>(bp, s).
          case find (\<lambda>bi. \<not> in_use (bdata bp s) bi) [0..<min BPB (sz - b)] of
            Some bi \<Rightarrow>
              bindE (log_write bp (set_bdata bp (mark_used bi (bdata bp s)) s)) (\<lambda>s.
              bindE (brelse bp s) (\<lambda>s.
              bindE (bzero dev (of_nat (b + bi)) s) (\<lambda>s. Inr (of_nat (b + bi), s))))
          | None \<Rightarrow> bindE (brelse bp s) (\<lambda>s. balloc_loop dev sz (b + BPB) s))
      else Inl (Panic ''balloc: out of blocks''))"
  by pat_completeness auto
termination
  by (relation "measure (\<lambda>(dev, sz, b, s). sz - b)") (auto simp: BPB_def BSIZE_def)

declare balloc_loop.simps [simp del]

definition balloc :: "uint \<Rightarrow> 'a fsst_scheme \<Rightarrow> (uint \<times> 'a fsst_scheme) res" where
  "balloc dev s = balloc_loop dev (unat (sb_size (sb s))) 0 s"

definition bfree :: "uint \<Rightarrow> uint \<Rightarrow> 'a fsst_scheme \<Rightarrow> 'a fsst_scheme res" where
  "bfree dev b s =
     bindE (bread dev (BBLOCK b (sb s)) s) (\<lambda>(bp, s).
       let bi = unat b mod BPB in
       if \<not> in_use (bdata bp s) bi then Inl (Panic ''freeing free block'')
       else bindE (log_write bp (set_bdata bp (mark_free bi (bdata bp s)) s)) (\<lambda>s. brelse bp s))"

subsection \<open>Inodes\<close>

definition upd_inode :: "nat \<Rightarrow> (inode \<Rightarrow> inode) \<Rightarrow> 'a fsst_scheme \<Rightarrow> 'a fsst_scheme" where
  "upd_inode ip f s = s\<lparr>inodes := (inodes s)[ip := f (inodes s ! ip)]\<rparr>"

text \<open>\<^verbatim>\<open>iinit\<close>, without the message it prints.\<close>

definition iinit :: "uint \<Rightarrow> 'a fsst_scheme \<Rightarrow> 'a fsst_scheme res" where
  "iinit dev s =
     (let s = s\<lparr>inodes := map (ilk_update (\<lambda>_. initsleeplock)) (inodes s)\<rparr> in
      bindE (readsb dev s) (\<lambda>(sb', s). Inr (s\<lparr>sb := sb'\<rparr>)))"

definition iget :: "uint \<Rightarrow> uint \<Rightarrow> 'a fsst_scheme \<Rightarrow> (nat \<times> 'a fsst_scheme) res" where
  "iget dev n s =
     (case find (\<lambda>i. iref (inodes s ! i) > 0 \<and> idev (inodes s ! i) = dev \<and> inum (inodes s ! i) = n) [0..<NINODE] of
        Some i \<Rightarrow> Inr (i, upd_inode i (\<lambda>ip. ip\<lparr>iref := iref ip + 1\<rparr>) s)
      | None \<Rightarrow>
          case find (\<lambda>i. iref (inodes s ! i) = 0) [0..<NINODE] of
            None \<Rightarrow> Inl (Panic ''iget: no inodes'')
          | Some i \<Rightarrow> Inr (i, upd_inode i (\<lambda>ip. ip\<lparr>idev := dev, inum := n, iref := 1, ivalid := False\<rparr>) s))"

definition idup :: "nat \<Rightarrow> 'a fsst_scheme \<Rightarrow> nat \<times> 'a fsst_scheme" where
  "idup ip s = (ip, upd_inode ip (\<lambda>i. i\<lparr>iref := iref i + 1\<rparr>) s)"

text \<open>The loop of \<^verbatim>\<open>ialloc\<close> over the inode numbers that are left.\<close>

fun ialloc_loop :: "uint \<Rightarrow> ushort \<Rightarrow> nat list \<Rightarrow> 'a fsst_scheme \<Rightarrow> (nat \<times> 'a fsst_scheme) res" where
  "ialloc_loop dev type [] s = Inl (Panic ''ialloc: no inodes'')"
| "ialloc_loop dev type (n # ns) s =
     bindE (bread dev (IBLOCK (of_nat n) (sb s)) s) (\<lambda>(bp, s).
       let p = dip (of_nat n); d = bdata bp s in
       if get16 p d = 0 then
         let d = put16 p type (take p d @ replicate 64 0 @ drop (p + 64) d) in
         bindE (log_write bp (set_bdata bp d s)) (\<lambda>s. bindE (brelse bp s) (\<lambda>s. iget dev (of_nat n) s))
       else bindE (brelse bp s) (\<lambda>s. ialloc_loop dev type ns s))"

definition ialloc :: "uint \<Rightarrow> ushort \<Rightarrow> 'a fsst_scheme \<Rightarrow> (nat \<times> 'a fsst_scheme) res" where
  "ialloc dev type s = ialloc_loop dev type [1..<unat (sb_ninodes (sb s))] s"

definition iupdate :: "nat \<Rightarrow> 'a fsst_scheme \<Rightarrow> 'a fsst_scheme res" where
  "iupdate ip s =
     (let i = inodes s ! ip
      in logged_write (idev i) (IBLOCK (inum i) (sb s)) (put_dinode (dip (inum i)) i) s)"

definition load_dinode :: "dinode \<Rightarrow> inode \<Rightarrow> inode" where
  "load_dinode d i = i\<lparr>itype := itype d, major := major d, minor := minor d, nlink := nlink d, isize := isize d, addrs := addrs d\<rparr>"

definition ilock :: "nat \<Rightarrow> 'a fsst_scheme \<Rightarrow> 'a fsst_scheme res" where
  "ilock ip s =
     (if iref (inodes s ! ip) < 1 then Inl (Panic ''ilock'')
      else bindE (acquiresleep (curpid s) (ilk (inodes s ! ip))) (\<lambda>l.
        let s = upd_inode ip (ilk_update (\<lambda>_. l)) s; i = inodes s ! ip in
        if \<not> ivalid i then
          bindE (bread (idev i) (IBLOCK (inum i) (sb s)) s) (\<lambda>(bp, s).
            let s = upd_inode ip (load_dinode (get_dinode (dip (inum i)) (bdata bp s))) s in
            bindE (brelse bp s) (\<lambda>s.
              let s = upd_inode ip (ivalid_update (\<lambda>_. True)) s in
              if itype (inodes s ! ip) = 0 then Inl (Panic ''ilock: no type'') else Inr s))
        else Inr s))"

definition iunlock :: "nat \<Rightarrow> 'a fsst_scheme \<Rightarrow> 'a fsst_scheme res" where
  "iunlock ip s =
     (let i = inodes s ! ip in
      if \<not> holdingsleep (curpid s) (ilk i) \<or> iref i < 1 then Inl (Panic ''iunlock'')
      else Inr (upd_inode ip (ilk_update releasesleep) s))"

subsection \<open>Contents of an inode\<close>

text \<open>
  \<^verbatim>\<open>bmap\<close>: the block number of block \<^verbatim>\<open>bn\<close> of the file, allocating it if there is none.  While it allocates
  an entry of the indirect block it holds that block.
\<close>

definition bmap :: "nat \<Rightarrow> nat \<Rightarrow> 'a fsst_scheme \<Rightarrow> (uint \<times> 'a fsst_scheme) res" where
  "bmap ip bn s =
     (let dev = idev (inodes s ! ip);
          alloc = (\<lambda>k s. if addrs (inodes s ! ip) ! k = 0 then
                     bindE (balloc dev s) (\<lambda>(a, s). Inr (a, upd_inode ip (addrs_update (\<lambda>as. as[k := a])) s))
                   else Inr (addrs (inodes s ! ip) ! k, s))
      in if bn < NDIRECT then alloc bn s
         else if bn - NDIRECT < NINDIRECT then
           bindE (alloc NDIRECT s) (\<lambda>(addr, s).
           bindE (bread dev addr s) (\<lambda>(bp, s).
             let a = get32 (4 * (bn - NDIRECT)) (bdata bp s) in
             if a = 0 then
               bindE (balloc dev s) (\<lambda>(a, s).
               bindE (log_write bp (set_bdata bp (put32 (4 * (bn - NDIRECT)) a (bdata bp s)) s)) (\<lambda>s.
               bindE (brelse bp s) (\<lambda>s. Inr (a, s))))
             else bindE (brelse bp s) (\<lambda>s. Inr (a, s))))
         else Inl (Panic ''bmap: out of range''))"

text \<open>\<^verbatim>\<open>itrunc\<close>: the loop over the direct blocks, and the one over the entries of the indirect block.\<close>

definition itrunc_direct :: "nat \<Rightarrow> nat \<Rightarrow> 'a fsst_scheme \<Rightarrow> 'a fsst_scheme res" where
  "itrunc_direct ip k s =
     (let i = inodes s ! ip in
      if addrs i ! k \<noteq> 0 then
        bindE (bfree (idev i) (addrs i ! k) s) (\<lambda>s. Inr (upd_inode ip (addrs_update (\<lambda>as. as[k := 0])) s))
      else Inr s)"

definition itrunc_entry :: "uint \<Rightarrow> nat \<Rightarrow> nat \<Rightarrow> 'a fsst_scheme \<Rightarrow> 'a fsst_scheme res" where
  "itrunc_entry dev bp j s =
     (let a = get32 (4 * j) (bdata bp s) in if a \<noteq> 0 then bfree dev a s else Inr s)"

definition itrunc :: "nat \<Rightarrow> 'a fsst_scheme \<Rightarrow> 'a fsst_scheme res" where
  "itrunc ip s =
     bindE (foldE (itrunc_direct ip) [0..<NDIRECT] s) (\<lambda>s.
     bindE (let i = inodes s ! ip; dev = idev i in
            if addrs i ! NDIRECT \<noteq> 0 then
              bindE (bread dev (addrs i ! NDIRECT) s) (\<lambda>(bp, s).
              bindE (foldE (itrunc_entry dev bp) [0..<NINDIRECT] s) (\<lambda>s.
              bindE (brelse bp s) (\<lambda>s.
              bindE (bfree dev (addrs i ! NDIRECT) s) (\<lambda>s.
                Inr (upd_inode ip (addrs_update (\<lambda>as. as[NDIRECT := 0])) s)))))
            else Inr s) (\<lambda>s.
     iupdate ip (upd_inode ip (isize_update (\<lambda>_. 0)) s)))"

definition iput :: "nat \<Rightarrow> 'a fsst_scheme \<Rightarrow> 'a fsst_scheme res" where
  "iput ip s =
     bindE (acquiresleep (curpid s) (ilk (inodes s ! ip))) (\<lambda>l.
       let s = upd_inode ip (ilk_update (\<lambda>_. l)) s; i = inodes s ! ip in
       bindE (if ivalid i \<and> nlink i = 0 \<and> iref i = 1 then
                bindE (itrunc ip s) (\<lambda>s.
                bindE (iupdate ip (upd_inode ip (itype_update (\<lambda>_. 0)) s)) (\<lambda>s.
                  Inr (upd_inode ip (ivalid_update (\<lambda>_. False)) s)))
              else Inr s) (\<lambda>s.
       Inr (upd_inode ip (\<lambda>i. i\<lparr>iref := iref i - 1\<rparr>) (upd_inode ip (ilk_update releasesleep) s))))"

definition iunlockput :: "nat \<Rightarrow> 'a fsst_scheme \<Rightarrow> 'a fsst_scheme res" where
  "iunlockput ip s = bindE (iunlock ip s) (iput ip)"

record stat =
  st_type :: ushort
  st_dev :: uint
  st_ino :: uint
  st_nlink :: ushort
  st_size :: uint

definition stati :: "nat \<Rightarrow> 'a fsst_scheme \<Rightarrow> stat" where
  "stati ip s =
     (let i = inodes s ! ip
      in \<lparr>st_type = itype i, st_dev = idev i, st_ino = inum i, st_nlink = nlink i, st_size = isize i\<rparr>)"

text \<open>
  The device table \<^verbatim>\<open>devsw\<close>: the read and write functions of each major number, if it has them, which get
  the inode and the number of bytes or the bytes.
\<close>

type_synonym 's dev_read = "nat \<Rightarrow> uint \<Rightarrow> 's \<Rightarrow> (int \<times> uchar list \<times> 's) res"
type_synonym 's dev_write = "nat \<Rightarrow> uchar list \<Rightarrow> 's \<Rightarrow> (int \<times> 's) res"
type_synonym 's devsw = "nat \<Rightarrow> 's dev_read option \<times> 's dev_write option"

text \<open>The loops of \<^verbatim>\<open>readi\<close> and \<^verbatim>\<open>writei\<close> with \<^verbatim>\<open>n\<close> bytes still to go; the offset has been checked not to wrap.\<close>

function readi_loop :: "nat \<Rightarrow> nat \<Rightarrow> nat \<Rightarrow> 'a fsst_scheme \<Rightarrow> (uchar list \<times> 'a fsst_scheme) res" where
  "readi_loop ip off n s =
     (if n = 0 then Inr ([], s)
      else
        bindE (bmap ip (off div BSIZE) s) (\<lambda>(a, s).
        bindE (bread (idev (inodes s ! ip)) a s) (\<lambda>(bp, s).
          let m = min n (BSIZE - off mod BSIZE); bs = take m (drop (off mod BSIZE) (bdata bp s)) in
          bindE (brelse bp s) (\<lambda>s.
          bindE (readi_loop ip (off + m) (n - m) s) (\<lambda>(cs, s). Inr (bs @ cs, s))))))"
  by pat_completeness auto
termination
  by (relation "measure (\<lambda>(ip, off, n, s). n)") (auto simp: BSIZE_def)

declare readi_loop.simps [simp del]

definition readi :: "'a fsst_scheme devsw \<Rightarrow> nat \<Rightarrow> uint \<Rightarrow> uint \<Rightarrow> 'a fsst_scheme \<Rightarrow> (int \<times> uchar list \<times> 'a fsst_scheme) res" where
  "readi devsw ip off n s =
     (let i = inodes s ! ip in
      if itype i = T_DEV then
        if sint (major i) < 0 \<or> sint (major i) \<ge> NDEV then Inr (- 1, [], s)
        else case fst (devsw (unat (major i))) of None \<Rightarrow> Inr (- 1, [], s) | Some f \<Rightarrow> f ip n s
      else if off > isize i \<or> off + n < off then Inr (- 1, [], s)
      else
        let n = (if off + n > isize i then isize i - off else n)
        in bindE (readi_loop ip (unat off) (unat n) s) (\<lambda>(bs, s). Inr (sint n, bs, s)))"

function writei_loop :: "nat \<Rightarrow> nat \<Rightarrow> uchar list \<Rightarrow> 'a fsst_scheme \<Rightarrow> 'a fsst_scheme res" where
  "writei_loop ip off src s =
     (if src = [] then Inr s
      else
        bindE (bmap ip (off div BSIZE) s) (\<lambda>(a, s).
          let m = min (length src) (BSIZE - off mod BSIZE) in
          bindE (logged_write (idev (inodes s ! ip)) a
                   (\<lambda>d. take (off mod BSIZE) d @ take m src @ drop (off mod BSIZE + m) d) s) (\<lambda>s.
          writei_loop ip (off + m) (drop m src) s)))"
  by pat_completeness auto
termination
  by (relation "measure (\<lambda>(ip, off, src, s). length src)") (auto simp: BSIZE_def)

declare writei_loop.simps [simp del]

definition writei :: "'a fsst_scheme devsw \<Rightarrow> nat \<Rightarrow> uchar list \<Rightarrow> uint \<Rightarrow> uint \<Rightarrow> 'a fsst_scheme \<Rightarrow> (int \<times> 'a fsst_scheme) res" where
  "writei devsw ip src off n s =
     (let i = inodes s ! ip in
      if itype i = T_DEV then
        if sint (major i) < 0 \<or> sint (major i) \<ge> NDEV then Inr (- 1, s)
        else case snd (devsw (unat (major i))) of None \<Rightarrow> Inr (- 1, s) | Some f \<Rightarrow> f ip (take (unat n) src) s
      else if off > isize i \<or> off + n < off then Inr (- 1, s)
      else if off + n > of_nat (MAXFILE * BSIZE) then Inr (- 1, s)
      else
        bindE (writei_loop ip (unat off) (take (unat n) src) s) (\<lambda>s.
        bindE (if n > 0 \<and> off + n > isize (inodes s ! ip)
               then iupdate ip (upd_inode ip (isize_update (\<lambda>_. off + n)) s) else Inr s) (\<lambda>s.
        Inr (sint n, s))))"

subsection \<open>Directories\<close>

text \<open>\<^verbatim>\<open>strncmp\<close> and \<^verbatim>\<open>strncpy\<close> on names, which end with their last byte or before their first NUL.\<close>

fun strncmp_str :: "nat \<Rightarrow> uchar list \<Rightarrow> uchar list \<Rightarrow> int" where
  "strncmp_str 0 p q = 0"
| "strncmp_str (Suc n) p q =
     (let c = (case p of [] \<Rightarrow> 0 | c # _ \<Rightarrow> c); d = (case q of [] \<Rightarrow> 0 | d # _ \<Rightarrow> d)
      in if c \<noteq> 0 \<and> c = d then strncmp_str n (tl p) (tl q) else uint c - uint d)"

definition strncpy_str :: "nat \<Rightarrow> uchar list \<Rightarrow> uchar list" where
  "strncpy_str n t = (let cs = take n (takeWhile (\<lambda>c. c \<noteq> 0) t) in cs @ replicate (n - length cs) 0)"

definition namecmp :: "uchar list \<Rightarrow> uchar list \<Rightarrow> int" where
  "namecmp s t = strncmp_str DIRSIZ s t"

text \<open>
  The loop of \<^verbatim>\<open>dirlookup\<close>, \<^verbatim>\<open>sz\<close> being \<^verbatim>\<open>dp->size\<close>; a hit gives the inode and the offset of the entry.
\<close>

function dirlookup_loop :: "'a fsst_scheme devsw \<Rightarrow> nat \<Rightarrow> uchar list \<Rightarrow> nat \<Rightarrow> nat \<Rightarrow> 'a fsst_scheme \<Rightarrow>
    ((nat \<times> nat) option \<times> 'a fsst_scheme) res" where
  "dirlookup_loop devsw dp name sz off s =
     (if off < sz then
        bindE (readi devsw dp (of_nat off) 16 s) (\<lambda>(r, bs, s).
          if r \<noteq> 16 then Inl (Panic ''dirlookup read'')
          else
            let de = get_dirent bs in
            if de_inum de \<noteq> 0 \<and> namecmp name (de_name de) = 0 then
              bindE (iget (idev (inodes s ! dp)) (ucast (de_inum de)) s) (\<lambda>(ip, s). Inr (Some (ip, off), s))
            else dirlookup_loop devsw dp name sz (off + 16) s)
      else Inr (None, s))"
  by pat_completeness auto
termination
  by (relation "measure (\<lambda>(devsw, dp, name, sz, off, s). sz - off)") auto

declare dirlookup_loop.simps [simp del]

definition dirlookup :: "'a fsst_scheme devsw \<Rightarrow> nat \<Rightarrow> uchar list \<Rightarrow> 'a fsst_scheme \<Rightarrow> ((nat \<times> nat) option \<times> 'a fsst_scheme) res" where
  "dirlookup devsw dp name s =
     (if itype (inodes s ! dp) \<noteq> T_DIR then Inl (Panic ''dirlookup not DIR'')
      else dirlookup_loop devsw dp name (unat (isize (inodes s ! dp))) 0 s)"

text \<open>The offset at which the second loop of \<^verbatim>\<open>dirlink\<close> stops.\<close>

function dirlink_loop :: "'a fsst_scheme devsw \<Rightarrow> nat \<Rightarrow> nat \<Rightarrow> nat \<Rightarrow> 'a fsst_scheme \<Rightarrow> (nat \<times> 'a fsst_scheme) res" where
  "dirlink_loop devsw dp sz off s =
     (if off < sz then
        bindE (readi devsw dp (of_nat off) 16 s) (\<lambda>(r, bs, s).
          if r \<noteq> 16 then Inl (Panic ''dirlink read'')
          else if de_inum (get_dirent bs) = 0 then Inr (off, s)
          else dirlink_loop devsw dp sz (off + 16) s)
      else Inr (off, s))"
  by pat_completeness auto
termination
  by (relation "measure (\<lambda>(devsw, dp, sz, off, s). sz - off)") auto

declare dirlink_loop.simps [simp del]

definition dirlink :: "'a fsst_scheme devsw \<Rightarrow> nat \<Rightarrow> uchar list \<Rightarrow> uint \<Rightarrow> 'a fsst_scheme \<Rightarrow> (int \<times> 'a fsst_scheme) res" where
  "dirlink devsw dp name n s =
     bindE (dirlookup devsw dp name s) (\<lambda>(r, s). case r of
       Some (ip, off) \<Rightarrow> bindE (iput ip s) (\<lambda>s. Inr (- 1, s))
     | None \<Rightarrow>
         bindE (dirlink_loop devsw dp (unat (isize (inodes s ! dp))) 0 s) (\<lambda>(off, s).
           let de = \<lparr>de_inum = ucast n, de_name = strncpy_str DIRSIZ name\<rparr> in
           bindE (writei devsw dp (put_dirent de) (of_nat off) 16 s) (\<lambda>(r, s).
             if r \<noteq> 16 then Inl (Panic ''dirlink'') else Inr (0, s))))"

subsection \<open>Paths\<close>

text \<open>
  The next element of a path and what follows it; \<^verbatim>\<open>name\<close> gets at most \<^verbatim>\<open>DIRSIZ\<close> bytes.
\<close>

definition skipelem :: "uchar list \<Rightarrow> (uchar list \<times> uchar list) option" where
  "skipelem path =
     (let s = dropWhile (\<lambda>c. c = 47) path in
      if s = [] then None
      else
        let name = take DIRSIZ (takeWhile (\<lambda>c. c \<noteq> 47) s)
        in Some (name, dropWhile (\<lambda>c. c = 47) (dropWhile (\<lambda>c. c \<noteq> 47) s)))"

lemma skipelem_shorter: "skipelem path = Some (name, rst) \<Longrightarrow> length rst < length path"
proof -
  assume a: "skipelem path = Some (name, rst)"
  define s where "s = dropWhile (\<lambda>c. c = 47) path"
  have s: "s \<noteq> []" "rst = dropWhile (\<lambda>c. c = 47) (dropWhile (\<lambda>c. c \<noteq> 47) s)"
    using a by (auto simp: skipelem_def Let_def s_def split: if_splits)
  have "hd s \<noteq> 47"
    using s(1) hd_dropWhile [of "\<lambda>c. c = 47" path] by (simp add: s_def)
  then have "length (dropWhile (\<lambda>c. c \<noteq> 47) s) < length s"
    using s(1) length_dropWhile_le [of "\<lambda>c. c \<noteq> 47" "tl s"] by (cases s) (auto simp: less_Suc_eq_le)
  moreover have "length s \<le> length path"
    by (simp add: s_def length_dropWhile_le)
  ultimately show ?thesis
    using length_dropWhile_le [of "\<lambda>c. c = 47" "dropWhile (\<lambda>c. c \<noteq> 47) s"] by (simp add: s(2))
qed

text \<open>
  The loop of \<^verbatim>\<open>namex\<close>, with the element that is in \<^verbatim>\<open>name\<close> when it ends.
\<close>

function namex_loop :: "'a fsst_scheme devsw \<Rightarrow> bool \<Rightarrow> nat \<Rightarrow> uchar list \<Rightarrow> uchar list \<Rightarrow> 'a fsst_scheme \<Rightarrow>
    ((nat \<times> uchar list) option \<times> 'a fsst_scheme) res" where
  "namex_loop devsw nameiparent ip path name s =
     (case skipelem path of
        None \<Rightarrow> if nameiparent then bindE (iput ip s) (\<lambda>s. Inr (None, s)) else Inr (Some (ip, name), s)
      | Some (name, path') \<Rightarrow>
          bindE (ilock ip s) (\<lambda>s.
            if itype (inodes s ! ip) \<noteq> T_DIR then bindE (iunlockput ip s) (\<lambda>s. Inr (None, s))
            else if nameiparent \<and> path' = [] then bindE (iunlock ip s) (\<lambda>s. Inr (Some (ip, name), s))
            else bindE (dirlookup devsw ip name s) (\<lambda>(r, s). case r of
                None \<Rightarrow> bindE (iunlockput ip s) (\<lambda>s. Inr (None, s))
              | Some (next, off) \<Rightarrow>
                  bindE (iunlockput ip s) (\<lambda>s. namex_loop devsw nameiparent next path' name s))))"
  by pat_completeness auto
termination
  by (relation "measure (\<lambda>(devsw, np, ip, path, name, s). length path)") (auto dest: skipelem_shorter)

declare namex_loop.simps [simp del]

text \<open>\<^verbatim>\<open>cwd\<close> is \<^verbatim>\<open>myproc()->cwd\<close>.\<close>

definition namex :: "'a fsst_scheme devsw \<Rightarrow> nat \<Rightarrow> uchar list \<Rightarrow> bool \<Rightarrow> 'a fsst_scheme \<Rightarrow> ((nat \<times> uchar list) option \<times> 'a fsst_scheme) res" where
  "namex devsw cwd path nameiparent s =
     bindE (if path \<noteq> [] \<and> hd path = 47 then iget ROOTDEV ROOTINO s else Inr (idup cwd s)) (\<lambda>(ip, s).
       namex_loop devsw nameiparent ip path [] s)"

definition namei :: "'a fsst_scheme devsw \<Rightarrow> nat \<Rightarrow> uchar list \<Rightarrow> 'a fsst_scheme \<Rightarrow> (nat option \<times> 'a fsst_scheme) res" where
  "namei devsw cwd path s = bindE (namex devsw cwd path False s) (\<lambda>(r, s). Inr (map_option fst r, s))"

definition nameiparent :: "'a fsst_scheme devsw \<Rightarrow> nat \<Rightarrow> uchar list \<Rightarrow> 'a fsst_scheme \<Rightarrow> ((nat \<times> uchar list) option \<times> 'a fsst_scheme) res" where
  "nameiparent devsw cwd path s = namex devsw cwd path True s"

end
