(* ===== verification/Spinlock_c.thy ===== *)
theory Spinlock_c
  imports Prelude
begin

text \<open>
  Spin locks (\<^verbatim>\<open>spinlock.c\<close>, \<^verbatim>\<open>spinlock.h\<close>) and the nested interrupt disabling they rest on.  The
  first part is the sequential reading of one CPU: \<^verbatim>\<open>pushcli\<close>, \<^verbatim>\<open>popcli\<close>, \<^verbatim>\<open>holding\<close>, \<^verbatim>\<open>acquire\<close> and
  \<^verbatim>\<open>release\<close> on that CPU's record and a lock.  The second part is the concurrent reading: every CPU
  runs \<^verbatim>\<open>acquire\<close> and \<^verbatim>\<open>release\<close> on one lock, interleaved at each access to the shared lock, and the
  lock excludes all but one of them.  The call-stack trace \<^verbatim>\<open>pcs\<close> of a lock is written for debugging
  and never read by these functions, so it is not a field here; \<^verbatim>\<open>getcallerpcs\<close> itself is modelled.
\<close>

section \<open>One CPU\<close>

text \<open>The fields of \<^verbatim>\<open>struct cpu\<close> the locks use, and the interrupt flag of its \<^verbatim>\<open>eflags\<close> register.\<close>

record cpu =
  ncli :: int
  intena :: bool
  fl_if :: bool

text \<open>\<^verbatim>\<open>lcpu\<close> is the CPU that holds the lock, \<^verbatim>\<open>None\<close> for a null pointer.\<close>

record spinlock =
  locked :: uint
  lname :: string
  lcpu :: "nat option"

definition initlock :: "string \<Rightarrow> spinlock" where
  "initlock name = \<lparr>locked = 0, lname = name, lcpu = None\<rparr>"

definition pushcli :: "cpu \<Rightarrow> cpu" where
  "pushcli c =
     (let eflags = fl_if c; c = c\<lparr>fl_if := False\<rparr>;
          c = (if ncli c = 0 then c\<lparr>intena := eflags\<rparr> else c)
      in c\<lparr>ncli := ncli c + 1\<rparr>)"

definition popcli :: "cpu \<Rightarrow> cpu res" where
  "popcli c =
     (if fl_if c then Inl (Panic ''popcli - interruptible'')
      else let c = c\<lparr>ncli := ncli c - 1\<rparr>
           in if ncli c < 0 then Inl (Panic ''popcli'')
              else Inr (if ncli c = 0 \<and> intena c then c\<lparr>fl_if := True\<rparr> else c))"

text \<open>\<^verbatim>\<open>me\<close> is the index of the CPU that runs the call, the value of \<^verbatim>\<open>mycpu()\<close>.\<close>

definition holding :: "nat \<Rightarrow> spinlock \<Rightarrow> cpu \<Rightarrow> (bool \<times> cpu) res" where
  "holding me lk c =
     (let c = pushcli c; r = (locked lk \<noteq> 0 \<and> lcpu lk = Some me)
      in bindE (popcli c) (\<lambda>c. Inr (r, c)))"

text \<open>
  The loop on \<^verbatim>\<open>xchg\<close> ends at once when the lock is free; when another CPU has it, only that CPU's
  \<^verbatim>\<open>release\<close> ends it.
\<close>

definition acquire :: "nat \<Rightarrow> spinlock \<Rightarrow> cpu \<Rightarrow> (spinlock \<times> cpu) res" where
  "acquire me lk c =
     bindE (holding me lk (pushcli c)) (\<lambda>(h, c).
       if h then Inl (Panic ''acquire'')
       else if locked lk \<noteq> 0 then Inl Waits
       else Inr (lk\<lparr>locked := 1, lcpu := Some me\<rparr>, c))"

definition release :: "nat \<Rightarrow> spinlock \<Rightarrow> cpu \<Rightarrow> (spinlock \<times> cpu) res" where
  "release me lk c =
     bindE (holding me lk c) (\<lambda>(h, c).
       if \<not> h then Inl (Panic ''release'')
       else let lk = lk\<lparr>lcpu := None\<rparr>; lk = lk\<lparr>locked := 0\<rparr>
            in bindE (popcli c) (\<lambda>c. Inr (lk, c)))"

text \<open>The saved return addresses along the frame-pointer chain that starts below \<^verbatim>\<open>v\<close>, at most ten.\<close>

fun callerpcs :: "mem \<Rightarrow> addr \<Rightarrow> nat \<Rightarrow> uint list" where
  "callerpcs m ebp 0 = []"
| "callerpcs m ebp (Suc n) =
     (if ebp = 0 \<or> ebp < 0x80000000 \<or> ebp = 0xffffffff then replicate (Suc n) 0
      else ld32 m (ebp + 4) # callerpcs m (ld32 m ebp) n)"

definition getcallerpcs :: "mem \<Rightarrow> addr \<Rightarrow> uint list" where
  "getcallerpcs m v = callerpcs m (v - 8) 10"

section \<open>All CPUs on one lock\<close>

text \<open>
  Where a CPU is in \<^verbatim>\<open>acquire\<close> or \<^verbatim>\<open>release\<close>.  \<^verbatim>\<open>Spin\<close>: in the loop on \<^verbatim>\<open>xchg\<close>.  \<^verbatim>\<open>Got\<close>: \<^verbatim>\<open>xchg\<close> returned 0,
  \<^verbatim>\<open>lk->cpu\<close> not yet written.  \<^verbatim>\<open>Crit\<close>: between \<^verbatim>\<open>acquire\<close> and \<^verbatim>\<open>release\<close>.  \<^verbatim>\<open>Rel\<close>: \<^verbatim>\<open>lk->cpu\<close> cleared,
  \<^verbatim>\<open>lk->locked\<close> not yet.
\<close>

datatype lock_pc = Out | Spin | Got | Crit | Rel

record lock_sys =
  lpc :: "nat \<Rightarrow> lock_pc"
  cpus :: "nat \<Rightarrow> cpu"
  lk :: spinlock

definition lock_init :: "(nat \<Rightarrow> cpu) \<Rightarrow> string \<Rightarrow> lock_sys" where
  "lock_init cs name = \<lparr>lpc = (\<lambda>_. Out), cpus = cs, lk = initlock name\<rparr>"

text \<open>
  One access to the shared lock per step.  A CPU outside a critical section may run any code that
  leaves its lock-nesting count alone and does not enable interrupts inside another critical
  section (\<^verbatim>\<open>elsewhere\<close>).  The call \<^verbatim>\<open>holding(lk)\<close> reads the lock without
  owning it; its answer is the guard of \<^verbatim>\<open>enter\<close> and \<^verbatim>\<open>leave\<close>.
\<close>

inductive lock_step :: "lock_sys \<Rightarrow> lock_sys \<Rightarrow> bool" where
  elsewhere: "lpc s i = Out \<Longrightarrow> ncli c' = ncli (cpus s i) \<Longrightarrow> (0 < ncli c' \<longrightarrow> \<not> fl_if c') \<Longrightarrow>
    lock_step s (s\<lparr>cpus := (cpus s)(i := c')\<rparr>)"
| enter: "lpc s i = Out \<Longrightarrow> holding i (lk s) (pushcli (cpus s i)) = Inr (False, c') \<Longrightarrow>
    lock_step s (s\<lparr>lpc := (lpc s)(i := Spin), cpus := (cpus s)(i := c')\<rparr>)"
| xchg_fail: "lpc s i = Spin \<Longrightarrow> locked (lk s) \<noteq> 0 \<Longrightarrow>
    lock_step s (s\<lparr>lk := (lk s)\<lparr>locked := 1\<rparr>\<rparr>)"
| xchg_win: "lpc s i = Spin \<Longrightarrow> locked (lk s) = 0 \<Longrightarrow>
    lock_step s (s\<lparr>lpc := (lpc s)(i := Got), lk := (lk s)\<lparr>locked := 1\<rparr>\<rparr>)"
| record_cpu: "lpc s i = Got \<Longrightarrow>
    lock_step s (s\<lparr>lpc := (lpc s)(i := Crit), lk := (lk s)\<lparr>lcpu := Some i\<rparr>\<rparr>)"
| leave: "lpc s i = Crit \<Longrightarrow> holding i (lk s) (cpus s i) = Inr (True, c') \<Longrightarrow>
    lock_step s (s\<lparr>lpc := (lpc s)(i := Rel), cpus := (cpus s)(i := c'), lk := (lk s)\<lparr>lcpu := None\<rparr>\<rparr>)"
| unlock: "lpc s i = Rel \<Longrightarrow> popcli (cpus s i) = Inr c' \<Longrightarrow>
    lock_step s (s\<lparr>lpc := (lpc s)(i := Out), cpus := (cpus s)(i := c'), lk := (lk s)\<lparr>locked := 0\<rparr>\<rparr>)"

section \<open>Nesting\<close>

lemma pushcli_simps [simp]:
  "ncli (pushcli c) = ncli c + 1" "fl_if (pushcli c) = False"
  "intena (pushcli c) = (if ncli c = 0 then fl_if c else intena c)"
  by (simp_all add: pushcli_def Let_def)

lemma popcli_eq_Inr:
  "popcli c = Inr c' \<longleftrightarrow> \<not> fl_if c \<and> 1 \<le> ncli c
     \<and> c' = c\<lparr>ncli := ncli c - 1, fl_if := (ncli c = 1 \<and> intena c)\<rparr>"
  by (cases c) (auto simp: popcli_def Let_def)

text \<open>A CPU record the kernel can be in: a nesting count that is not negative, interrupts off inside.\<close>

definition cpu_ok :: "cpu \<Rightarrow> bool" where
  "cpu_ok c \<longleftrightarrow> 0 \<le> ncli c \<and> (0 < ncli c \<longrightarrow> \<not> fl_if c)"

lemma popcli_pushcli:
  assumes "cpu_ok c"
  shows "popcli (pushcli c) = Inr (if ncli c = 0 then c\<lparr>intena := fl_if c\<rparr> else c)"
  using assms by (cases c) (auto simp: popcli_def pushcli_def Let_def cpu_ok_def)

lemma holding_ok:
  assumes "cpu_ok c"
  shows "holding me l c = Inr (locked l \<noteq> 0 \<and> lcpu l = Some me,
     if ncli c = 0 then c\<lparr>intena := fl_if c\<rparr> else c)"
  using popcli_pushcli [OF assms] by (simp add: holding_def Let_def)

lemma cpu_ok_pushcli [simp]: "cpu_ok c \<Longrightarrow> cpu_ok (pushcli c)"
  by (simp add: cpu_ok_def)

lemma holding_nested:
  assumes "cpu_ok c"
  shows "holding me l (pushcli c) = Inr (locked l \<noteq> 0 \<and> lcpu l = Some me, pushcli c)"
  using assms holding_ok [of "pushcli c" me l] by (auto simp: cpu_ok_def)

lemma acquire_free:
  assumes "cpu_ok c" "locked l = 0"
  shows "acquire me l c = Inr (l\<lparr>locked := 1, lcpu := Some me\<rparr>, pushcli c)"
  using assms by (simp add: acquire_def holding_nested)

lemma acquire_held:
  assumes "cpu_ok c" "locked l \<noteq> 0"
  shows "acquire me l c = Inl (if lcpu l = Some me then Panic ''acquire'' else Waits)"
  using assms by (simp add: acquire_def holding_nested)

lemma release_after_acquire:
  assumes "cpu_ok c" "locked l = 0" "lcpu l = None"
  shows "release me (l\<lparr>locked := 1, lcpu := Some me\<rparr>) (pushcli c)
     = Inr (l, if ncli c = 0 then c\<lparr>intena := fl_if c\<rparr> else c)"
proof -
  have l: "l\<lparr>lcpu := None, locked := 0\<rparr> = l" using assms by (cases l) simp
  show ?thesis
    using assms l by (simp add: release_def Let_def holding_nested popcli_pushcli)
qed

lemma release_not_holder:
  assumes "cpu_ok c" "\<not> (locked l \<noteq> 0 \<and> lcpu l = Some me)"
  shows "release me l c = Inl (Panic ''release'')"
  using assms holding_ok [of c me l] by (simp add: release_def)

section \<open>Mutual exclusion\<close>

definition owns :: "lock_pc \<Rightarrow> bool" where
  "owns p \<longleftrightarrow> p = Got \<or> p = Crit \<or> p = Rel"

lemma owns_simps [simp]: "\<not> owns Out" "\<not> owns Spin" "owns Got" "owns Crit" "owns Rel"
  by (simp_all add: owns_def)

definition lock_inv :: "lock_sys \<Rightarrow> bool" where
  "lock_inv s \<longleftrightarrow>
     (\<forall>i. cpu_ok (cpus s i) \<and> (lpc s i \<noteq> Out \<longrightarrow> 0 < ncli (cpus s i)))
   \<and> (\<forall>i. lcpu (lk s) = Some i \<longleftrightarrow> lpc s i = Crit)
   \<and> (locked (lk s) = 0 \<longleftrightarrow> (\<forall>i. \<not> owns (lpc s i)))
   \<and> (\<forall>i j. owns (lpc s i) \<longrightarrow> owns (lpc s j) \<longrightarrow> i = j)"

lemma lock_inv_init: "(\<And>i. cpu_ok (cs i)) \<Longrightarrow> lock_inv (lock_init cs name)"
  by (simp add: lock_inv_def lock_init_def initlock_def)

lemma lock_inv_only_owner:
  assumes "lock_inv s" "owns (lpc s i)" "j \<noteq> i"
  shows "\<not> owns (lpc s j) \<and> lpc s j \<noteq> Crit"
  using assms unfolding lock_inv_def by (metis owns_simps(4))

lemma lock_inv_locked: "lock_inv s \<Longrightarrow> owns (lpc s i) \<Longrightarrow> locked (lk s) \<noteq> 0"
  unfolding lock_inv_def by blast

lemma lock_inv_step: "lock_step s t \<Longrightarrow> lock_inv s \<Longrightarrow> lock_inv t"
proof (induction rule: lock_step.induct)
  case (elsewhere s i c')
  then show ?case by (auto simp: lock_inv_def cpu_ok_def)
next
  case (enter s i c')
  then have "cpu_ok (cpus s i)" by (simp add: lock_inv_def)
  with enter(2) have "c' = pushcli (cpus s i)" by (simp add: holding_nested)
  with enter \<open>cpu_ok (cpus s i)\<close> show ?case
    by (auto simp: lock_inv_def cpu_ok_def) (metis owns_simps(1))
next
  case (xchg_fail s i)
  then show ?case by (simp add: lock_inv_def)
next
  case (xchg_win s i)
  then show ?case by (auto simp: lock_inv_def)
next
  case (record_cpu s i)
  then have "\<not> owns (lpc s j) \<and> lpc s j \<noteq> Crit" if "j \<noteq> i" for j
    using lock_inv_only_owner [of s i j] that by simp
  moreover have "locked (lk s) \<noteq> 0" using lock_inv_locked [of s i] record_cpu by simp
  ultimately show ?case using record_cpu by (auto simp: lock_inv_def)
next
  case (leave s i c')
  then have "cpu_ok (cpus s i)" "0 < ncli (cpus s i)" by (auto simp: lock_inv_def)
  with leave(2) have "c' = cpus s i" by (simp add: holding_ok)
  moreover from leave have "\<not> owns (lpc s j) \<and> lpc s j \<noteq> Crit" if "j \<noteq> i" for j
    using lock_inv_only_owner [of s i j] that by simp
  moreover have "locked (lk s) \<noteq> 0" using lock_inv_locked [of s i] leave by simp
  ultimately show ?case using leave by (auto simp: lock_inv_def)
next
  case (unlock s i c')
  then have "cpu_ok c'" by (auto simp: popcli_eq_Inr cpu_ok_def)
  moreover from unlock have "\<forall>j. owns (lpc s j) \<longrightarrow> j = i" unfolding lock_inv_def by (metis owns_simps(5))
  ultimately show ?case using unlock by (auto simp: lock_inv_def)
qed

interpretation spin: stepwise_invariant lock_step lock_inv
  by unfold_locales (rule lock_inv_step)

section \<open>Properties\<close>

text \<open>
  C10: a spin lock gives mutual exclusion: in every interleaving of any number of CPUs through
  \<^verbatim>\<open>acquire\<close> and \<^verbatim>\<open>release\<close>, at most one CPU is between its successful \<^verbatim>\<open>xchg\<close> and its clearing of
  \<^verbatim>\<open>lk->locked\<close>, interrupts are off on it, and \<^verbatim>\<open>holding(lk)\<close>, read without the lock by any CPU at
  any moment, answers true exactly for the CPU in its critical section, so neither \<^verbatim>\<open>acquire\<close> nor
  \<^verbatim>\<open>release\<close> panics.
\<close>

theorem spinlock_mutual_exclusion:
  assumes "\<And>i. cpu_ok (cs i)" and "lock_step\<^sup>*\<^sup>* (lock_init cs name) s"
  shows "(owns (lpc s i) \<longrightarrow> owns (lpc s j) \<longrightarrow> i = j)
     \<and> (owns (lpc s i) \<longrightarrow> \<not> fl_if (cpus s i))
     \<and> (\<exists>c'. holding i (lk s) (cpus s i) = Inr (lpc s i = Crit, c'))"
proof -
  have inv: "lock_inv s"
    using spin.reachable [OF assms(2)] lock_inv_init assms(1) by blast
  have "lpc s i = Crit \<Longrightarrow> locked (lk s) \<noteq> 0"
    using inv unfolding lock_inv_def by (metis owns_simps(4))
  moreover have "owns (lpc s i) \<longrightarrow> \<not> fl_if (cpus s i)"
    using inv unfolding lock_inv_def cpu_ok_def by (metis owns_simps(1))
  ultimately show ?thesis
    using inv by (auto simp: lock_inv_def holding_ok)
qed

theorem spinlock_mutual_exclusion_witness:
  "\<exists>s :: lock_sys. lpc s 3 = Crit \<and> \<not> owns (lpc s 2)"
proof -
  define c where "c = \<lparr>ncli = 0, intena = False, fl_if = True\<rparr>"
  define s0 where "s0 = lock_init (\<lambda>_. c) ''kmem''"
  define s1 where "s1 = s0\<lparr>lpc := (lpc s0)(3 := Spin), cpus := (cpus s0)(3 := pushcli c)\<rparr>"
  define s2 where "s2 = s1\<lparr>lpc := (lpc s1)(3 := Got), lk := (lk s1)\<lparr>locked := 1\<rparr>\<rparr>"
  define s3 where "s3 = s2\<lparr>lpc := (lpc s2)(3 := Crit), lk := (lk s2)\<lparr>lcpu := Some 3\<rparr>\<rparr>"
  have ok: "cpu_ok c" by (simp add: cpu_ok_def c_def)
  have lk0: "locked (lk s0) = 0" "cpus s0 3 = c" "lpc s0 3 = Out"
    by (simp_all add: s0_def lock_init_def initlock_def)
  have "lock_step s0 s1"
    unfolding s1_def by (rule lock_step.enter) (simp_all add: lk0 holding_nested [OF ok])
  moreover have "lock_step s1 s2"
    unfolding s2_def by (rule lock_step.xchg_win) (simp_all add: s1_def lk0)
  moreover have "lock_step s2 s3"
    unfolding s3_def by (rule lock_step.record_cpu) (simp add: s2_def)
  ultimately have "lock_step\<^sup>*\<^sup>* s0 s3"
    by (meson converse_rtranclp_into_rtranclp rtranclp.rtrancl_refl)
  then have "owns (lpc s3 3) \<longrightarrow> owns (lpc s3 2) \<longrightarrow> (3::nat) = 2"
    using spinlock_mutual_exclusion [OF ok] unfolding s0_def by blast
  moreover have "lpc s3 3 = Crit" by (simp add: s3_def)
  ultimately show ?thesis by (intro exI [of _ s3]) simp
qed

text \<open>
  On one CPU, \<^verbatim>\<open>acquire\<close> of a free lock followed by \<^verbatim>\<open>release\<close> gives back the lock and the nesting
  count and interrupt state of before; \<^verbatim>\<open>acquire\<close> of a lock this CPU holds panics instead of
  deadlocking, and \<^verbatim>\<open>release\<close> of a lock it does not hold panics.
\<close>

theorem acquire_release_nesting:
  assumes "cpu_ok c" and "locked l = 0" and "lcpu l = None"
  shows "\<exists>l1 c1 c2. acquire me l c = Inr (l1, c1) \<and> \<not> fl_if c1 \<and> ncli c1 = ncli c + 1
     \<and> acquire me l1 c1 = Inl (Panic ''acquire'')
     \<and> release me l1 c1 = Inr (l, c2) \<and> ncli c2 = ncli c \<and> fl_if c2 = fl_if c
     \<and> release me l c2 = Inl (Panic ''release'')"
proof -
  let ?l = "l\<lparr>locked := 1, lcpu := Some me\<rparr>"
  let ?c2 = "if ncli c = 0 then c\<lparr>intena := fl_if c\<rparr> else c"
  have "cpu_ok ?c2" using assms(1) by (simp add: cpu_ok_def)
  then have "release me l ?c2 = Inl (Panic ''release'')"
    using assms(2) by (intro release_not_holder) auto
  with assms show ?thesis
    using acquire_free [of c l me] acquire_held [of "pushcli c" ?l me] release_after_acquire [of c l me]
    by (intro exI [of _ ?l] exI [of _ "pushcli c"] exI [of _ ?c2]) simp
qed

theorem acquire_release_nesting_witness:
  "\<exists>l1 c1 c2. acquire 3 (initlock ''log'') \<lparr>ncli = 0, intena = False, fl_if = True\<rparr> = Inr (l1, c1)
     \<and> release 3 l1 c1 = Inr (initlock ''log'', c2) \<and> fl_if c2"
  using acquire_release_nesting
    [of "\<lparr>ncli = 0, intena = False, fl_if = True\<rparr>" "initlock ''log''" 3]
  by (auto simp: cpu_ok_def initlock_def)

end
