(* ===== verification/Mmu_h.thy ===== *)
theory Mmu_h
  imports Prelude
begin

text \<open>
  The address arithmetic of the x86 paging hardware and of the kernel's memory layout
  (\<^verbatim>\<open>mmu.h\<close>, \<^verbatim>\<open>memlayout.h\<close>): page rounding, page directory and table indices, page table entry
  fields, and the fixed map between physical addresses and kernel virtual addresses.  All of it
  is 32-bit wrap-around arithmetic; the lemmas say what it means on numbers.
\<close>

section \<open>Definitions\<close>

definition EXTMEM :: uint where "EXTMEM = 0x100000"
definition PHYSTOP :: uint where "PHYSTOP = 0xE000000"
definition DEVSPACE :: uint where "DEVSPACE = 0xFE000000"
definition KERNBASE :: uint where "KERNBASE = 0x80000000"
definition KERNLINK :: uint where "KERNLINK = KERNBASE + EXTMEM"

definition V2P :: "addr \<Rightarrow> uint" where "V2P a = a - KERNBASE"
definition P2V :: "uint \<Rightarrow> addr" where "P2V a = a + KERNBASE"

definition PGSIZE :: uint where "PGSIZE = 4096"
definition NPDENTRIES :: uint where "NPDENTRIES = 1024"

definition PGROUNDUP :: "uint \<Rightarrow> uint" where
  "PGROUNDUP sz = (sz + PGSIZE - 1) AND NOT (PGSIZE - 1)"

definition PGROUNDDOWN :: "uint \<Rightarrow> uint" where
  "PGROUNDDOWN a = a AND NOT (PGSIZE - 1)"

definition PDX :: "addr \<Rightarrow> uint" where "PDX va = drop_bit 22 va AND 0x3FF"
definition PTX :: "addr \<Rightarrow> uint" where "PTX va = drop_bit 12 va AND 0x3FF"

definition PGADDR :: "uint \<Rightarrow> uint \<Rightarrow> uint \<Rightarrow> addr" where
  "PGADDR d t off = push_bit 22 d OR push_bit 12 t OR off"

definition PTE_P :: uint where "PTE_P = 0x001"
definition PTE_W :: uint where "PTE_W = 0x002"
definition PTE_U :: uint where "PTE_U = 0x004"
definition PTE_PS :: uint where "PTE_PS = 0x080"

definition PTE_ADDR :: "uint \<Rightarrow> uint" where "PTE_ADDR pte = pte AND NOT 0xFFF"
definition PTE_FLAGS :: "uint \<Rightarrow> uint" where "PTE_FLAGS pte = pte AND 0xFFF"

lemmas layout_defs = EXTMEM_def PHYSTOP_def DEVSPACE_def KERNBASE_def KERNLINK_def PGSIZE_def NPDENTRIES_def
lemmas pte_bits = PTE_P_def PTE_W_def PTE_U_def PTE_PS_def

section \<open>Rounding\<close>

lemma page_mask: "PGSIZE - 1 = mask 12"
  by (simp add: PGSIZE_def mask_eq_exp_minus_1)

lemma and_not_mask: "(a :: uint) AND NOT (mask n) = push_bit n (drop_bit n a)"
  by (rule bit_word_eqI) (auto simp: bit_simps)

lemma unat_and_not_mask12: "unat ((a :: uint) AND NOT (mask 12)) = unat a div 4096 * 4096"
proof -
  have "unat (push_bit 12 (drop_bit 12 a)) = (unat a div 4096 * 4096) mod 4294967296"
    by (simp add: push_bit_eq_mult drop_bit_eq_div unat_word_ariths unat_div mod_mult_left_eq)
  moreover have "unat a div 4096 * 4096 < 4294967296"
    using unat_uint_less [of a] by (metis div_times_less_eq_dividend le_less_trans)
  ultimately show ?thesis by (simp add: and_not_mask)
qed

lemma unat_PGROUNDDOWN: "unat (PGROUNDDOWN a) = unat a div 4096 * 4096"
  by (simp only: PGROUNDDOWN_def page_mask unat_and_not_mask12)

lemma unat_PGROUNDUP:
  assumes "unat a + 4095 < 4294967296"
  shows "unat (PGROUNDUP a) = (unat a + 4095) div 4096 * 4096"
proof -
  have "unat (4095 :: uint) = 4095" by simp
  then have "unat (a + 4095) = unat a + 4095"
    using unat_add_uint [of a 4095] assms by presburger
  moreover have "a + PGSIZE - 1 = a + 4095" by (simp add: PGSIZE_def)
  ultimately have "unat (a + PGSIZE - 1) = unat a + 4095" by presburger
  then show ?thesis by (simp only: PGROUNDUP_def page_mask unat_and_not_mask12)
qed

text \<open>Page-aligned addresses.\<close>

definition aligned :: "addr \<Rightarrow> bool" where
  "aligned a \<longleftrightarrow> unat a mod 4096 = 0"

lemma aligned_PGROUNDDOWN [simp]: "aligned (PGROUNDDOWN a)"
  by (simp add: aligned_def unat_PGROUNDDOWN)

lemma aligned_PGROUNDUP [simp]: "aligned (PGROUNDUP a)"
  by (simp only: aligned_def PGROUNDUP_def page_mask unat_and_not_mask12) simp

lemma PGROUNDDOWN_aligned: "aligned a \<Longrightarrow> PGROUNDDOWN a = a"
  by (rule word_unat_eq_iff [THEN iffD2]) (auto simp: unat_PGROUNDDOWN aligned_def)

lemma aligned_add_PGSIZE: "aligned a \<Longrightarrow> aligned (a + PGSIZE)"
proof -
  assume "aligned a"
  then have "(unat a + 4096) mod 4294967296 mod 4096 = 0"
    by (simp add: aligned_def mod_mod_cancel)
  then show ?thesis by (simp add: aligned_def PGSIZE_def unat_word_ariths)
qed

section \<open>Physical and kernel virtual addresses\<close>

lemma V2P_P2V [simp]: "V2P (P2V a) = a" and P2V_V2P [simp]: "P2V (V2P a) = a"
  by (simp_all add: V2P_def P2V_def)

lemma V2P_below_PHYSTOP:
  "V2P v < PHYSTOP \<longleftrightarrow> 0x80000000 \<le> unat v \<and> unat v < 0x8E000000"
proof -
  have "unat (v - 0x80000000) =
      (if 0x80000000 \<le> unat v then unat v - 0x80000000 else unat v + 0x80000000)"
    using unat_sub_if' [of v "0x80000000"] by simp
  then show ?thesis
    using unat_uint_less [of v] by (auto simp: V2P_def KERNBASE_def PHYSTOP_def word_less_nat_alt)
qed

end
