(* ===== verification/Kalloc_c.thy ===== *)
theory Kalloc_c
  imports String_c Spinlock_c Mmu_h
begin

text \<open>
  The physical page allocator (\<^verbatim>\<open>kalloc.c\<close>).  Free pages are linked through their own first word
  in kernel memory, under \<^verbatim>\<open>kmem.lock\<close>, which is taken only once the second phase of initialisation
  has set \<^verbatim>\<open>kmem.use_lock\<close>.  The interface other components rely on is the locale
  \<^verbatim>\<open>page_allocator\<close>; \<^verbatim>\<open>kalloc\<close> and \<^verbatim>\<open>kfree\<close> are interpreted in it.
\<close>

section \<open>Definitions\<close>

text \<open>
  \<^verbatim>\<open>struct kmem\<close>, the kernel memory its list lives in, the CPU that runs the call (record and
  index) and the address \<^verbatim>\<open>end\<close> that the linker puts after the kernel image.
\<close>

record kmem =
  klock :: spinlock
  use_lock :: bool
  freelist :: addr
  kmemory :: mem
  kcpu :: cpu
  kme :: nat
  kend :: addr

definition kmem_acquire :: "'a kmem_scheme \<Rightarrow> 'a kmem_scheme res" where
  "kmem_acquire s =
     (if use_lock s then bindE (acquire (kme s) (klock s) (kcpu s)) (\<lambda>(l, c). Inr (s\<lparr>klock := l, kcpu := c\<rparr>))
      else Inr s)"

definition kmem_release :: "'a kmem_scheme \<Rightarrow> 'a kmem_scheme res" where
  "kmem_release s =
     (if use_lock s then bindE (release (kme s) (klock s) (kcpu s)) (\<lambda>(l, c). Inr (s\<lparr>klock := l, kcpu := c\<rparr>))
      else Inr s)"

definition kfree :: "addr \<Rightarrow> 'a kmem_scheme \<Rightarrow> 'a kmem_scheme res" where
  "kfree v s =
     (if v mod PGSIZE \<noteq> 0 \<or> v < kend s \<or> V2P v \<ge> PHYSTOP then Inl (Panic ''kfree'')
      else
        let s = s\<lparr>kmemory := memset (kmemory s) v 1 PGSIZE\<rparr>
        in bindE (kmem_acquire s) (\<lambda>s.
             let s = s\<lparr>kmemory := st32 (kmemory s) v (freelist s)\<rparr>;
                 s = s\<lparr>freelist := v\<rparr>
             in kmem_release s))"

definition kalloc :: "'a kmem_scheme \<Rightarrow> (addr \<times> 'a kmem_scheme) res" where
  "kalloc s =
     bindE (kmem_acquire s) (\<lambda>s.
       let r = freelist s;
           s = (if r \<noteq> 0 then s\<lparr>freelist := ld32 (kmemory s) r\<rparr> else s)
       in bindE (kmem_release s) (\<lambda>s. Inr (r, s)))"

lemma kfree_Inr_range: "kfree v s = Inr s' \<Longrightarrow> unat v < 0x8E000000"
  using V2P_below_PHYSTOP [of v] by (auto simp: kfree_def split: if_splits)

function freerange_loop :: "addr \<Rightarrow> addr \<Rightarrow> 'a kmem_scheme \<Rightarrow> 'a kmem_scheme res" where
  "freerange_loop p vend s =
     (if p + PGSIZE \<le> vend then bindE (kfree p s) (\<lambda>s. freerange_loop (p + PGSIZE) vend s)
      else Inr s)"
  by pat_completeness auto
termination
proof (relation "measure (\<lambda>(p, vend, s). 4294967296 - unat p)", simp)
  fix p vend :: addr and s s' :: "'a kmem_scheme"
  assume "kfree p s = Inr s'"
  then have "unat p < 0x8E000000" by (rule kfree_Inr_range)
  then have "unat (p + PGSIZE) = unat p + 4096" by (simp add: PGSIZE_def unat_word_ariths)
  with \<open>unat p < 0x8E000000\<close>
  show "((p + PGSIZE, vend, s'), p, vend, s) \<in> measure (\<lambda>(p, vend, s). 4294967296 - unat p)"
    by simp
qed

declare freerange_loop.simps [simp del]

definition freerange :: "addr \<Rightarrow> addr \<Rightarrow> 'a kmem_scheme \<Rightarrow> 'a kmem_scheme res" where
  "freerange vstart vend s = freerange_loop (PGROUNDUP vstart) vend s"

definition kinit1 :: "addr \<Rightarrow> addr \<Rightarrow> 'a kmem_scheme \<Rightarrow> 'a kmem_scheme res" where
  "kinit1 vstart vend s = freerange vstart vend (s\<lparr>klock := initlock ''kmem'', use_lock := False\<rparr>)"

definition kinit2 :: "addr \<Rightarrow> addr \<Rightarrow> 'a kmem_scheme \<Rightarrow> 'a kmem_scheme res" where
  "kinit2 vstart vend s = bindE (freerange vstart vend s) (\<lambda>s. Inr (s\<lparr>use_lock := True\<rparr>))"

section \<open>The interface\<close>

text \<open>
  What users of the allocator rely on.  \<^verbatim>\<open>pool s ps\<close>: the pages \<^verbatim>\<open>ps\<close> are the free ones, next to be
  handed out first; \<^verbatim>\<open>contents\<close> is memory; \<^verbatim>\<open>owned s p\<close>: \<^verbatim>\<open>p\<close> is a page the allocator manages.
\<close>

locale page_allocator =
  fixes alloc :: "'s \<Rightarrow> (addr \<times> 's) res" and dealloc :: "addr \<Rightarrow> 's \<Rightarrow> 's res"
    and pool :: "'s \<Rightarrow> addr list \<Rightarrow> bool" and contents :: "'s \<Rightarrow> mem" and owned :: "'s \<Rightarrow> addr \<Rightarrow> bool"
  assumes alloc_empty: "pool s [] \<Longrightarrow> \<exists>s'. alloc s = Inr (0, s') \<and> pool s' [] \<and> contents s' = contents s
      \<and> owned s' = owned s"
    and alloc_page: "pool s (p # ps) \<Longrightarrow> \<exists>s'. alloc s = Inr (p, s') \<and> pool s' ps \<and> contents s' = contents s
      \<and> owned s' = owned s"
    and dealloc_page: "pool s ps \<Longrightarrow> owned s p \<Longrightarrow> p \<notin> set ps \<Longrightarrow>
      \<exists>s'. dealloc p s = Inr s' \<and> pool s' (p # ps) \<and> owned s' = owned s
        \<and> (\<forall>x. \<not> in_range x p 4096 \<longrightarrow> contents s' x = contents s x)"
    and dealloc_bad: "\<not> owned s p \<Longrightarrow> \<exists>msg. dealloc p s = Inl (Panic msg)"
    and pool_wf: "pool s ps \<Longrightarrow> distinct ps \<and> (\<forall>p \<in> set ps. owned s p)"
    and owned_not_null: "owned s p \<Longrightarrow> p \<noteq> 0"
begin

lemma alloc_total: "pool s ps \<Longrightarrow> \<exists>p s'. alloc s = Inr (p, s') \<and> pool s' (tl ps)
    \<and> (p = 0 \<longleftrightarrow> ps = []) \<and> (ps \<noteq> [] \<longrightarrow> p = hd ps) \<and> contents s' = contents s \<and> owned s' = owned s"
proof (cases ps)
  case (Cons p ps')
  assume "pool s ps"
  with Cons alloc_page [of s p ps'] pool_wf [of s ps] owned_not_null [of s p] show ?thesis by auto
qed (use alloc_empty in auto)

lemma alloc_fresh: "pool s ps \<Longrightarrow> alloc s = Inr (p, s') \<Longrightarrow> p \<noteq> 0 \<Longrightarrow> pool s' ps' \<Longrightarrow> ps' = tl ps \<Longrightarrow>
    p \<notin> set ps' \<and> owned s p"
  using alloc_total [of s ps] pool_wf [of s ps] by (cases ps) auto

lemma alloc_dealloc: "pool s (p # ps) \<Longrightarrow>
    \<exists>s1 s2. alloc s = Inr (p, s1) \<and> dealloc p s1 = Inr s2 \<and> pool s2 (p # ps)
      \<and> (\<forall>x. \<not> in_range x p 4096 \<longrightarrow> contents s2 x = contents s x)"
proof -
  assume a: "pool s (p # ps)"
  then obtain s1 where s1: "alloc s = Inr (p, s1)" "pool s1 ps" "contents s1 = contents s" "owned s1 = owned s"
    using alloc_page by blast
  then obtain s2 where "dealloc p s1 = Inr s2" "pool s2 (p # ps)"
      "\<forall>x. \<not> in_range x p 4096 \<longrightarrow> contents s2 x = contents s1 x"
    using dealloc_page [of s1 ps p] pool_wf [OF a] by auto
  with s1 show ?thesis by auto
qed

end

section \<open>The free list\<close>

text \<open>The pages linked from \<^verbatim>\<open>a\<close> through their first words, down to the null pointer.\<close>

primrec linked :: "mem \<Rightarrow> addr \<Rightarrow> addr list \<Rightarrow> bool" where
  "linked m a [] \<longleftrightarrow> a = 0"
| "linked m a (p # ps) \<longleftrightarrow> a = p \<and> linked m (ld32 m p) ps"

definition kowned :: "'a kmem_scheme \<Rightarrow> addr \<Rightarrow> bool" where
  "kowned s p \<longleftrightarrow> p mod PGSIZE = 0 \<and> kend s \<le> p \<and> V2P p < PHYSTOP"

definition lock_free :: "'a kmem_scheme \<Rightarrow> bool" where
  "lock_free s \<longleftrightarrow> locked (klock s) = 0 \<and> lcpu (klock s) = None \<and> cpu_ok (kcpu s)"

definition kpool :: "'a kmem_scheme \<Rightarrow> addr list \<Rightarrow> bool" where
  "kpool s ps \<longleftrightarrow> linked (kmemory s) (freelist s) ps \<and> distinct ps \<and> (\<forall>p \<in> set ps. kowned s p) \<and> lock_free s"

lemma kowned_aligned: "kowned s p \<Longrightarrow> aligned p"
  by (auto simp: kowned_def aligned_def PGSIZE_def word_unat_eq_iff unat_mod)

lemma kowned_range: "kowned s p \<Longrightarrow> 0x80000000 \<le> unat p \<and> unat p < 0x8E000000"
  by (simp add: kowned_def V2P_below_PHYSTOP)

lemma kowned_not_null: "kowned s p \<Longrightarrow> p \<noteq> 0"
  using kowned_range [of s p] by auto

lemma in_own_page: "aligned p \<Longrightarrow> in_range x p 4096 \<longleftrightarrow> unat x div 4096 = unat p div 4096"
proof -
  assume al: "aligned p"
  then obtain k where k: "unat p = 4096 * k" by (auto simp: aligned_def)
  then have "4096 * k < 4294967296" using unat_uint_less [of p] by simp
  then have "k < 1048576" by linarith
  then have "4096 * k + 4096 \<le> 4294967296" by linarith
  moreover have "4096 * k \<le> n \<and> n < 4096 * k + 4096 \<longleftrightarrow> n div 4096 = k" for n :: nat
    by linarith
  ultimately show ?thesis using k by (simp add: in_range_nat)
qed

lemma aligned_eqI: "aligned p \<Longrightarrow> aligned q \<Longrightarrow> unat p div 4096 = unat q div 4096 \<Longrightarrow> p = q"
  by (metis aligned_def mod_0_imp_dvd dvd_div_mult_self word_unat_eq_iff)

lemma pages_disjoint: "aligned p \<Longrightarrow> aligned q \<Longrightarrow> p \<noteq> q \<Longrightarrow> in_range x p 4096 \<Longrightarrow> \<not> in_range x q 4096"
  using aligned_eqI by (auto simp: in_own_page)

lemma first_word_in_page:
  assumes "aligned p"
  shows "in_range p p 4096" "in_range (p + 1) p 4096" "in_range (p + 2) p 4096" "in_range (p + 3) p 4096"
  by (simp_all add: in_range_def)

lemma ld32_page_cong:
  assumes "aligned p" "\<And>x. in_range x p 4096 \<Longrightarrow> m' x = m x"
  shows "ld32 m' p = ld32 m p"
  using assms(2) first_word_in_page [OF assms(1)] by (simp add: ld32_def)

lemma linked_frame:
  "linked m a ps \<Longrightarrow> \<forall>p \<in> set ps. aligned p \<and> (\<forall>x. in_range x p 4096 \<longrightarrow> m' x = m x) \<Longrightarrow> linked m' a ps"
proof (induction ps arbitrary: a)
  case (Cons p ps)
  then have "ld32 m' p = ld32 m p" by (intro ld32_page_cong) auto
  with Cons show ?case by auto
qed simp

lemma st32_frame: "aligned p \<Longrightarrow> \<not> in_range x p 4096 \<Longrightarrow> st32 m p v x = m x"
  using first_word_in_page [of p] by (auto simp: st32_def)

section \<open>The operations\<close>

text \<open>What a balanced \<^verbatim>\<open>acquire\<close> and \<^verbatim>\<open>release\<close> leaves in the CPU record.\<close>

definition settle :: "'a kmem_scheme \<Rightarrow> cpu" where
  "settle s = (if use_lock s \<and> ncli (kcpu s) = 0 then (kcpu s)\<lparr>intena := fl_if (kcpu s)\<rparr> else kcpu s)"

lemma cpu_ok_settle: "cpu_ok (kcpu s) \<Longrightarrow> cpu_ok (settle s)"
  by (simp add: settle_def cpu_ok_def)

lemma kmem_acquire_free:
  "lock_free s \<Longrightarrow> kmem_acquire s =
     Inr (if use_lock s then s\<lparr>klock := (klock s)\<lparr>locked := 1, lcpu := Some (kme s)\<rparr>, kcpu := pushcli (kcpu s)\<rparr> else s)"
  by (simp add: kmem_acquire_def lock_free_def acquire_free)

lemma kmem_release_after:
  "lock_free s \<Longrightarrow> use_lock s \<Longrightarrow>
     kmem_release (s\<lparr>klock := (klock s)\<lparr>locked := 1, lcpu := Some (kme s)\<rparr>, kcpu := pushcli (kcpu s),
       kmemory := M, freelist := F\<rparr>) = Inr (s\<lparr>kcpu := settle s, kmemory := M, freelist := F\<rparr>)"
  by (simp add: kmem_release_def lock_free_def release_after_acquire settle_def)

lemma kmem_upd_id: "s\<lparr>kcpu := kcpu s\<rparr> = s" "s\<lparr>kmemory := kmemory s\<rparr> = s" "s\<lparr>freelist := freelist s\<rparr> = s"
  by simp_all

lemma kalloc_eq:
  assumes "lock_free s"
  shows "kalloc s = Inr (freelist s, s\<lparr>kcpu := settle s,
     freelist := (if freelist s \<noteq> 0 then ld32 (kmemory s) (freelist s) else freelist s)\<rparr>)"
proof (cases "use_lock s")
  case True
  have "\<And>F. kmem_release (s\<lparr>klock := (klock s)\<lparr>locked := 1, lcpu := Some (kme s)\<rparr>, kcpu := pushcli (kcpu s),
      freelist := F\<rparr>) = Inr (s\<lparr>kcpu := settle s, freelist := F\<rparr>)"
    using kmem_release_after [OF assms True, where M = "kmemory s"] by simp
  from this [of "freelist s"] this [of "ld32 (kmemory s) (freelist s)"] show ?thesis
    using True assms by (simp add: kalloc_def kmem_acquire_free Let_def)
next
  case False
  then show ?thesis using assms
    by (simp add: kalloc_def kmem_acquire_free kmem_release_def Let_def settle_def)
qed

lemma kfree_eq:
  assumes "lock_free s" "kowned s v"
  shows "kfree v s = Inr (s\<lparr>kcpu := settle s, kmemory := st32 (memset (kmemory s) v 1 PGSIZE) v (freelist s),
     freelist := v\<rparr>)"
proof (cases "use_lock s")
  case True
  let ?s = "s\<lparr>kmemory := memset (kmemory s) v 1 PGSIZE\<rparr>"
  have "lock_free ?s" using assms(1) by (simp add: lock_free_def)
  from kmem_release_after [OF this, where M = "st32 (kmemory ?s) v (freelist s)" and F = v] True
  show ?thesis using assms(2) \<open>lock_free ?s\<close>
    by (simp add: kfree_def kowned_def kmem_acquire_free Let_def settle_def not_le not_less)
next
  case False
  then show ?thesis using assms
    by (simp add: kfree_def kowned_def kmem_acquire_free kmem_release_def Let_def settle_def lock_free_def
        kmem_acquire_def not_le not_less)
qed

lemma kfree_not_owned: "\<not> kowned s v \<Longrightarrow> kfree v s = Inl (Panic ''kfree'')"
  by (auto simp: kfree_def kowned_def not_le not_less)

lemma kfree_frame:
  "aligned v \<Longrightarrow> \<not> in_range x v 4096 \<Longrightarrow> st32 (memset m v 1 PGSIZE) v w x = m x"
  by (simp add: st32_frame memset_is_stosb stosb_eq PGSIZE_def)

lemma kpool_alloc_empty:
  "kpool s [] \<Longrightarrow> \<exists>s'. kalloc s = Inr (0, s') \<and> kpool s' [] \<and> kmemory s' = kmemory s \<and> kowned s' = kowned s"
  by (auto simp: kpool_def kalloc_eq lock_free_def cpu_ok_settle kowned_def)

lemma kpool_alloc_page:
  assumes "kpool s (p # ps)"
  shows "\<exists>s'. kalloc s = Inr (p, s') \<and> kpool s' ps \<and> kmemory s' = kmemory s \<and> kowned s' = kowned s"
proof -
  from assms have "freelist s = p" "p \<noteq> 0" "lock_free s"
    using kowned_not_null [of s p] by (auto simp: kpool_def)
  with assms show ?thesis
    by (auto simp: kpool_def kalloc_eq lock_free_def cpu_ok_settle kowned_def)
qed

lemma kpool_free_page:
  assumes "kpool s ps" "kowned s p" "p \<notin> set ps"
  shows "\<exists>s'. kfree p s = Inr s' \<and> kpool s' (p # ps) \<and> kowned s' = kowned s
     \<and> (\<forall>x. \<not> in_range x p 4096 \<longrightarrow> kmemory s' x = kmemory s x)
     \<and> kend s' = kend s \<and> use_lock s' = use_lock s"
proof -
  let ?m = "st32 (memset (kmemory s) p 1 PGSIZE) p (freelist s)"
  let ?s = "s\<lparr>kcpu := settle s, kmemory := ?m, freelist := p\<rparr>"
  have lf: "lock_free s" using assms(1) by (simp add: kpool_def)
  have al: "aligned p" using assms(2) by (rule kowned_aligned)
  have fr: "\<not> in_range x p 4096 \<Longrightarrow> ?m x = kmemory s x" for x
    by (rule kfree_frame [OF al])
  have "\<forall>q \<in> set ps. aligned q \<and> (\<forall>x. in_range x q 4096 \<longrightarrow> ?m x = kmemory s x)"
  proof
    fix q assume q: "q \<in> set ps"
    then have "aligned q" using assms(1) by (auto simp: kpool_def intro: kowned_aligned)
    moreover have "q \<noteq> p" using q assms(3) by auto
    ultimately show "aligned q \<and> (\<forall>x. in_range x q 4096 \<longrightarrow> ?m x = kmemory s x)"
      using al fr pages_disjoint by blast
  qed
  then have "linked ?m (freelist s) ps"
    using assms(1) linked_frame unfolding kpool_def by blast
  then have "kpool ?s (p # ps)"
    using assms lf by (auto simp: kpool_def lock_free_def cpu_ok_settle kowned_def)
  with fr show ?thesis
    using kfree_eq [OF lf assms(2)] by (auto simp: kowned_def)
qed

interpretation ka: page_allocator kalloc kfree kpool kmemory kowned
proof unfold_locales
  fix s :: "'a kmem_scheme" and p ps
  show "kpool s [] \<Longrightarrow> \<exists>s'. kalloc s = Inr (0, s') \<and> kpool s' [] \<and> kmemory s' = kmemory s \<and> kowned s' = kowned s"
    by (rule kpool_alloc_empty)
  show "kpool s (p # ps) \<Longrightarrow>
      \<exists>s'. kalloc s = Inr (p, s') \<and> kpool s' ps \<and> kmemory s' = kmemory s \<and> kowned s' = kowned s"
    by (rule kpool_alloc_page)
  show "kpool s ps \<Longrightarrow> kowned s p \<Longrightarrow> p \<notin> set ps \<Longrightarrow>
      \<exists>s'. kfree p s = Inr s' \<and> kpool s' (p # ps) \<and> kowned s' = kowned s
        \<and> (\<forall>x. \<not> in_range x p 4096 \<longrightarrow> kmemory s' x = kmemory s x)"
    using kpool_free_page [of s ps p] by blast
  show "\<not> kowned s p \<Longrightarrow> \<exists>msg. kfree p s = Inl (Panic msg)"
    using kfree_not_owned [of s p] by blast
  show "kpool s ps \<Longrightarrow> distinct ps \<and> (\<forall>p \<in> set ps. kowned s p)"
    by (simp add: kpool_def)
  show "kowned s p \<Longrightarrow> p \<noteq> 0"
    by (rule kowned_not_null)
qed

section \<open>Initialisation\<close>

text \<open>The whole pages between \<^verbatim>\<open>p\<close> and \<^verbatim>\<open>vend\<close>.\<close>

definition pages_between :: "addr \<Rightarrow> addr \<Rightarrow> addr set" where
  "pages_between p vend = {q. aligned q \<and> p \<le> q \<and> unat q + 4096 \<le> unat vend}"

lemma unat_next_page: "unat p \<le> 0x8E000000 \<Longrightarrow> unat (p + PGSIZE) = unat p + 4096"
  by (simp add: PGSIZE_def unat_word_ariths)

lemma pages_between_step:
  assumes "aligned p" "unat p \<le> 0x8E000000" "p + PGSIZE \<le> vend"
  shows "pages_between p vend = insert p (pages_between (p + PGSIZE) vend)"
proof -
  have n: "unat (p + PGSIZE) = unat p + 4096" by (rule unat_next_page) fact
  have st: "unat q = unat p \<or> unat p + 4096 \<le> unat q" if q: "aligned q" "unat p \<le> unat q" for q
  proof -
    obtain k l where kl: "unat p = 4096 * k" "unat q = 4096 * l"
      using q(1) assms(1) unfolding aligned_def by (meson mod_0_imp_dvd dvdE)
    then have "k \<le> l" using q(2) by simp
    then show ?thesis using kl by (cases "k = l") auto
  qed
  show ?thesis
    using assms n by (auto simp: pages_between_def word_le_nat_alt word_unat_eq_iff dest: st)
qed

lemma pages_between_none: "unat p \<le> 0x8E000000 \<Longrightarrow> \<not> p + PGSIZE \<le> vend \<Longrightarrow> pages_between p vend = {}"
  using unat_next_page [of p] by (auto simp: pages_between_def word_le_nat_alt)

lemma freerange_loop_pool:
  assumes "kpool s ps" "aligned p" "unat p \<le> 0x8E000000" "unat vend \<le> 0x8E000000"
    and "KERNBASE \<le> p" "kend s \<le> p" "set ps \<inter> pages_between p vend = {}"
  shows "\<exists>s' qs. freerange_loop p vend s = Inr s' \<and> kpool s' (qs @ ps) \<and> set qs = pages_between p vend
     \<and> kend s' = kend s \<and> use_lock s' = use_lock s"
  using assms
proof (induction p vend s arbitrary: ps rule: freerange_loop.induct)
  case (1 p vend s)
  show ?case
  proof (cases "p + PGSIZE \<le> vend")
    case False
    then show ?thesis using 1 by (simp add: freerange_loop.simps [of p vend s] pages_between_none)
  next
    case True
    have n: "unat (p + PGSIZE) = unat p + 4096" using 1 by (intro unat_next_page)
    note pb = pages_between_step [OF "1.prems"(2,3) True]
    have ow: "kowned s p"
      using 1 True n by (auto simp: kowned_def V2P_below_PHYSTOP KERNBASE_def PGSIZE_def aligned_def
          word_le_nat_alt word_unat_eq_iff unat_mod)
    then obtain s1 where s1: "kfree p s = Inr s1" "kpool s1 (p # ps)" "kend s1 = kend s" "use_lock s1 = use_lock s"
      using kpool_free_page [of s ps p] "1.prems" pb by blast
    have "p \<notin> pages_between (p + PGSIZE) vend" using n by (simp add: pages_between_def word_le_nat_alt)
    then have "\<exists>s' qs. freerange_loop (p + PGSIZE) vend s1 = Inr s' \<and> kpool s' (qs @ p # ps)
        \<and> set qs = pages_between (p + PGSIZE) vend \<and> kend s' = kend s1 \<and> use_lock s' = use_lock s1"
      using "1.prems" True n s1 pb
      by (intro "1.IH" [OF True]) (auto simp: aligned_add_PGSIZE word_le_nat_alt KERNBASE_def)
    then obtain s' qs where s': "freerange_loop (p + PGSIZE) vend s1 = Inr s'" "kpool s' (qs @ p # ps)"
        "set qs = pages_between (p + PGSIZE) vend" "kend s' = kend s" "use_lock s' = use_lock s"
      using s1 by auto
    then show ?thesis using True s1 pb
      by (intro exI [of _ s'] exI [of _ "qs @ [p]"]) (auto simp: freerange_loop.simps [of p vend s])
  qed
qed

lemma kowned_iff:
  "kowned s p \<longleftrightarrow> aligned p \<and> kend s \<le> p \<and> 0x80000000 \<le> unat p \<and> unat p < 0x8E000000"
  by (auto simp: kowned_def V2P_below_PHYSTOP aligned_def PGSIZE_def word_unat_eq_iff unat_mod)

lemma aligned_below:
  assumes "aligned p" "unat p < 4096 * k"
  shows "unat p + 4096 \<le> 4096 * k"
proof -
  obtain j where "unat p = 4096 * j" using assms(1) unfolding aligned_def by (meson mod_0_imp_dvd dvdE)
  with assms(2) have "j < k" by simp
  with \<open>unat p = 4096 * j\<close> show ?thesis by simp
qed

lemma PGROUNDUP_le_aligned:
  assumes "aligned p" "unat a \<le> 0x8E000000"
  shows "PGROUNDUP a \<le> p \<longleftrightarrow> a \<le> p"
proof -
  obtain j where j: "unat p = 4096 * j" using assms(1) unfolding aligned_def by (meson mod_0_imp_dvd dvdE)
  have "(unat a + 4095) div 4096 < Suc j \<longleftrightarrow> unat a + 4095 < Suc j * 4096"
    by (rule div_less_iff_less_mult) simp
  then have "(unat a + 4095) div 4096 * 4096 \<le> 4096 * j \<longleftrightarrow> unat a \<le> 4096 * j" by auto
  then show ?thesis using j assms(2) by (simp add: word_le_nat_alt unat_PGROUNDUP)
qed

lemma freerange_pool:
  assumes "kpool s ps" "KERNBASE \<le> vstart" "kend s \<le> vstart" "unat vstart \<le> 0x8DFF0000" "unat vend \<le> 0x8E000000"
    and "set ps \<inter> pages_between vstart vend = {}"
  shows "\<exists>s' qs. freerange vstart vend s = Inr s' \<and> kpool s' (qs @ ps) \<and> set qs = pages_between vstart vend
     \<and> kend s' = kend s \<and> use_lock s' = use_lock s"
proof -
  have up: "unat (PGROUNDUP vstart) = (unat vstart + 4095) div 4096 * 4096"
    using assms(4) by (simp add: unat_PGROUNDUP)
  have le: "vstart \<le> PGROUNDUP vstart"
    using PGROUNDUP_le_aligned [of "PGROUNDUP vstart" vstart] assms(4) by simp
  have pb: "pages_between (PGROUNDUP vstart) vend = pages_between vstart vend"
    using assms(4) by (auto simp: pages_between_def PGROUNDUP_le_aligned)
  have "unat (PGROUNDUP vstart) \<le> 0x8E000000" using up assms(4) by linarith
  then show ?thesis
    using freerange_loop_pool [of s ps "PGROUNDUP vstart" vend] assms le pb
    by (auto simp: freerange_def intro: order_trans)
qed

section \<open>Properties\<close>

text \<open>
  C8: the allocator is a stack of distinct pages: with the pages \<^verbatim>\<open>ps\<close> free, \<^verbatim>\<open>kalloc\<close> returns null
  exactly when there is none and otherwise takes the first one, leaving memory unchanged;
  \<^verbatim>\<open>kfree\<close> of a managed page that is not already free puts it in front and changes memory only
  inside that page; \<^verbatim>\<open>kfree\<close> of anything else (misaligned, inside the kernel image, beyond physical
  memory) panics.
\<close>

theorem kalloc_kfree_stack:
  assumes "kpool s ps"
  shows "(\<exists>s'. kalloc s = Inr (if ps = [] then 0 else hd ps, s') \<and> kpool s' (tl ps) \<and> kmemory s' = kmemory s)
     \<and> (kowned s p \<and> p \<notin> set ps \<longrightarrow> (\<exists>s'. kfree p s = Inr s' \<and> kpool s' (p # ps)
          \<and> (\<forall>x. \<not> in_range x p 4096 \<longrightarrow> kmemory s' x = kmemory s x)))
     \<and> (\<not> kowned s p \<longrightarrow> kfree p s = Inl (Panic ''kfree''))"
proof -
  obtain q s' where "kalloc s = Inr (q, s')" "kpool s' (tl ps)" "kmemory s' = kmemory s"
      "q = (if ps = [] then 0 else hd ps)"
    using ka.alloc_total [OF assms] by auto
  then show ?thesis
    using ka.dealloc_page [OF assms, of p] kfree_not_owned [of s p] by blast
qed

theorem kalloc_kfree_stack_witness:
  "\<exists>s'. kalloc \<lparr>klock = initlock ''kmem'', use_lock = True, freelist = 0x80200000, kmemory = (\<lambda>_. 0),
       kcpu = \<lparr>ncli = 0, intena = False, fl_if = True\<rparr>, kme = 0, kend = 0x80110000\<rparr> = Inr (0x80200000, s')
     \<and> kpool s' []"
proof -
  let ?s = "\<lparr>klock = initlock ''kmem'', use_lock = True, freelist = 0x80200000, kmemory = (\<lambda>_. 0),
       kcpu = \<lparr>ncli = 0, intena = False, fl_if = True\<rparr>, kme = 0, kend = 0x80110000\<rparr>"
  have "kpool ?s [0x80200000]"
    by (simp add: kpool_def kowned_def lock_free_def initlock_def cpu_ok_def ld32_def layout_defs V2P_def)
  from kalloc_kfree_stack [OF this, THEN conjunct1] show ?thesis by auto
qed

text \<open>
  C9: booting makes every physical page from the end of the kernel image to \<^verbatim>\<open>PHYSTOP\<close> available:
  after \<^verbatim>\<open>kinit1(end, P2V(4MB))\<close> and \<^verbatim>\<open>kinit2(P2V(4MB), P2V(PHYSTOP))\<close> from an empty free list the
  free pages are exactly the pages the allocator manages, each once, and the allocator's lock is
  in use.
\<close>

theorem kinit_frees_every_page:
  assumes "freelist s = 0" and "cpu_ok (kcpu s)"
    and "KERNBASE \<le> kend s" and "kend s \<le> P2V 0x400000"
  shows "\<exists>s1 s2 ps. kinit1 (kend s) (P2V 0x400000) s = Inr s1
     \<and> kinit2 (P2V 0x400000) (P2V PHYSTOP) s1 = Inr s2
     \<and> kpool s2 ps \<and> set ps = {p. kowned s2 p} \<and> kend s2 = kend s \<and> use_lock s2"
proof -
  let ?s0 = "s\<lparr>klock := initlock ''kmem'', use_lock := False\<rparr>"
  have a: "unat (P2V 0x400000) = 0x80400000" "unat (P2V PHYSTOP) = 0x8E000000"
    by (simp_all add: P2V_def KERNBASE_def PHYSTOP_def)
  have e: "unat (kend s) \<le> 0x80400000" using assms(4) a(1) by (simp add: word_le_nat_alt)
  have "kpool ?s0 []" using assms(1,2) by (simp add: kpool_def lock_free_def initlock_def)
  then obtain s1 p1 where s1: "freerange (kend s) (P2V 0x400000) ?s0 = Inr s1" "kpool s1 p1"
      "set p1 = pages_between (kend s) (P2V 0x400000)" "kend s1 = kend s"
    using freerange_pool [of ?s0 "[]" "kend s" "P2V 0x400000"] assms(3) a e by auto
  have "set p1 \<inter> pages_between (P2V 0x400000) (P2V PHYSTOP) = {}"
    using s1(3) a by (auto simp: pages_between_def word_le_nat_alt)
  moreover have "KERNBASE \<le> P2V 0x400000" by (simp add: P2V_def KERNBASE_def)
  ultimately obtain s2 p2 where s2: "freerange (P2V 0x400000) (P2V PHYSTOP) s1 = Inr s2" "kpool s2 (p2 @ p1)"
      "set p2 = pages_between (P2V 0x400000) (P2V PHYSTOP)" "kend s2 = kend s1"
    using freerange_pool [of s1 p1 "P2V 0x400000" "P2V PHYSTOP"] s1 assms(4) a by auto
  let ?s2 = "s2\<lparr>use_lock := True\<rparr>"
  have "set (p2 @ p1) = {p. kowned ?s2 p}"
  proof (rule set_eqI)
    fix p
    have "aligned p \<Longrightarrow> unat p < 0x80400000 \<Longrightarrow> unat p + 4096 \<le> 0x80400000"
      and "aligned p \<Longrightarrow> unat p < 0x8E000000 \<Longrightarrow> unat p + 4096 \<le> 0x8E000000"
      using aligned_below [of p "0x80400"] aligned_below [of p "0x8E000"] by simp_all
    moreover have "0x80000000 \<le> unat (kend s)" using assms(3) by (simp add: KERNBASE_def word_le_nat_alt)
    ultimately show "p \<in> set (p2 @ p1) \<longleftrightarrow> p \<in> {p. kowned ?s2 p}"
      using s1(3,4) s2(3,4) a e by (auto simp: kowned_iff pages_between_def word_le_nat_alt)
  qed
  moreover have "kpool ?s2 (p2 @ p1)"
    using s2(2) by (simp add: kpool_def kowned_def lock_free_def)
  ultimately show ?thesis
    using s1 s2 by (intro exI [of _ s1] exI [of _ ?s2] exI [of _ "p2 @ p1"]) (simp add: kinit1_def kinit2_def)
qed

theorem kinit_frees_every_page_witness:
  "\<exists>s1 s2 ps. kinit1 0x80115000 (P2V 0x400000)
       \<lparr>klock = initlock [], use_lock = True, freelist = 0, kmemory = (\<lambda>_. 0),
        kcpu = \<lparr>ncli = 0, intena = False, fl_if = False\<rparr>, kme = 0, kend = 0x80115000\<rparr> = Inr s1
     \<and> kinit2 (P2V 0x400000) (P2V PHYSTOP) s1 = Inr s2 \<and> kpool s2 ps \<and> set ps = {p. kowned s2 p}"
  using kinit_frees_every_page [of "\<lparr>klock = initlock [], use_lock = True, freelist = 0, kmemory = (\<lambda>_. 0),
        kcpu = \<lparr>ncli = 0, intena = False, fl_if = False\<rparr>, kme = 0, kend = 0x80115000\<rparr>"]
  by (auto simp: cpu_ok_def KERNBASE_def P2V_def)

end
