(* ===== verification/Vm_c.thy ===== *)
theory Vm_c
  imports Kalloc_c
begin

text \<open>
  Page tables and process address spaces (\<^verbatim>\<open>vm.c\<close>).  Page directories and tables are pages of kernel
  memory that come from the allocator; an entry is the little-endian word at its address, and
  address 0 stands for a null entry pointer.  The messages printed on lack of memory are left out;
  segment descriptors are not modelled.
\<close>

unbundle bit_operations_syntax

section \<open>Definitions\<close>

text \<open>
  The allocator's state extended with the address \<^verbatim>\<open>data\<close> of the linker, \<^verbatim>\<open>kpgdir\<close>, the page table register
  and the kernel stack pointer in the task state.
\<close>

record vmst = kmem +
  kdata :: addr
  kpgdir :: addr
  cr3 :: uint
  esp0 :: uint

definition pde_at :: "addr \<Rightarrow> addr \<Rightarrow> addr" where
  "pde_at pgdir va = pgdir + 4 * PDX va"

definition pte_at :: "addr \<Rightarrow> addr \<Rightarrow> addr" where
  "pte_at pgtab va = pgtab + 4 * PTX va"

definition walkpgdir :: "addr \<Rightarrow> addr \<Rightarrow> bool \<Rightarrow> 'a kmem_scheme \<Rightarrow> (addr \<times> 'a kmem_scheme) res" where
  "walkpgdir pgdir va alloc s =
     (let pde = ld32 (kmemory s) (pde_at pgdir va) in
      if pde AND PTE_P \<noteq> 0 then Inr (pte_at (P2V (PTE_ADDR pde)) va, s)
      else if \<not> alloc then Inr (0, s)
      else bindE (kalloc s) (\<lambda>(pgtab, s).
        if pgtab = 0 then Inr (0, s)
        else
          let s = s\<lparr>kmemory := memset (kmemory s) pgtab 0 PGSIZE\<rparr>;
              s = s\<lparr>kmemory := st32 (kmemory s) (pde_at pgdir va) (V2P pgtab OR PTE_P OR PTE_W OR PTE_U)\<rparr>
          in Inr (pte_at pgtab va, s)))"

text \<open>
  The loop of \<^verbatim>\<open>mappages\<close>, \<^verbatim>\<open>n\<close> being the number of pages from \<^verbatim>\<open>a\<close> up to \<^verbatim>\<open>last\<close>, which are both aligned.  The
  result is 0 or -1.
\<close>

fun mappages_loop :: "nat \<Rightarrow> addr \<Rightarrow> addr \<Rightarrow> uint \<Rightarrow> uint \<Rightarrow> 'a kmem_scheme \<Rightarrow> (int \<times> 'a kmem_scheme) res" where
  "mappages_loop n pgdir a pa perm s =
     bindE (walkpgdir pgdir a True s) (\<lambda>(pte, s).
       if pte = 0 then Inr (- 1, s)
       else if ld32 (kmemory s) pte AND PTE_P \<noteq> 0 then Inl (Panic ''remap'')
       else
         let s = s\<lparr>kmemory := st32 (kmemory s) pte (pa OR perm OR PTE_P)\<rparr> in
         case n of 0 \<Rightarrow> Inr (0, s) | Suc n \<Rightarrow> mappages_loop n pgdir (a + PGSIZE) (pa + PGSIZE) perm s)"

declare mappages_loop.simps [simp del]

definition mappages :: "addr \<Rightarrow> addr \<Rightarrow> uint \<Rightarrow> uint \<Rightarrow> uint \<Rightarrow> 'a kmem_scheme \<Rightarrow> (int \<times> 'a kmem_scheme) res" where
  "mappages pgdir va sz pa perm s =
     (let a = PGROUNDDOWN va; last = PGROUNDDOWN (va + sz - 1)
      in mappages_loop (unat (last - a) div 4096) pgdir a pa perm s)"

text \<open>
  The loop of \<^verbatim>\<open>deallocuvm\<close>.  A page directory entry that is not present is skipped as a whole.  The loop
  would start over if the address wrapped around, which needs a size in the last 4 megabytes.
\<close>

function deallocuvm_loop :: "addr \<Rightarrow> uint \<Rightarrow> uint \<Rightarrow> 'a kmem_scheme \<Rightarrow> 'a kmem_scheme res" where
  "deallocuvm_loop pgdir oldsz a s =
     (if a < oldsz then
        bindE (walkpgdir pgdir a False s) (\<lambda>(pte, s).
          if pte = 0 then
            let a' = PGADDR (PDX a + 1) 0 0
            in if a' \<le> a then Inl Loops else deallocuvm_loop pgdir oldsz a' s
          else
            bindE (if ld32 (kmemory s) pte AND PTE_P \<noteq> 0 then
                     let pa = PTE_ADDR (ld32 (kmemory s) pte) in
                     if pa = 0 then Inl (Panic ''kfree'')
                     else bindE (kfree (P2V pa) s) (\<lambda>s. Inr (s\<lparr>kmemory := st32 (kmemory s) pte 0\<rparr>))
                   else Inr s) (\<lambda>s.
            let a' = a + PGSIZE
            in if a' \<le> a then Inl Loops else deallocuvm_loop pgdir oldsz a' s))
      else Inr s)"
  by pat_completeness auto
termination
  by (relation "measure (\<lambda>(pgdir, oldsz, a, s). unat oldsz - unat a)") (auto simp: word_less_nat_alt word_le_nat_alt)

declare deallocuvm_loop.simps [simp del]

definition deallocuvm :: "addr \<Rightarrow> uint \<Rightarrow> uint \<Rightarrow> 'a kmem_scheme \<Rightarrow> (uint \<times> 'a kmem_scheme) res" where
  "deallocuvm pgdir oldsz newsz s =
     (if newsz \<ge> oldsz then Inr (oldsz, s)
      else bindE (deallocuvm_loop pgdir oldsz (PGROUNDUP newsz) s) (\<lambda>s. Inr (newsz, s)))"

definition freevm_entry :: "addr \<Rightarrow> nat \<Rightarrow> 'a kmem_scheme \<Rightarrow> 'a kmem_scheme res" where
  "freevm_entry pgdir i s =
     (let pde = ld32 (kmemory s) (pgdir + 4 * of_nat i)
      in if pde AND PTE_P \<noteq> 0 then kfree (P2V (PTE_ADDR pde)) s else Inr s)"

definition freevm :: "addr \<Rightarrow> 'a kmem_scheme \<Rightarrow> 'a kmem_scheme res" where
  "freevm pgdir s =
     (if pgdir = 0 then Inl (Panic ''freevm: no pgdir'')
      else
        bindE (deallocuvm pgdir KERNBASE 0 s) (\<lambda>(_, s).
        bindE (foldE (freevm_entry pgdir) [0..<unat NPDENTRIES] s) (\<lambda>s. kfree pgdir s)))"

text \<open>The table \<^verbatim>\<open>kmap\<close>: virtual start, physical start and end, permissions.\<close>

definition kmap :: "addr \<Rightarrow> (addr \<times> uint \<times> uint \<times> uint) list" where
  "kmap dat = [(KERNBASE, 0, EXTMEM, PTE_W), (KERNLINK, V2P KERNLINK, V2P dat, 0), (dat, V2P dat, PHYSTOP, PTE_W),
     (DEVSPACE, DEVSPACE, 0, PTE_W)]"

fun setupkvm_loop :: "addr \<Rightarrow> (addr \<times> uint \<times> uint \<times> uint) list \<Rightarrow> 'a vmst_scheme \<Rightarrow> (addr \<times> 'a vmst_scheme) res" where
  "setupkvm_loop pgdir [] s = Inr (pgdir, s)"
| "setupkvm_loop pgdir ((virt, ps, pe, perm) # ks) s =
     bindE (mappages pgdir virt (pe - ps) ps perm s) (\<lambda>(r, s).
       if r < 0 then bindE (freevm pgdir s) (\<lambda>s. Inr (0, s)) else setupkvm_loop pgdir ks s)"

definition setupkvm :: "'a vmst_scheme \<Rightarrow> (addr \<times> 'a vmst_scheme) res" where
  "setupkvm s =
     bindE (kalloc s) (\<lambda>(pgdir, s).
       if pgdir = 0 then Inr (0, s)
       else
         let s = s\<lparr>kmemory := memset (kmemory s) pgdir 0 PGSIZE\<rparr> in
         if P2V PHYSTOP > DEVSPACE then Inl (Panic ''PHYSTOP too high'')
         else setupkvm_loop pgdir (kmap (kdata s)) s)"

definition switchkvm :: "'a vmst_scheme \<Rightarrow> 'a vmst_scheme" where
  "switchkvm s = s\<lparr>cr3 := V2P (kpgdir s)\<rparr>"

definition kvmalloc :: "'a vmst_scheme \<Rightarrow> 'a vmst_scheme res" where
  "kvmalloc s = bindE (setupkvm s) (\<lambda>(p, s). Inr (switchkvm (s\<lparr>kpgdir := p\<rparr>)))"

text \<open>\<^verbatim>\<open>switchuvm\<close> for the process with this kernel stack and page directory.\<close>

definition switchuvm :: "addr \<Rightarrow> addr \<Rightarrow> 'a vmst_scheme \<Rightarrow> 'a vmst_scheme res" where
  "switchuvm kstack pgdir s =
     (if kstack = 0 then Inl (Panic ''switchuvm: no kstack'')
      else if pgdir = 0 then Inl (Panic ''switchuvm: no pgdir'')
      else
        let s = s\<lparr>kcpu := pushcli (kcpu s)\<rparr>;
            s = s\<lparr>esp0 := kstack + 4096\<rparr>;
            s = s\<lparr>cr3 := V2P pgdir\<rparr>
        in bindE (popcli (kcpu s)) (\<lambda>c. Inr (s\<lparr>kcpu := c\<rparr>)))"

text \<open>\<^verbatim>\<open>init\<close> is the address of the code in kernel memory.\<close>

definition inituvm :: "addr \<Rightarrow> addr \<Rightarrow> uint \<Rightarrow> 'a kmem_scheme \<Rightarrow> 'a kmem_scheme res" where
  "inituvm pgdir init sz s =
     (if sz \<ge> PGSIZE then Inl (Panic ''inituvm: more than a page'')
      else
        bindE (kalloc s) (\<lambda>(mem, s).
        bindE (mappages pgdir 0 PGSIZE (V2P mem) (PTE_W OR PTE_U) (s\<lparr>kmemory := memset (kmemory s) mem 0 PGSIZE\<rparr>)) (\<lambda>(_, s).
        Inr (s\<lparr>kmemory := memmove (kmemory s) mem init sz\<rparr>))))"

text \<open>The loop of \<^verbatim>\<open>allocuvm\<close>; the new size is below \<^verbatim>\<open>KERNBASE\<close>, so the address does not wrap.\<close>

function allocuvm_loop :: "addr \<Rightarrow> uint \<Rightarrow> uint \<Rightarrow> nat \<Rightarrow> 'a kmem_scheme \<Rightarrow> (uint \<times> 'a kmem_scheme) res" where
  "allocuvm_loop pgdir oldsz newsz a s =
     (if a < unat newsz then
        bindE (kalloc s) (\<lambda>(mem, s).
          if mem = 0 then bindE (deallocuvm pgdir newsz oldsz s) (\<lambda>(_, s). Inr (0, s))
          else
            bindE (mappages pgdir (of_nat a) PGSIZE (V2P mem) (PTE_W OR PTE_U) (s\<lparr>kmemory := memset (kmemory s) mem 0 PGSIZE\<rparr>))
              (\<lambda>(r, s).
                if r < 0 then
                  bindE (deallocuvm pgdir newsz oldsz s) (\<lambda>(_, s). bindE (kfree mem s) (\<lambda>s. Inr (0, s)))
                else allocuvm_loop pgdir oldsz newsz (a + 4096) s))
      else Inr (newsz, s))"
  by pat_completeness auto
termination
  by (relation "measure (\<lambda>(pgdir, oldsz, newsz, a, s). unat newsz - a)") auto

declare allocuvm_loop.simps [simp del]

definition allocuvm :: "addr \<Rightarrow> uint \<Rightarrow> uint \<Rightarrow> 'a kmem_scheme \<Rightarrow> (uint \<times> 'a kmem_scheme) res" where
  "allocuvm pgdir oldsz newsz s =
     (if newsz \<ge> KERNBASE then Inr (0, s)
      else if newsz < oldsz then Inr (oldsz, s)
      else allocuvm_loop pgdir oldsz newsz (unat (PGROUNDUP oldsz)) s)"

definition clearpteu :: "addr \<Rightarrow> addr \<Rightarrow> 'a kmem_scheme \<Rightarrow> 'a kmem_scheme res" where
  "clearpteu pgdir uva s =
     bindE (walkpgdir pgdir uva False s) (\<lambda>(pte, s).
       if pte = 0 then Inl (Panic ''clearpteu'')
       else Inr (s\<lparr>kmemory := st32 (kmemory s) pte (ld32 (kmemory s) pte AND NOT PTE_U)\<rparr>))"

text \<open>The loop of \<^verbatim>\<open>copyuvm\<close> from address \<^verbatim>\<open>i\<close> on; a size in user memory does not make it wrap.\<close>

function copyuvm_loop :: "addr \<Rightarrow> addr \<Rightarrow> nat \<Rightarrow> nat \<Rightarrow> 'a kmem_scheme \<Rightarrow> (addr \<times> 'a kmem_scheme) res" where
  "copyuvm_loop d pgdir sz i s =
     (if i < sz then
        bindE (walkpgdir pgdir (of_nat i) False s) (\<lambda>(pte, s).
          if pte = 0 then Inl (Panic ''copyuvm: pte should exist'')
          else if ld32 (kmemory s) pte AND PTE_P = 0 then Inl (Panic ''copyuvm: page not present'')
          else
            let pa = PTE_ADDR (ld32 (kmemory s) pte); flags = PTE_FLAGS (ld32 (kmemory s) pte) in
            bindE (kalloc s) (\<lambda>(mem, s).
              if mem = 0 then bindE (freevm d s) (\<lambda>s. Inr (0, s))
              else
                bindE (mappages d (of_nat i) PGSIZE (V2P mem) flags (s\<lparr>kmemory := memmove (kmemory s) mem (P2V pa) PGSIZE\<rparr>)) (\<lambda>(r, s).
                  if r < 0 then bindE (kfree mem s) (\<lambda>s. bindE (freevm d s) (\<lambda>s. Inr (0, s)))
                  else copyuvm_loop d pgdir sz (i + 4096) s)))
      else Inr (d, s))"
  by pat_completeness auto
termination
  by (relation "measure (\<lambda>(d, pgdir, sz, i, s). sz - i)") auto

declare copyuvm_loop.simps [simp del]

definition copyuvm :: "addr \<Rightarrow> uint \<Rightarrow> 'a vmst_scheme \<Rightarrow> (addr \<times> 'a vmst_scheme) res" where
  "copyuvm pgdir sz s =
     bindE (setupkvm s) (\<lambda>(d, s). if d = 0 then Inr (0, s) else copyuvm_loop d pgdir (unat sz) 0 s)"

text \<open>\<^verbatim>\<open>uva2ka\<close> reads through the entry pointer without asking whether it is null.\<close>

definition uva2ka :: "addr \<Rightarrow> addr \<Rightarrow> 'a kmem_scheme \<Rightarrow> addr res" where
  "uva2ka pgdir uva s =
     bindE (walkpgdir pgdir uva False s) (\<lambda>(pte, s).
       if pte = 0 then Inl Fault
       else
         let e = ld32 (kmemory s) pte in
         if e AND PTE_P = 0 then Inr 0
         else if e AND PTE_U = 0 then Inr 0
         else Inr (P2V (PTE_ADDR e)))"

text \<open>\<^verbatim>\<open>copyout\<close> of the bytes at \<^verbatim>\<open>p\<close>.\<close>

function copyout :: "addr \<Rightarrow> uint \<Rightarrow> uchar list \<Rightarrow> 'a kmem_scheme \<Rightarrow> (int \<times> 'a kmem_scheme) res" where
  "copyout pgdir va buf s =
     (if buf \<noteq> [] then
        let va0 = PGROUNDDOWN va in
        bindE (uva2ka pgdir va0 s) (\<lambda>pa0.
          if pa0 = 0 then Inr (- 1, s)
          else
            let n = min (4096 - unat (va - va0)) (length buf);
                s = s\<lparr>kmemory := wr (kmemory s) (pa0 + (va - va0)) (take n buf)\<rparr>
            in copyout pgdir (va0 + PGSIZE) (drop n buf) s)
      else Inr (0, s))"
  by pat_completeness auto
termination
proof (relation "measure (\<lambda>(pgdir, va, buf, s). length buf)", simp)
  fix pgdir va va0 pa0 :: addr and buf :: "uchar list" and n :: nat and s s' :: "'a kmem_scheme"
  assume a: "buf \<noteq> []" "va0 = PGROUNDDOWN va" "n = min (4096 - unat (va - va0)) (length buf)"
  have "unat va0 \<le> unat va" "unat va - unat va0 < 4096"
    using mod_less_divisor [of 4096 "unat va"] div_mult_mod_eq [of "unat va" 4096]
    by (simp_all add: a(2) unat_PGROUNDDOWN)
  then have "unat (va - va0) < 4096"
    using unat_sub_uint [of va0 va] by (simp add: word_le_nat_alt)
  then show "((pgdir, va0 + PGSIZE, drop n buf, s'), pgdir, va, buf, s) \<in> measure (\<lambda>(pgdir, va, buf, s). length buf)"
    using a(1,3) by (cases buf) auto
qed

declare copyout.simps [simp del]

text \<open>
  The translation the paging hardware makes of an address that is mapped, the memory a program sees
  through it, and storing bytes there.
\<close>

definition utrans :: "addr \<Rightarrow> mem \<Rightarrow> addr \<Rightarrow> addr" where
  "utrans pgdir m va =
     (let pgtab = P2V (PTE_ADDR (ld32 m (pde_at pgdir va)))
      in P2V (PTE_ADDR (ld32 m (pte_at pgtab va))) + (va AND 0xFFF))"

definition umem :: "addr \<Rightarrow> mem \<Rightarrow> mem" where
  "umem pgdir m va = m (utrans pgdir m va)"

fun uwr :: "addr \<Rightarrow> mem \<Rightarrow> addr \<Rightarrow> uchar list \<Rightarrow> mem" where
  "uwr pgdir m va [] = m"
| "uwr pgdir m va (c # cs) = uwr pgdir (m(utrans pgdir m va := c)) (va + 1) cs"

end
