(* ===== verification/Ring.thy ===== *)
theory Ring
  imports Prelude
begin

text \<open>
  Ring buffers with free-running counters, as pipes and the console input use them: byte number
  \<^verbatim>\<open>k\<close> is kept at \<^verbatim>\<open>k mod N\<close>, the counters are 32-bit words that wrap around, and the size divides
  2^32, so that the wrap-around is not visible.
\<close>

definition ring_slot :: "nat \<Rightarrow> uint \<Rightarrow> nat" where
  "ring_slot N k = unat k mod N"

definition ring_contents :: "nat \<Rightarrow> uchar list \<Rightarrow> uint \<Rightarrow> uint \<Rightarrow> uchar list" where
  "ring_contents N d r w = map (\<lambda>k. d ! ring_slot N (r + of_nat k)) [0..<unat (w - r)]"

locale ring_buffer =
  fixes N :: nat
  assumes pos: "0 < N" and dvd: "N dvd 4294967296" and lt: "N < 4294967296"
begin

lemma slot_less [simp]: "ring_slot N k < N"
  by (simp add: ring_slot_def pos)

lemma slot_add: "ring_slot N (r + of_nat k) = (unat r + k) mod N"
proof -
  have "unat (r + of_nat k) = (unat r + k) mod 4294967296"
    by (simp add: unat_word_ariths unat_of_nat take_bit_eq_mod mod_add_right_eq)
  then show ?thesis
    using dvd by (simp add: ring_slot_def mod_mod_cancel)
qed

text \<open>Different bytes of a buffer that is not over-full are in different slots.\<close>

lemma slot_inj:
  assumes "j < k" "k < N"
  shows "ring_slot N (r + of_nat j) \<noteq> ring_slot N (r + of_nat k)"
proof
  assume "ring_slot N (r + of_nat j) = ring_slot N (r + of_nat k)"
  then have "(unat r + j) mod N = (unat r + k) mod N"
    by (simp add: slot_add)
  then have "N dvd (unat r + k) - (unat r + j)"
    using assms by (metis add_le_cancel_left less_imp_le mod_eq_dvd_iff_nat)
  then show False
    using assms by (simp add: nat_dvd_not_less)
qed

lemma length_contents [simp]: "length (ring_contents N d r w) = unat (w - r)"
  by (simp add: ring_contents_def)

lemma contents_empty_iff: "ring_contents N d r w = [] \<longleftrightarrow> r = w"
  by (auto simp: ring_contents_def unat_eq_0)

lemma full_iff: "(w :: uint) = r + of_nat N \<longleftrightarrow> unat (w - r) = N"
proof
  show "w = r + of_nat N" if "unat (w - r) = N"
  proof -
    have "w - r = of_nat N"
      using that by (simp add: word_unat_eq_iff unat_of_nat_uint [OF lt])
    then show ?thesis by (simp add: diff_eq_eq add.commute)
  qed
qed (simp add: unat_of_nat_uint [OF lt])

lemma contents_push:
  assumes "unat (w - r) < N" "length d = N"
  shows "ring_contents N (d[ring_slot N w := c]) r (w + 1) = ring_contents N d r w @ [c]"
proof -
  let ?n = "unat (w - r)"
  have w: "w = r + of_nat ?n"
    by simp
  have n: "unat (w + 1 - r) = Suc ?n"
    using assms(1) lt unat_add_uint [of "w - r" 1] by (simp add: algebra_simps)
  have "d[ring_slot N w := c] ! ring_slot N (r + of_nat k) = d ! ring_slot N (r + of_nat k)" if "k < ?n" for k
    using slot_inj [of k ?n r] that assms(1) w by simp
  moreover have "d[ring_slot N w := c] ! ring_slot N (r + of_nat ?n) = c"
    using assms(2) by simp
  ultimately show ?thesis
    by (simp add: ring_contents_def n)
qed

lemma contents_pop:
  assumes "r \<noteq> w"
  shows "ring_contents N d r w = d ! ring_slot N r # ring_contents N d (r + 1) w"
proof -
  have "unat (w - r) \<noteq> 0"
    using assms by (simp add: unat_eq_0)
  then obtain m where m: "unat (w - r) = Suc m"
    using not0_implies_Suc by blast
  have "unat (w - (r + 1)) = unat (w - r) - 1"
    using m unat_sub_uint [of 1 "w - r"] by (simp add: diff_diff_eq [symmetric] word_le_nat_alt)
  then have m': "unat (w - (r + 1)) = m"
    using m by simp
  have "[0..<Suc m] = 0 # map Suc [0..<m]"
    by (simp add: map_Suc_upt upt_conv_Cons del: upt_Suc)
  then show ?thesis
    unfolding ring_contents_def m m' by (simp add: algebra_simps del: upt_Suc)
qed

end

end
