(* ===== verification/Pipe_c.thy ===== *)
theory Pipe_c
  imports Ring
begin

text \<open>
  Pipes (\<^verbatim>\<open>pipe.c\<close>).  A call of \<^verbatim>\<open>pipewrite\<close> or \<^verbatim>\<open>piperead\<close> holds \<^verbatim>\<open>p->lock\<close> except while it sleeps, so
  it is modelled by its turns: a turn runs from the start or from a wakeup until the call returns
  or goes to sleep again.  The flag \<^verbatim>\<open>killed\<close> is \<^verbatim>\<open>myproc()->killed\<close> at the moment it is tested.  The
  turns of any number of readers and writers, with the wakeups they send each other, are the
  steps of \<^verbatim>\<open>pipe_step\<close>.
\<close>

section \<open>Definitions\<close>

definition PIPESIZE :: nat where "PIPESIZE = 512"

record pipe =
  pdata :: "uchar list"
  nread :: uint
  nwrite :: uint
  readopen :: bool
  writeopen :: bool

text \<open>The fields \<^verbatim>\<open>pipealloc\<close> sets; the data is what was in the page.\<close>

definition pipe_init :: "uchar list \<Rightarrow> pipe" where
  "pipe_init d = \<lparr>pdata = d, nread = 0, nwrite = 0, readopen = True, writeopen = True\<rparr>"

text \<open>\<^verbatim>\<open>pipeclose\<close>: the pipe and whether its page is freed.\<close>

definition pipeclose :: "bool \<Rightarrow> pipe \<Rightarrow> pipe \<times> bool" where
  "pipeclose writable p =
     (let p = (if writable then p\<lparr>writeopen := False\<rparr> else p\<lparr>readopen := False\<rparr>)
      in (p, \<not> readopen p \<and> \<not> writeopen p))"

datatype pipe_turn = Returns int | Sleeps

definition pipe_full :: "pipe \<Rightarrow> bool" where
  "pipe_full p \<longleftrightarrow> nwrite p = nread p + of_nat PIPESIZE"

definition pipe_put :: "uchar \<Rightarrow> pipe \<Rightarrow> pipe" where
  "pipe_put c p = p\<lparr>pdata := (pdata p)[unat (nwrite p) mod PIPESIZE := c], nwrite := nwrite p + 1\<rparr>"

text \<open>
  The loop of \<^verbatim>\<open>pipewrite\<close> from byte \<^verbatim>\<open>i\<close> on, \<^verbatim>\<open>cs\<close> being the bytes \<^verbatim>\<open>addr[i]\<close> to \<^verbatim>\<open>addr[n-1]\<close>.  The third
  component is what is left of \<^verbatim>\<open>cs\<close> when the turn ends.
\<close>

fun pipewrite :: "bool \<Rightarrow> uchar list \<Rightarrow> nat \<Rightarrow> pipe \<Rightarrow> pipe_turn \<times> pipe \<times> uchar list" where
  "pipewrite killed [] i p = (Returns (int i), p, [])"
| "pipewrite killed (c # cs) i p =
     (if pipe_full p then
        if \<not> readopen p \<or> killed then (Returns (- 1), p, c # cs) else (Sleeps, p, c # cs)
      else pipewrite killed cs (Suc i) (pipe_put c p))"

fun piperead_copy :: "nat \<Rightarrow> pipe \<Rightarrow> uchar list \<times> pipe" where
  "piperead_copy 0 p = ([], p)"
| "piperead_copy (Suc n) p =
     (if nread p = nwrite p then ([], p)
      else let c = pdata p ! (unat (nread p) mod PIPESIZE);
               (cs, p') = piperead_copy n (p\<lparr>nread := nread p + 1\<rparr>)
           in (c # cs, p'))"

definition piperead :: "bool \<Rightarrow> nat \<Rightarrow> pipe \<Rightarrow> pipe_turn \<times> pipe \<times> uchar list" where
  "piperead killed n p =
     (if nread p = nwrite p \<and> writeopen p then
        if killed then (Returns (- 1), p, []) else (Sleeps, p, [])
      else let (cs, p) = piperead_copy n p in (Returns (int (length cs)), p, cs))"

section \<open>Readers and writers of one pipe\<close>

text \<open>
  Each process is outside the pipe, about to run a turn, or asleep.  \<^verbatim>\<open>accepted\<close> and \<^verbatim>\<open>delivered\<close> are
  the bytes that went in and came out so far, in order.
\<close>

datatype wstate = WOut | WIn "uchar list" | WAsleep "uchar list"
datatype rstate = ROut | RIn nat | RAsleep nat

record pipe_sys =
  pp :: pipe
  ws :: "nat \<Rightarrow> wstate"
  rs :: "nat \<Rightarrow> rstate"
  accepted :: "uchar list"
  delivered :: "uchar list"

definition wake_readers :: "(nat \<Rightarrow> rstate) \<Rightarrow> nat \<Rightarrow> rstate" where
  "wake_readers f q = (case f q of RAsleep n \<Rightarrow> RIn n | x \<Rightarrow> x)"

definition wake_writers :: "(nat \<Rightarrow> wstate) \<Rightarrow> nat \<Rightarrow> wstate" where
  "wake_writers f q = (case f q of WAsleep cs \<Rightarrow> WIn cs | x \<Rightarrow> x)"

text \<open>
  \<^verbatim>\<open>kills\<close> says whether a process may be killed while it is in a call; \<^verbatim>\<open>kill\<close> also wakes a process that sleeps.  A \<^verbatim>\<open>pipewrite\<close> that returns -1
  does so without the final \<^verbatim>\<open>wakeup(&p->nread)\<close>.  An end of the pipe is closed when the last
  descriptor for it is, so not while a process is in a call through it.
\<close>

inductive pipe_step :: "bool \<Rightarrow> pipe_sys \<Rightarrow> pipe_sys \<Rightarrow> bool" for kills where
  write_call: "\<lbrakk>ws s q = WOut; writeopen (pp s)\<rbrakk> \<Longrightarrow> pipe_step kills s (s\<lparr>ws := (ws s)(q := WIn cs)\<rparr>)"
| write_done: "\<lbrakk>ws s q = WIn cs; k \<longrightarrow> kills; pipewrite k cs i (pp s) = (Returns v, p, left); v \<noteq> - 1\<rbrakk> \<Longrightarrow>
    pipe_step kills s (s\<lparr>pp := p, ws := (ws s)(q := WOut), rs := wake_readers (rs s),
      accepted := accepted s @ take (length cs - length left) cs\<rparr>)"
| write_fail: "\<lbrakk>ws s q = WIn cs; k \<longrightarrow> kills; pipewrite k cs i (pp s) = (Returns (- 1), p, left)\<rbrakk> \<Longrightarrow>
    pipe_step kills s (s\<lparr>pp := p, ws := (ws s)(q := WOut),
      accepted := accepted s @ take (length cs - length left) cs\<rparr>)"
| write_sleep: "\<lbrakk>ws s q = WIn cs; pipewrite k cs i (pp s) = (Sleeps, p, left)\<rbrakk> \<Longrightarrow>
    pipe_step kills s (s\<lparr>pp := p, ws := (ws s)(q := WAsleep left), rs := wake_readers (rs s),
      accepted := accepted s @ take (length cs - length left) cs\<rparr>)"
| read_call: "\<lbrakk>rs s q = ROut; readopen (pp s)\<rbrakk> \<Longrightarrow> pipe_step kills s (s\<lparr>rs := (rs s)(q := RIn n)\<rparr>)"
| read_fail: "\<lbrakk>rs s q = RIn n; kills; piperead True n (pp s) = (Returns (- 1), p, out)\<rbrakk> \<Longrightarrow>
    pipe_step kills s (s\<lparr>rs := (rs s)(q := ROut)\<rparr>)"
| read_done: "\<lbrakk>rs s q = RIn n; piperead k n (pp s) = (Returns v, p, out); v \<noteq> - 1\<rbrakk> \<Longrightarrow>
    pipe_step kills s (s\<lparr>pp := p, rs := (rs s)(q := ROut), ws := wake_writers (ws s), delivered := delivered s @ out\<rparr>)"
| read_sleep: "\<lbrakk>rs s q = RIn n; piperead k n (pp s) = (Sleeps, p, out)\<rbrakk> \<Longrightarrow>
    pipe_step kills s (s\<lparr>rs := (rs s)(q := RAsleep n)\<rparr>)"
| kill_writer: "\<lbrakk>kills; ws s q = WAsleep cs\<rbrakk> \<Longrightarrow> pipe_step kills s (s\<lparr>ws := (ws s)(q := WIn cs)\<rparr>)"
| kill_reader: "\<lbrakk>kills; rs s q = RAsleep n\<rbrakk> \<Longrightarrow> pipe_step kills s (s\<lparr>rs := (rs s)(q := RIn n)\<rparr>)"
| close_write: "(\<And>q. ws s q = WOut) \<Longrightarrow> pipe_step kills s (s\<lparr>pp := fst (pipeclose True (pp s)), rs := wake_readers (rs s)\<rparr>)"
| close_read: "(\<And>q. rs s q = ROut) \<Longrightarrow> pipe_step kills s (s\<lparr>pp := fst (pipeclose False (pp s)), ws := wake_writers (ws s)\<rparr>)"

section \<open>The bytes in a pipe\<close>

interpretation pr: ring_buffer PIPESIZE
  by unfold_locales (simp_all add: PIPESIZE_def)

definition pipe_bytes :: "pipe \<Rightarrow> uchar list" where
  "pipe_bytes p = ring_contents PIPESIZE (pdata p) (nread p) (nwrite p)"

definition pipe_ok :: "pipe \<Rightarrow> bool" where
  "pipe_ok p \<longleftrightarrow> length (pdata p) = PIPESIZE \<and> unat (nwrite p - nread p) \<le> PIPESIZE"

lemma pipe_full_iff: "pipe_full p \<longleftrightarrow> length (pipe_bytes p) = PIPESIZE"
  unfolding pipe_full_def pipe_bytes_def pr.full_iff by simp

lemma pipe_empty_iff: "nread p = nwrite p \<longleftrightarrow> pipe_bytes p = []"
  by (simp add: pipe_bytes_def pr.contents_empty_iff)

lemma pipe_put:
  assumes "pipe_ok p" "\<not> pipe_full p"
  shows "pipe_bytes (pipe_put c p) = pipe_bytes p @ [c]" "pipe_ok (pipe_put c p)"
    "readopen (pipe_put c p) = readopen p" "writeopen (pipe_put c p) = writeopen p"
proof -
  have l: "unat (nwrite p - nread p) < PIPESIZE"
    using assms by (auto simp: pipe_full_iff pipe_ok_def pipe_bytes_def)
  show b: "pipe_bytes (pipe_put c p) = pipe_bytes p @ [c]"
    using pr.contents_push [OF l, of "pdata p" c] assms(1)
    by (simp add: pipe_bytes_def pipe_put_def pipe_ok_def ring_slot_def)
  show "pipe_ok (pipe_put c p)"
    using arg_cong [OF b, of length] l assms(1) by (simp add: pipe_ok_def pipe_bytes_def pipe_put_def)
qed (simp_all add: pipe_put_def)

lemma pipewrite_spec:
  assumes "pipewrite k cs i p = (r, p', left)" "pipe_ok p"
  shows "pipe_ok p' \<and> readopen p' = readopen p \<and> writeopen p' = writeopen p \<and>
    (\<exists>done. cs = done @ left \<and> pipe_bytes p' = pipe_bytes p @ done) \<and>
    (case r of Sleeps \<Rightarrow> pipe_full p' \<and> readopen p' \<and> \<not> k \<and> left \<noteq> []
     | Returns v \<Rightarrow> if v = - 1 then pipe_full p' \<and> (\<not> readopen p' \<or> k) \<and> left \<noteq> [] else left = [] \<and> v = int (i + length cs))"
  using assms
proof (induction k cs i p rule: pipewrite.induct)
  case (2 killed c cs i p)
  show ?case
  proof (cases "pipe_full p")
    case True
    then show ?thesis
      using 2 by (auto split: if_splits)
  next
    case False
    note P = pipe_put [OF 2(3) False, of c]
    have e: "pipewrite killed cs (Suc i) (pipe_put c p) = (r, p', left)"
      using 2(2) False by simp
    note IH = 2(1) [OF False e P(2)]
    then obtain d where "cs = d @ left" "pipe_bytes p' = pipe_bytes (pipe_put c p) @ d"
      by blast
    then have d: "\<exists>d. c # cs = d @ left \<and> pipe_bytes p' = pipe_bytes p @ d"
      using P(1) by (intro exI [of _ "c # d"]) simp
    show ?thesis
    proof (intro conjI d)
      show "case r of Sleeps \<Rightarrow> pipe_full p' \<and> readopen p' \<and> \<not> killed \<and> left \<noteq> []
         | Returns v \<Rightarrow> if v = - 1 then pipe_full p' \<and> (\<not> readopen p' \<or> killed) \<and> left \<noteq> []
             else left = [] \<and> v = int (i + length (c # cs))"
        using IH P(3) by (cases r) (clarsimp split: if_splits)+
    qed (use IH P(3,4) in simp_all)
  qed
qed auto

lemma piperead_copy_spec:
  assumes "piperead_copy n p = (out, p')" "pipe_ok p"
  shows "pipe_ok p' \<and> readopen p' = readopen p \<and> writeopen p' = writeopen p \<and> out @ pipe_bytes p' = pipe_bytes p \<and>
    length out \<le> n \<and> (length out < n \<longrightarrow> pipe_bytes p' = [])"
  using assms
proof (induction n arbitrary: p out)
  case (Suc n)
  show ?case
  proof (cases "nread p = nwrite p")
    case True
    then show ?thesis
      using Suc.prems by (simp add: pipe_empty_iff)
  next
    case False
    let ?q = "p\<lparr>nread := nread p + 1\<rparr>" and ?c = "pdata p ! (unat (nread p) mod PIPESIZE)"
    have pop: "pipe_bytes p = ?c # pipe_bytes ?q"
      using pr.contents_pop [OF False, of "pdata p"] by (simp add: pipe_bytes_def ring_slot_def)
    have "length (pipe_bytes ?q) \<le> PIPESIZE"
      using arg_cong [OF pop, of length] Suc.prems(2) by (simp add: pipe_ok_def pipe_bytes_def)
    then have q: "pipe_ok ?q"
      using Suc.prems(2) by (simp add: pipe_ok_def pipe_bytes_def)
    obtain cs q' where e: "piperead_copy n ?q = (cs, q')"
      by (cases "piperead_copy n ?q")
    have "out = ?c # cs \<and> p' = q'"
      using Suc.prems(1) False unfolding piperead_copy.simps Let_def e by simp
    then have cs: "piperead_copy n ?q = (cs, p')" "out = ?c # cs"
      using e by auto
    have "pipe_ok p'" "readopen p' = readopen p" "writeopen p' = writeopen p" "pipe_bytes ?q = cs @ pipe_bytes p'"
      "length cs \<le> n" "length cs < n \<longrightarrow> pipe_bytes p' = []"
      using Suc.IH [OF cs(1) q] by auto
    then show ?thesis
      unfolding pop cs(2) by simp
  qed
qed simp

lemma piperead_spec:
  assumes "piperead k n p = (r, p', out)" "pipe_ok p"
  shows "pipe_ok p' \<and> readopen p' = readopen p \<and> writeopen p' = writeopen p \<and> out @ pipe_bytes p' = pipe_bytes p \<and>
    (case r of Sleeps \<Rightarrow> pipe_bytes p = [] \<and> writeopen p \<and> \<not> k \<and> p' = p \<and> out = []
     | Returns v \<Rightarrow> if v = - 1 then k \<and> p' = p \<and> out = []
         else v = int (length out) \<and> length out \<le> n \<and> (length out < n \<longrightarrow> pipe_bytes p' = []) \<and> (pipe_bytes p \<noteq> [] \<or> \<not> writeopen p))"
  using assms piperead_copy_spec [of n p]
  by (auto simp: piperead_def pipe_empty_iff split: if_splits prod.splits)

section \<open>Order of the bytes\<close>

definition fifo_inv :: "pipe_sys \<Rightarrow> bool" where
  "fifo_inv s \<longleftrightarrow> pipe_ok (pp s) \<and> accepted s = delivered s @ pipe_bytes (pp s)"

lemma pipeclose_same:
  "pipe_ok (fst (pipeclose w p)) = pipe_ok p" "pipe_bytes (fst (pipeclose w p)) = pipe_bytes p"
  by (simp_all add: pipeclose_def Let_def pipe_ok_def pipe_bytes_def)

lemma write_fifo:
  assumes "fifo_inv s" "pipewrite k cs i (pp s) = (r, p, left)"
  shows "pipe_ok p \<and> accepted s @ take (length cs - length left) cs = delivered s @ pipe_bytes p"
proof -
  have ok: "pipe_ok (pp s)"
    using assms(1) by (simp add: fifo_inv_def)
  obtain d where "cs = d @ left" "pipe_bytes p = pipe_bytes (pp s) @ d" "pipe_ok p"
    using pipewrite_spec [OF assms(2) ok] by blast
  then show ?thesis
    using assms(1) by (simp add: fifo_inv_def)
qed

lemma fifo_step: "pipe_step kills s t \<Longrightarrow> fifo_inv s \<Longrightarrow> fifo_inv t"
proof (induction rule: pipe_step.induct)
  case (write_done s q cs k i v p left)
  then show ?case using write_fifo [OF write_done(5,3)] by (simp add: fifo_inv_def)
next
  case (write_fail s q cs k i p left)
  then show ?case using write_fifo [OF write_fail(4,3)] by (simp add: fifo_inv_def)
next
  case (write_sleep s q cs k i p left)
  then show ?case using write_fifo [OF write_sleep(3,2)] by (simp add: fifo_inv_def)
next
  case (read_done s q n k v p out)
  then show ?case
    using piperead_spec [OF read_done(2)] by (simp add: fifo_inv_def)
qed (simp_all add: fifo_inv_def pipeclose_same)

interpretation fifo: stepwise_invariant "pipe_step kills" fifo_inv
  by unfold_locales (rule fifo_step)

text \<open>A pipe just made by \<^verbatim>\<open>pipealloc\<close>, used by nobody.\<close>

definition pipe_sys_init :: "uchar list \<Rightarrow> pipe_sys" where
  "pipe_sys_init d = \<lparr>pp = pipe_init d, ws = (\<lambda>_. WOut), rs = (\<lambda>_. ROut), accepted = [], delivered = []\<rparr>"

text \<open>
  C13: A pipe is a first-in first-out queue: whatever the interleaving of any number of reading and
  writing processes, closes and kills, the bytes accepted from writers so far are exactly the
  bytes delivered to readers followed by the at most \<^verbatim>\<open>PIPESIZE\<close> bytes in the buffer, in order; no
  byte is lost, duplicated or reordered, also when the 32-bit counters wrap around.
\<close>

theorem pipe_is_fifo:
  assumes "length d = PIPESIZE" "(pipe_step kills)\<^sup>*\<^sup>* (pipe_sys_init d) s"
  shows "accepted s = delivered s @ ring_contents PIPESIZE (pdata (pp s)) (nread (pp s)) (nwrite (pp s)) \<and>
    unat (nwrite (pp s) - nread (pp s)) \<le> PIPESIZE"
proof -
  have "fifo_inv (pipe_sys_init d)"
    using assms(1) by (simp add: fifo_inv_def pipe_sys_init_def pipe_init_def pipe_ok_def pipe_bytes_def ring_contents_def)
  then show ?thesis
    using fifo.reachable [OF assms(2)] by (simp add: fifo_inv_def pipe_ok_def pipe_bytes_def)
qed

theorem pipe_is_fifo_witness:
  "\<exists>s. (pipe_step False)\<^sup>*\<^sup>* (pipe_sys_init (replicate PIPESIZE 0)) s \<and> accepted s = [7, 8] \<and> delivered s = [] \<and>
     accepted s = delivered s @ ring_contents PIPESIZE (pdata (pp s)) (nread (pp s)) (nwrite (pp s))"
proof -
  define s0 where "s0 = pipe_sys_init (replicate PIPESIZE 0)"
  define s1 where "s1 = s0\<lparr>ws := (ws s0)(0 := WIn [7, 8])\<rparr>"
  define p where "p = pipe_put 8 (pipe_put 7 (pp s1))"
  define s2 where "s2 = s1\<lparr>pp := p, ws := (ws s1)(0 := WOut), rs := wake_readers (rs s1),
      accepted := accepted s1 @ take (length [7, 8 :: uchar] - length ([] :: uchar list)) [7, 8]\<rparr>"
  have "pipe_step False s0 s1"
    unfolding s1_def by (rule write_call) (simp_all add: s0_def pipe_sys_init_def pipe_init_def)
  moreover have "pipewrite False [7, 8] 0 (pp s1) = (Returns 2, p, [])"
    by (simp add: p_def s1_def s0_def pipe_sys_init_def pipe_init_def pipe_full_def pipe_put_def PIPESIZE_def)
  then have "pipe_step False s1 s2"
    unfolding s2_def by (intro write_done [where k = False and i = 0 and v = 2]) (simp_all add: s1_def)
  ultimately have r: "(pipe_step False)\<^sup>*\<^sup>* (pipe_sys_init (replicate PIPESIZE 0)) s2"
    unfolding s0_def by simp
  have "accepted s2 = [7, 8] \<and> delivered s2 = []"
    by (simp add: s2_def s1_def s0_def pipe_sys_init_def)
  then show ?thesis
    using pipe_is_fifo [OF _ r] r by (intro exI [of _ s2] conjI) auto
qed

section \<open>Wakeups\<close>

text \<open>Nobody sleeps who could go on.\<close>

definition awake_inv :: "pipe_sys \<Rightarrow> bool" where
  "awake_inv s \<longleftrightarrow> fifo_inv s \<and> (\<forall>q. rs s q \<noteq> ROut \<longrightarrow> readopen (pp s)) \<and> (\<forall>q. ws s q \<noteq> WOut \<longrightarrow> writeopen (pp s)) \<and>
     (\<forall>q n. rs s q = RAsleep n \<longrightarrow> pipe_bytes (pp s) = [] \<and> writeopen (pp s)) \<and>
     (\<forall>q cs. ws s q = WAsleep cs \<longrightarrow> pipe_full (pp s) \<and> readopen (pp s))"

lemma wake_simps [simp]:
  "wake_readers f q \<noteq> RAsleep n" "wake_writers g q \<noteq> WAsleep cs"
  "wake_readers f q = ROut \<longleftrightarrow> f q = ROut" "wake_writers g q = WOut \<longleftrightarrow> g q = WOut"
  by (simp_all add: wake_readers_def wake_writers_def split: rstate.splits wstate.splits)

lemma awake_write:
  assumes a: "awake_inv s" and w: "pipewrite k cs i (pp s) = (r, p, left)"
  shows "readopen p = readopen (pp s) \<and> writeopen p = writeopen (pp s) \<and>
    (\<forall>q cs. ws s q = WAsleep cs \<longrightarrow> pipe_full p \<and> readopen p)"
proof -
  have ok: "pipe_ok (pp s)"
    using a by (simp add: awake_inv_def fifo_inv_def)
  have "p = pp s" if "pipe_full (pp s)"
    using w that by (cases cs) (auto split: if_splits)
  then show ?thesis
    using a pipewrite_spec [OF w ok] by (auto simp: awake_inv_def)
qed

lemma awake_invI:
  assumes "fifo_inv s" "\<And>q. rs s q \<noteq> ROut \<Longrightarrow> readopen (pp s)" "\<And>q. ws s q \<noteq> WOut \<Longrightarrow> writeopen (pp s)"
    "\<And>q n. rs s q = RAsleep n \<Longrightarrow> pipe_bytes (pp s) = [] \<and> writeopen (pp s)"
    "\<And>q cs. ws s q = WAsleep cs \<Longrightarrow> pipe_full (pp s) \<and> readopen (pp s)"
  shows "awake_inv s"
  using assms unfolding awake_inv_def by blast

lemma awake_invD:
  assumes "awake_inv s"
  shows "rs s q \<noteq> ROut \<Longrightarrow> readopen (pp s)" "ws s q \<noteq> WOut \<Longrightarrow> writeopen (pp s)"
    "rs s q = RAsleep n \<Longrightarrow> pipe_bytes (pp s) = [] \<and> writeopen (pp s)"
    "ws s q = WAsleep cs \<Longrightarrow> pipe_full (pp s) \<and> readopen (pp s)"
  using assms unfolding awake_inv_def by blast+

lemma awake_step:
  assumes st: "pipe_step False s t" and a: "awake_inv s"
  shows "awake_inv t"
proof -
  have f: "fifo_inv t"
    using fifo_step [OF st] a by (simp add: awake_inv_def)
  have ok: "pipe_ok (pp s)"
    using a by (simp add: awake_inv_def fifo_inv_def)
  from st show ?thesis
  proof cases
    case (write_done q cs k i v p left)
    then show ?thesis
      using awake_write [OF a write_done(4)] f a by (auto simp: awake_inv_def)
  next
    case (write_fail q cs k i p left)
    have "\<not> readopen p"
      using pipewrite_spec [OF write_fail(4) ok] write_fail(3) by auto
    then show ?thesis
      using awake_write [OF a write_fail(4)] f a write_fail(1) by (auto simp: awake_inv_def)
  next
    case (write_sleep q cs k i p left)
    have "pipe_full p" "readopen p"
      using pipewrite_spec [OF write_sleep(3) ok] by auto
    then show ?thesis
      using awake_write [OF a write_sleep(3)] f a write_sleep(1,2) by (auto simp: awake_inv_def)
  next
    case (read_done q n k v p out)
    have p: "readopen p = readopen (pp s)" "writeopen p = writeopen (pp s)" "pipe_bytes (pp s) = [] \<longrightarrow> pipe_bytes p = []"
      using piperead_spec [OF read_done(3) ok] by auto
    show ?thesis
    proof (rule awake_invI [OF f])
      show "readopen (pp t)" if "rs t x \<noteq> ROut" for x
        using that awake_invD(1) [OF a, of x] p(1) by (simp add: read_done(1) split: if_splits)
      show "writeopen (pp t)" if "ws t x \<noteq> WOut" for x
        using that awake_invD(2) [OF a, of x] p(2) by (simp add: read_done(1))
      show "pipe_bytes (pp t) = [] \<and> writeopen (pp t)" if "rs t x = RAsleep m" for x m
        using that awake_invD(3) [OF a, of x m] p(2,3) by (simp add: read_done(1) split: if_splits)
      show "pipe_full (pp t) \<and> readopen (pp t)" if "ws t x = WAsleep cs" for x cs
        using that by (simp add: read_done(1))
    qed
  next
    case (read_sleep q n k p out)
    have e: "pipe_bytes (pp s) = []" "writeopen (pp s)"
      using piperead_spec [OF read_sleep(3) ok] by auto
    show ?thesis
    proof (rule awake_invI [OF f])
      show "readopen (pp t)" if "rs t x \<noteq> ROut" for x
        using that awake_invD(1) [OF a, of x] awake_invD(1) [OF a, of q] by (auto simp: read_sleep(1,2) split: if_splits)
      show "pipe_full (pp t) \<and> readopen (pp t)" if "ws t x = WAsleep cs" for x cs
        using that awake_invD(4) [OF a, of x cs] by (simp add: read_sleep(1))
    qed (use e in \<open>simp_all add: read_sleep(1)\<close>)
  next
    case close_write
    show ?thesis
    proof (rule awake_invI [OF f])
      show "readopen (pp t)" if "rs t x \<noteq> ROut" for x
        using that awake_invD(1) [OF a, of x] by (simp add: close_write(1) pipeclose_def Let_def)
    qed (use close_write in \<open>simp_all\<close>)
  next
    case close_read
    show ?thesis
    proof (rule awake_invI [OF f])
      show "writeopen (pp t)" if "ws t x \<noteq> WOut" for x
        using that awake_invD(2) [OF a, of x] by (simp add: close_read(1) pipeclose_def Let_def)
    qed (use close_read in \<open>simp_all\<close>)
  qed (use a f in \<open>auto simp: awake_inv_def\<close>)
qed

interpretation awake: stepwise_invariant "pipe_step False" awake_inv
  by unfold_locales (rule awake_step)

text \<open>
  C14: No lost wakeup: as long as no process is killed inside a call, a reader sleeps only while the
  pipe is empty and its write end open, and a writer only while it is full and its read end open;
  so readers and writers never all sleep at each other.
\<close>

theorem pipe_no_lost_wakeup:
  assumes "length d = PIPESIZE" "(pipe_step False)\<^sup>*\<^sup>* (pipe_sys_init d) s"
  shows "(\<forall>q n. rs s q = RAsleep n \<longrightarrow> nread (pp s) = nwrite (pp s) \<and> writeopen (pp s)) \<and>
    (\<forall>q cs. ws s q = WAsleep cs \<longrightarrow> nwrite (pp s) = nread (pp s) + of_nat PIPESIZE \<and> readopen (pp s)) \<and>
    \<not> ((\<exists>q n. rs s q = RAsleep n) \<and> (\<exists>q cs. ws s q = WAsleep cs))"
proof -
  have "awake_inv (pipe_sys_init d)"
    using assms(1)
    by (simp add: awake_inv_def fifo_inv_def pipe_sys_init_def pipe_init_def pipe_ok_def pipe_bytes_def ring_contents_def)
  then have "awake_inv s"
    using awake.reachable [OF assms(2)] by simp
  moreover have "\<not> (pipe_bytes (pp s) = [] \<and> pipe_full (pp s))"
    by (simp add: pipe_full_iff PIPESIZE_def)
  ultimately show ?thesis
    by (auto simp: awake_inv_def pipe_empty_iff pipe_full_def)
qed

theorem pipe_no_lost_wakeup_witness:
  "\<exists>s. (pipe_step False)\<^sup>*\<^sup>* (pipe_sys_init (replicate PIPESIZE 0)) s \<and> rs s 0 = RAsleep 3 \<and> nread (pp s) = nwrite (pp s)"
proof -
  define s0 where "s0 = pipe_sys_init (replicate PIPESIZE 0)"
  define s1 where "s1 = s0\<lparr>rs := (rs s0)(0 := RIn 3)\<rparr>"
  define s2 where "s2 = s1\<lparr>rs := (rs s1)(0 := RAsleep 3)\<rparr>"
  have "pipe_step False s0 s1"
    unfolding s1_def by (rule read_call) (simp_all add: s0_def pipe_sys_init_def pipe_init_def)
  moreover have "piperead False 3 (pp s1) = (Sleeps, pp s1, [])"
    by (simp add: piperead_def s1_def s0_def pipe_sys_init_def pipe_init_def)
  then have "pipe_step False s1 s2"
    unfolding s2_def by (intro read_sleep) (simp_all add: s1_def)
  ultimately have r: "(pipe_step False)\<^sup>*\<^sup>* (pipe_sys_init (replicate PIPESIZE 0)) s2"
    unfolding s0_def by simp
  moreover have "rs s2 0 = RAsleep 3"
    by (simp add: s2_def)
  ultimately show ?thesis
    using pipe_no_lost_wakeup [OF _ r, THEN conjunct1, rule_format, of 0 3] by (intro exI [of _ s2]) simp
qed

text \<open>A killed writer with more bytes than there is room for fills the pipe and fails.\<close>

lemma pipewrite_killed:
  assumes "pipe_ok p" "length cs > PIPESIZE"
  obtains p' left where "pipewrite True cs i p = (Returns (- 1), p', left)" "pipe_full p'"
proof -
  obtain r p' left where e: "pipewrite True cs i p = (r, p', left)"
    by (cases "pipewrite True cs i p")
  note S = pipewrite_spec [OF e assms(1)]
  show ?thesis
  proof (cases "r = Returns (- 1)")
    case True
    then show ?thesis
      using e S that [of p' left] by simp
  next
    case False
    then have "left = []"
      using S by (cases r) (auto split: if_splits)
    then obtain d where "length d > PIPESIZE" "pipe_bytes p' = pipe_bytes p @ d"
      using S assms(2) by auto
    then have "length (pipe_bytes p') > PIPESIZE"
      by simp
    then show ?thesis
      using S by (simp add: pipe_ok_def pipe_bytes_def)
  qed
qed

text \<open>
  C15: A writer that is killed while it waits for room returns without waking the readers for the bytes
  it has put into the pipe: from a fresh pipe a state is reachable in which a reader sleeps although
  the pipe is full and no writer is in a call, so that nothing but a later write or close will wake
  it.
\<close>

theorem pipe_killed_writer_loses_wakeup:
  assumes "length d = PIPESIZE"
  shows "\<exists>s. (pipe_step True)\<^sup>*\<^sup>* (pipe_sys_init d) s \<and> rs s 0 = RAsleep 3 \<and> pipe_full (pp s) \<and> (\<forall>q. ws s q = WOut)"
proof -
  define s0 where "s0 = pipe_sys_init d"
  define s1 where "s1 = s0\<lparr>rs := (rs s0)(0 := RIn 3)\<rparr>"
  define s2 where "s2 = s1\<lparr>rs := (rs s1)(0 := RAsleep 3)\<rparr>"
  define cs :: "uchar list" where "cs = replicate (PIPESIZE + 1) 7"
  define s3 where "s3 = s2\<lparr>ws := (ws s2)(2 := WIn cs)\<rparr>"
  have i: "pp s2 = pipe_init d" "rs s2 0 = RAsleep 3" "ws s2 = (\<lambda>_. WOut)" "rs s1 0 = RIn 3" "pp s3 = pipe_init d" "ws s3 2 = WIn cs"
    by (simp_all add: s3_def s2_def s1_def s0_def pipe_sys_init_def)
  have 1: "pipe_step True s0 s1"
    unfolding s1_def by (rule read_call) (simp_all add: s0_def pipe_sys_init_def pipe_init_def)
  have "piperead False 3 (pp s1) = (Sleeps, pp s1, [])"
    by (simp add: piperead_def s1_def s0_def pipe_sys_init_def pipe_init_def)
  then have 2: "pipe_step True s1 s2"
    unfolding s2_def by (intro read_sleep) (simp_all add: i(4))
  have 3: "pipe_step True s2 s3"
    unfolding s3_def by (rule write_call) (simp_all add: i pipe_init_def)
  have "pipe_ok (pipe_init d)"
    using assms by (simp add: pipe_ok_def pipe_init_def)
  then obtain p left where w: "pipewrite True cs 0 (pipe_init d) = (Returns (- 1), p, left)" "pipe_full p"
    using pipewrite_killed [of "pipe_init d" cs 0] by (auto simp: cs_def)
  define s4 where "s4 = s3\<lparr>pp := p, ws := (ws s3)(2 := WOut), accepted := accepted s3 @ take (length cs - length left) cs\<rparr>"
  have 4: "pipe_step True s3 s4"
    unfolding s4_def by (rule write_fail [where k = True and i = 0]) (simp_all add: i w(1))
  have "(pipe_step True)\<^sup>*\<^sup>* s0 s4"
    using 1 2 3 4 by (meson converse_rtranclp_into_rtranclp rtranclp.rtrancl_refl)
  moreover have "rs s4 0 = RAsleep 3" "pipe_full (pp s4)" "\<forall>q. ws s4 q = WOut"
    using w(2) by (simp_all add: s4_def s3_def i)
  ultimately show ?thesis
    unfolding s0_def by blast
qed

theorem pipe_killed_writer_loses_wakeup_witness:
  "\<exists>s. (pipe_step True)\<^sup>*\<^sup>* (pipe_sys_init (replicate PIPESIZE 0)) s \<and> rs s 0 = RAsleep 3 \<and> pipe_full (pp s)"
  using pipe_killed_writer_loses_wakeup [of "replicate PIPESIZE 0"] by auto

end
