(* ===== verification/File_c.thy ===== *)
theory File_c
  imports Fs_c Vm_c Pipe_c
begin

text \<open>
  Open files (\<^verbatim>\<open>file.c\<close>) and the allocation of pipes (\<^verbatim>\<open>pipealloc\<close> of \<^verbatim>\<open>pipe.c\<close>).  The state extends that of the
  file system with the file table, the page allocator and the pipes, which are objects at the address
  of their page.  A file pointer is an index of the table.  A call that has to wait for another
  process stops with \<^verbatim>\<open>Waits\<close>; the turns of a waiting pipe operation are those of the pipe theory.
  \<^verbatim>\<open>ftable.lock\<close> is held only inside a function and is not represented.
\<close>

unbundle bit_operations_syntax

section \<open>Definitions\<close>

datatype ftype = FD_NONE | FD_PIPE | FD_INODE

record kfile =
  ftype :: ftype
  fref :: int
  readable :: bool
  writable :: bool
  fpipe :: addr
  fip :: nat
  foff :: uint

definition NFILE :: nat where "NFILE = 100"

record filest = fsst +
  km :: vmst
  ftable :: "kfile list"
  pipes :: "addr \<Rightarrow> pipe option"

definition upd_file :: "nat \<Rightarrow> (kfile \<Rightarrow> kfile) \<Rightarrow> 'a filest_scheme \<Rightarrow> 'a filest_scheme" where
  "upd_file f g s = s\<lparr>ftable := (ftable s)[f := g (ftable s ! f)]\<rparr>"

definition filealloc :: "'a filest_scheme \<Rightarrow> nat option \<times> 'a filest_scheme" where
  "filealloc s =
     (case find (\<lambda>f. fref (ftable s ! f) = 0) [0..<NFILE] of
        Some f \<Rightarrow> (Some f, upd_file f (fref_update (\<lambda>_. 1)) s)
      | None \<Rightarrow> (None, s))"

definition filedup :: "nat \<Rightarrow> 'a filest_scheme \<Rightarrow> (nat \<times> 'a filest_scheme) res" where
  "filedup f s =
     (if fref (ftable s ! f) < 1 then Inl (Panic ''filedup'')
      else Inr (f, upd_file f (fref_update (\<lambda>r. r + 1)) s))"

text \<open>\<^verbatim>\<open>pipeclose\<close> of the pipe at address \<^verbatim>\<open>p\<close>, whose page is freed when both ends are closed.\<close>

definition pipe_close :: "addr \<Rightarrow> bool \<Rightarrow> 'a filest_scheme \<Rightarrow> 'a filest_scheme res" where
  "pipe_close p w s =
     (case pipes s p of
        None \<Rightarrow> Inl Fault
      | Some q \<Rightarrow>
          let (q, free) = pipeclose w q in
          if free then bindE (kfree p (km s)) (\<lambda>k. Inr (s\<lparr>pipes := (pipes s)(p := None), km := k\<rparr>))
          else Inr (s\<lparr>pipes := (pipes s)(p \<mapsto> q)\<rparr>))"

definition fileclose :: "nat \<Rightarrow> 'a filest_scheme \<Rightarrow> 'a filest_scheme res" where
  "fileclose f s =
     (if fref (ftable s ! f) < 1 then Inl (Panic ''fileclose'')
      else
        let s = upd_file f (fref_update (\<lambda>r. r - 1)) s in
        if fref (ftable s ! f) > 0 then Inr s
        else
          let ff = ftable s ! f;
              s = upd_file f (\<lambda>x. x\<lparr>fref := 0, ftype := FD_NONE\<rparr>) s
          in case ftype ff of
               FD_PIPE \<Rightarrow> pipe_close (fpipe ff) (writable ff) s
             | FD_INODE \<Rightarrow> bindE (begin_op s) (\<lambda>s. bindE (iput (fip ff) s) end_op)
             | FD_NONE \<Rightarrow> Inr s)"

text \<open>\<^verbatim>\<open>filestat\<close>: -1, or the metadata.\<close>

definition filestat :: "nat \<Rightarrow> 'a filest_scheme \<Rightarrow> (stat option \<times> 'a filest_scheme) res" where
  "filestat f s =
     (if ftype (ftable s ! f) = FD_INODE then
        let ip = fip (ftable s ! f)
        in bindE (ilock ip s) (\<lambda>s. let st = stati ip s in bindE (iunlock ip s) (\<lambda>s. Inr (Some st, s)))
      else Inr (None, s))"

text \<open>The bytes read are those stored at \<^verbatim>\<open>addr\<close>.\<close>

definition fileread :: "'a filest_scheme devsw \<Rightarrow> bool \<Rightarrow> nat \<Rightarrow> uint \<Rightarrow> 'a filest_scheme \<Rightarrow> (int \<times> uchar list \<times> 'a filest_scheme) res" where
  "fileread devsw killed f n s =
     (if \<not> readable (ftable s ! f) then Inr (- 1, [], s)
      else case ftype (ftable s ! f) of
        FD_PIPE \<Rightarrow>
          (let p = fpipe (ftable s ! f) in
           case pipes s p of
             None \<Rightarrow> Inl Fault
           | Some q \<Rightarrow>
               (case piperead killed (nat (sint n)) q of
                  (Returns r, q, bs) \<Rightarrow> Inr (r, bs, s\<lparr>pipes := (pipes s)(p \<mapsto> q)\<rparr>)
                | (Sleeps, _, _) \<Rightarrow> Inl Waits))
      | FD_INODE \<Rightarrow>
          (let ip = fip (ftable s ! f) in
           bindE (ilock ip s) (\<lambda>s.
           bindE (readi devsw ip (foff (ftable s ! f)) n s) (\<lambda>(r, bs, s).
             let s = (if r > 0 then upd_file f (foff_update (\<lambda>x. x + of_int r)) s else s)
             in bindE (iunlock ip s) (\<lambda>s. Inr (r, bs, s)))))
      | FD_NONE \<Rightarrow> Inl (Panic ''fileread''))"

definition file_max :: nat where
  "file_max = nat ((MAXOPBLOCKS - 1 - 1 - 2) div 2) * 512"

text \<open>
  The loop of \<^verbatim>\<open>filewrite\<close> on the bytes that are left; the result says whether all of them were written.
\<close>

function filewrite_loop :: "'a filest_scheme devsw \<Rightarrow> nat \<Rightarrow> uchar list \<Rightarrow> 'a filest_scheme \<Rightarrow> (bool \<times> 'a filest_scheme) res" where
  "filewrite_loop devsw f bs s =
     (if bs = [] then Inr (True, s)
      else
        let n1 = min (length bs) file_max; ip = fip (ftable s ! f) in
        bindE (begin_op s) (\<lambda>s.
        bindE (ilock ip s) (\<lambda>s.
        bindE (writei devsw ip (take n1 bs) (foff (ftable s ! f)) (of_nat n1) s) (\<lambda>(r, s).
          let s = (if r > 0 then upd_file f (foff_update (\<lambda>x. x + of_int r)) s else s) in
          bindE (iunlock ip s) (\<lambda>s.
          bindE (end_op s) (\<lambda>s.
            if r < 0 then Inr (False, s)
            else if r \<noteq> int n1 then Inl (Panic ''short filewrite'')
            else filewrite_loop devsw f (drop n1 bs) s))))))"
  by pat_completeness auto
termination
  by (relation "measure (\<lambda>(devsw, f, bs, s). length bs)") (auto simp: file_max_def MAXOPBLOCKS_def)

declare filewrite_loop.simps [simp del]

text \<open>\<^verbatim>\<open>filewrite\<close> of the \<^verbatim>\<open>n\<close> bytes at \<^verbatim>\<open>addr\<close>; a negative \<^verbatim>\<open>n\<close> writes nothing and is not equal to the count.\<close>

definition filewrite :: "'a filest_scheme devsw \<Rightarrow> bool \<Rightarrow> nat \<Rightarrow> uchar list \<Rightarrow> int \<Rightarrow> 'a filest_scheme \<Rightarrow> (int \<times> 'a filest_scheme) res" where
  "filewrite devsw killed f src n s =
     (if \<not> writable (ftable s ! f) then Inr (- 1, s)
      else
        let bs = take (nat n) src in
        case ftype (ftable s ! f) of
          FD_PIPE \<Rightarrow>
            (let p = fpipe (ftable s ! f) in
             case pipes s p of
               None \<Rightarrow> Inl Fault
             | Some q \<Rightarrow>
                 (case pipewrite killed bs 0 q of
                    (Returns r, q, _) \<Rightarrow> Inr (if r < 0 then - 1 else n, s\<lparr>pipes := (pipes s)(p \<mapsto> q)\<rparr>)
                  | (Sleeps, _, _) \<Rightarrow> Inl Waits))
        | FD_INODE \<Rightarrow>
            bindE (filewrite_loop devsw f bs s) (\<lambda>(ok, s). Inr (if ok \<and> 0 \<le> n then n else - 1, s))
        | FD_NONE \<Rightarrow> Inl (Panic ''filewrite''))"

text \<open>\<^verbatim>\<open>pipealloc\<close>: the two files, or nothing with everything given back.\<close>

definition pipealloc :: "'a filest_scheme \<Rightarrow> ((nat \<times> nat) option \<times> 'a filest_scheme) res" where
  "pipealloc s =
     (case filealloc s of
        (None, s) \<Rightarrow> Inr (None, s)
      | (Some f0, s) \<Rightarrow>
          (case filealloc s of
             (None, s) \<Rightarrow> bindE (fileclose f0 s) (\<lambda>s. Inr (None, s))
           | (Some f1, s) \<Rightarrow>
               bindE (kalloc (km s)) (\<lambda>(p, k).
                 let s = s\<lparr>km := k\<rparr> in
                 if p = 0 then bindE (fileclose f0 s) (\<lambda>s. bindE (fileclose f1 s) (\<lambda>s. Inr (None, s)))
                 else
                   let s = s\<lparr>pipes := (pipes s)(p \<mapsto> pipe_init (rd (kmemory k) (p + 52) PIPESIZE))\<rparr>;
                       s = upd_file f0 (\<lambda>x. x\<lparr>ftype := FD_PIPE, readable := True, writable := False, fpipe := p\<rparr>) s;
                       s = upd_file f1 (\<lambda>x. x\<lparr>ftype := FD_PIPE, readable := False, writable := True, fpipe := p\<rparr>) s
                   in Inr (Some (f0, f1), s))))"

end
