(* ===== verification/Proc_c.thy ===== *)
theory Proc_c
  imports File_c
begin

text \<open>
  Processes (\<^verbatim>\<open>proc.c\<close>, \<^verbatim>\<open>proc.h\<close>).  The state extends that of the open files with the process table, the
  process each CPU runs, the next process number and the first process.  A process pointer is an
  index of the table.  Every function that changes the table runs under \<^verbatim>\<open>ptable.lock\<close>; a function
  that gives up the CPU in \<^verbatim>\<open>sched\<close> is split there into what it does before and after.  The trap
  frame, which the source keeps at the top of the kernel stack, is a field of the process.
\<close>

unbundle bit_operations_syntax

section \<open>Definitions\<close>

definition NPROC :: nat where "NPROC = 64"
definition NOFILE :: nat where "NOFILE = 16"
definition KSTACKSIZE :: uint where "KSTACKSIZE = 4096"

datatype procstate = UNUSED | EMBRYO | SLEEPING | RUNNABLE | RUNNING | ZOMBIE

record trapframe =
  tf_edi :: uint
  tf_esi :: uint
  tf_ebp :: uint
  tf_oesp :: uint
  tf_ebx :: uint
  tf_edx :: uint
  tf_ecx :: uint
  tf_eax :: uint
  tf_gs :: ushort
  tf_fs :: ushort
  tf_es :: ushort
  tf_ds :: ushort
  tf_trapno :: uint
  tf_err :: uint
  tf_eip :: uint
  tf_cs :: ushort
  tf_eflags :: uint
  tf_esp :: uint
  tf_ss :: ushort

definition zero_tf :: trapframe where
  "zero_tf = \<lparr>tf_edi = 0, tf_esi = 0, tf_ebp = 0, tf_oesp = 0, tf_ebx = 0, tf_edx = 0, tf_ecx = 0, tf_eax = 0,
     tf_gs = 0, tf_fs = 0, tf_es = 0, tf_ds = 0, tf_trapno = 0, tf_err = 0, tf_eip = 0, tf_cs = 0, tf_eflags = 0,
     tf_esp = 0, tf_ss = 0\<rparr>"

text \<open>A sleep channel: the address of a process (\<^verbatim>\<open>wait\<close>) or of something else in the kernel.\<close>

datatype chan = ChProc nat | ChAddr addr

record proc =
  psz :: uint
  pgdir :: addr
  kstack :: addr
  pstate :: procstate
  pid :: int
  parent :: "nat option"
  tf :: trapframe
  ctxt :: addr
  chan :: "chan option"
  killed :: bool
  ofile :: "nat option list"
  cwd :: nat
  pname :: "uchar list"

text \<open>\<^verbatim>\<open>cpup\<close> is \<^verbatim>\<open>cpus[i].proc\<close>; the addresses of \<^verbatim>\<open>trapret\<close>, \<^verbatim>\<open>forkret\<close> and of the initial program come from the linker.\<close>

record procst = filest +
  procs :: "proc list"
  cpup :: "nat \<Rightarrow> nat option"
  nextpid :: int
  initproc :: nat
  sym_trapret :: addr
  sym_forkret :: addr
  initcode_start :: addr
  initcode_size :: uint

definition myproc :: "'a procst_scheme \<Rightarrow> nat option" where
  "myproc s = cpup s (kme (km s))"

definition upd_proc :: "nat \<Rightarrow> (proc \<Rightarrow> proc) \<Rightarrow> 'a procst_scheme \<Rightarrow> 'a procst_scheme" where
  "upd_proc p f s = s\<lparr>procs := (procs s)[p := f (procs s ! p)]\<rparr>"

subsection \<open>Creation\<close>

text \<open>The size of the trap frame is 76 bytes, that of a context 20 bytes with \<^verbatim>\<open>eip\<close> at 16.\<close>

definition allocproc :: "'a procst_scheme \<Rightarrow> (nat option \<times> 'a procst_scheme) res" where
  "allocproc s =
     (case find (\<lambda>p. pstate (procs s ! p) = UNUSED) [0..<NPROC] of
        None \<Rightarrow> Inr (None, s)
      | Some p \<Rightarrow>
          let s = upd_proc p (\<lambda>x. x\<lparr>pstate := EMBRYO, pid := nextpid s\<rparr>) s;
              s = s\<lparr>nextpid := nextpid s + 1\<rparr>
          in bindE (kalloc (km s)) (\<lambda>(k, m).
               let s = upd_proc p (kstack_update (\<lambda>_. k)) (s\<lparr>km := m\<rparr>) in
               if k = 0 then Inr (None, upd_proc p (pstate_update (\<lambda>_. UNUSED)) s)
               else
                 let sp = k + KSTACKSIZE - 76 - 4;
                     m = kmemory (km s);
                     m = st32 m sp (sym_trapret s);
                     sp = sp - 20;
                     m = memset m sp 0 20;
                     m = st32 m (sp + 16) (sym_forkret s);
                     s = s\<lparr>km := (km s)\<lparr>kmemory := m\<rparr>\<rparr>
                 in Inr (Some p, upd_proc p (ctxt_update (\<lambda>_. sp)) s)))"

definition userinit :: "'a procst_scheme devsw \<Rightarrow> 'a procst_scheme \<Rightarrow> 'a procst_scheme res" where
  "userinit devsw s =
     bindE (allocproc s) (\<lambda>(r, s). case r of
       None \<Rightarrow> Inl Fault
     | Some p \<Rightarrow>
         let s = s\<lparr>initproc := p\<rparr> in
         bindE (setupkvm (km s)) (\<lambda>(d, m).
           let s = upd_proc p (pgdir_update (\<lambda>_. d)) (s\<lparr>km := m\<rparr>) in
           if d = 0 then Inl (Panic ''userinit: out of memory?'')
           else
             bindE (inituvm d (initcode_start s) (initcode_size s) (km s)) (\<lambda>m.
               let s = s\<lparr>km := m\<rparr>;
                   s = upd_proc p (\<lambda>x. x\<lparr>psz := PGSIZE,
                         tf := zero_tf\<lparr>tf_cs := 0x1B, tf_ds := 0x23, tf_es := 0x23, tf_ss := 0x23, tf_eflags := 0x200,
                           tf_esp := PGSIZE, tf_eip := 0\<rparr>,
                         pname := [105, 110, 105, 116, 99, 111, 100, 101]\<rparr>) s
               in bindE (namei devsw 0 [47] s) (\<lambda>(r, s). case r of
                    None \<Rightarrow> Inl Fault
                  | Some ip \<Rightarrow> Inr (upd_proc p (\<lambda>x. x\<lparr>cwd := ip, pstate := RUNNABLE\<rparr>) s)))))"

text \<open>\<^verbatim>\<open>growproc\<close> of the process \<^verbatim>\<open>p\<close>, which is running.\<close>

definition growproc :: "nat \<Rightarrow> int \<Rightarrow> 'a procst_scheme \<Rightarrow> (int \<times> 'a procst_scheme) res" where
  "growproc p n s =
     (let sz = psz (procs s ! p); d = pgdir (procs s ! p) in
      bindE (if n > 0 then bindE (allocuvm d sz (sz + of_int n) (km s)) (\<lambda>(sz, m). Inr (sz, sz = 0, s\<lparr>km := m\<rparr>))
             else if n < 0 then bindE (deallocuvm d sz (sz + of_int n) (km s)) (\<lambda>(sz, m). Inr (sz, sz = 0, s\<lparr>km := m\<rparr>))
             else Inr (sz, False, s)) (\<lambda>(sz, fail, s).
        if fail then Inr (- 1, s)
        else
          let s = upd_proc p (psz_update (\<lambda>_. sz)) s in
          bindE (switchuvm (kstack (procs s ! p)) d (km s)) (\<lambda>m. Inr (0, s\<lparr>km := m\<rparr>))))"

text \<open>The loop of \<^verbatim>\<open>fork\<close> over the open files of \<^verbatim>\<open>p\<close>.\<close>

definition fork_file :: "nat \<Rightarrow> nat \<Rightarrow> nat \<Rightarrow> 'a procst_scheme \<Rightarrow> 'a procst_scheme res" where
  "fork_file p np i s =
     (case ofile (procs s ! p) ! i of
        None \<Rightarrow> Inr s
      | Some f \<Rightarrow> bindE (filedup f s) (\<lambda>(f, s). Inr (upd_proc np (ofile_update (\<lambda>fs. fs[i := Some f])) s)))"

definition fork :: "nat \<Rightarrow> 'a procst_scheme \<Rightarrow> (int \<times> 'a procst_scheme) res" where
  "fork p s =
     bindE (allocproc s) (\<lambda>(r, s). case r of
       None \<Rightarrow> Inr (- 1, s)
     | Some np \<Rightarrow>
         bindE (copyuvm (pgdir (procs s ! p)) (psz (procs s ! p)) (km s)) (\<lambda>(d, m).
           let s = upd_proc np (pgdir_update (\<lambda>_. d)) (s\<lparr>km := m\<rparr>) in
           if d = 0 then
             bindE (kfree (kstack (procs s ! np)) (km s)) (\<lambda>m.
               Inr (- 1, upd_proc np (\<lambda>x. x\<lparr>kstack := 0, pstate := UNUSED\<rparr>) (s\<lparr>km := m\<rparr>)))
           else
             let c = procs s ! p;
                 s = upd_proc np (\<lambda>x. x\<lparr>psz := psz c, parent := Some p, tf := (tf c)\<lparr>tf_eax := 0\<rparr>\<rparr>) s
             in bindE (foldE (fork_file p np) [0..<NOFILE] s) (\<lambda>s.
                  let (ip, s) = idup (cwd c) s;
                      s = upd_proc np (\<lambda>x. x\<lparr>cwd := ip, pname := pname c\<rparr>) s;
                      n = pid (procs s ! np)
                  in Inr (n, upd_proc np (pstate_update (\<lambda>_. RUNNABLE)) s))))"

subsection \<open>Sleep and wakeup\<close>

definition wake :: "chan \<Rightarrow> proc \<Rightarrow> proc" where
  "wake c x = (if pstate x = SLEEPING \<and> chan x = Some c then x\<lparr>pstate := RUNNABLE\<rparr> else x)"

definition wakeup1 :: "chan \<Rightarrow> 'a procst_scheme \<Rightarrow> 'a procst_scheme" where
  "wakeup1 c s = s\<lparr>procs := map (wake c) (procs s)\<rparr>"

definition wakeup :: "chan \<Rightarrow> 'a procst_scheme \<Rightarrow> 'a procst_scheme" where
  "wakeup c s = wakeup1 c s"

text \<open>\<^verbatim>\<open>sleep\<close> up to the call of \<^verbatim>\<open>sched\<close> and after it.\<close>

definition sleep_on :: "nat \<Rightarrow> chan \<Rightarrow> 'a procst_scheme \<Rightarrow> 'a procst_scheme" where
  "sleep_on p c s = upd_proc p (\<lambda>x. x\<lparr>chan := Some c, pstate := SLEEPING\<rparr>) s"

definition sleep_done :: "nat \<Rightarrow> 'a procst_scheme \<Rightarrow> 'a procst_scheme" where
  "sleep_done p s = upd_proc p (chan_update (\<lambda>_. None)) s"

definition kill :: "int \<Rightarrow> 'a procst_scheme \<Rightarrow> int \<times> 'a procst_scheme" where
  "kill n s =
     (case find (\<lambda>p. pid (procs s ! p) = n) [0..<NPROC] of
        None \<Rightarrow> (- 1, s)
      | Some p \<Rightarrow>
          let s = upd_proc p (killed_update (\<lambda>_. True)) s
          in (0, if pstate (procs s ! p) = SLEEPING then upd_proc p (pstate_update (\<lambda>_. RUNNABLE)) s else s))"

subsection \<open>Exit and wait\<close>

definition exit_file :: "nat \<Rightarrow> nat \<Rightarrow> 'a procst_scheme \<Rightarrow> 'a procst_scheme res" where
  "exit_file p fd s =
     (case ofile (procs s ! p) ! fd of
        None \<Rightarrow> Inr s
      | Some f \<Rightarrow> bindE (fileclose f s) (\<lambda>s. Inr (upd_proc p (ofile_update (\<lambda>fs. fs[fd := None])) s)))"

text \<open>One child in the loop of \<^verbatim>\<open>exit\<close> that passes the children of \<^verbatim>\<open>p\<close> to the first process.\<close>

definition reparent :: "nat \<Rightarrow> nat \<Rightarrow> 'a procst_scheme \<Rightarrow> 'a procst_scheme" where
  "reparent p q s =
     (if parent (procs s ! q) = Some p then
        let s = upd_proc q (parent_update (\<lambda>_. Some (initproc s))) s
        in if pstate (procs s ! q) = ZOMBIE then wakeup1 (ChProc (initproc s)) s else s
      else s)"

text \<open>The part of \<^verbatim>\<open>exit\<close> under \<^verbatim>\<open>ptable.lock\<close>, up to the call of \<^verbatim>\<open>sched\<close>.\<close>

definition exit_table :: "nat \<Rightarrow> 'a procst_scheme \<Rightarrow> 'a procst_scheme" where
  "exit_table p s =
     (let s = (case parent (procs s ! p) of Some q \<Rightarrow> wakeup1 (ChProc q) s | None \<Rightarrow> s);
          s = fold (reparent p) [0..<NPROC] s
      in upd_proc p (pstate_update (\<lambda>_. ZOMBIE)) s)"

definition exit :: "nat \<Rightarrow> 'a procst_scheme \<Rightarrow> 'a procst_scheme res" where
  "exit p s =
     (if p = initproc s then Inl (Panic ''init exiting'')
      else
        bindE (foldE (exit_file p) [0..<NOFILE] s) (\<lambda>s.
        bindE (begin_op s) (\<lambda>s.
        bindE (iput (cwd (procs s ! p)) s) (\<lambda>s.
        bindE (end_op s) (\<lambda>s. Inr (exit_table p s))))))"

datatype wait_turn = WRet int | WSleep

definition reap :: "nat \<Rightarrow> 'a procst_scheme \<Rightarrow> (int \<times> 'a procst_scheme) res" where
  "reap q s =
     (let n = pid (procs s ! q) in
      bindE (kfree (kstack (procs s ! q)) (km s)) (\<lambda>m.
      bindE (freevm (pgdir (procs s ! q)) m) (\<lambda>m.
        Inr (n, upd_proc q (\<lambda>x. x\<lparr>kstack := 0, pid := 0, parent := None, pname := [], killed := False, pstate := UNUSED\<rparr>)
                  (s\<lparr>km := m\<rparr>)))))"

text \<open>A turn of \<^verbatim>\<open>wait\<close>: one scan of the table, ending in a return or in a sleep on the process itself.\<close>

definition wait :: "nat \<Rightarrow> 'a procst_scheme \<Rightarrow> (wait_turn \<times> 'a procst_scheme) res" where
  "wait p s =
     (case find (\<lambda>q. parent (procs s ! q) = Some p \<and> pstate (procs s ! q) = ZOMBIE) [0..<NPROC] of
        Some q \<Rightarrow> bindE (reap q s) (\<lambda>(n, s). Inr (WRet n, s))
      | None \<Rightarrow>
          if \<not> (\<exists>q<NPROC. parent (procs s ! q) = Some p) \<or> killed (procs s ! p) then Inr (WRet (- 1), s)
          else Inr (WSleep, sleep_on p (ChProc p) s))"

subsection \<open>Scheduling\<close>

text \<open>The checks of \<^verbatim>\<open>sched\<close> on CPU \<^verbatim>\<open>c\<close>, which runs process \<^verbatim>\<open>p\<close>, before it switches to the scheduler.\<close>

definition sched :: "spinlock \<Rightarrow> nat \<Rightarrow> 'a procst_scheme \<Rightarrow> unit res" where
  "sched ptlock p s =
     bindE (holding (kme (km s)) ptlock (kcpu (km s))) (\<lambda>(h, c).
       if \<not> h then Inl (Panic ''sched ptable.lock'')
       else if ncli c \<noteq> 1 then Inl (Panic ''sched locks'')
       else if pstate (procs s ! p) = RUNNING then Inl (Panic ''sched running'')
       else if fl_if c then Inl (Panic ''sched interruptible'')
       else Inr ())"

text \<open>\<^verbatim>\<open>yield\<close> up to the call of \<^verbatim>\<open>sched\<close>.\<close>

definition yield :: "nat \<Rightarrow> 'a procst_scheme \<Rightarrow> 'a procst_scheme" where
  "yield p s = upd_proc p (pstate_update (\<lambda>_. RUNNABLE)) s"

text \<open>The body of the loop of \<^verbatim>\<open>scheduler\<close> for process \<^verbatim>\<open>p\<close>, before and after the switch to it.\<close>

definition sched_run :: "nat \<Rightarrow> 'a procst_scheme \<Rightarrow> 'a procst_scheme res" where
  "sched_run p s =
     (let s = s\<lparr>cpup := (cpup s)(kme (km s) \<mapsto> p)\<rparr> in
      bindE (switchuvm (kstack (procs s ! p)) (pgdir (procs s ! p)) (km s)) (\<lambda>m.
        Inr (upd_proc p (pstate_update (\<lambda>_. RUNNING)) (s\<lparr>km := m\<rparr>))))"

definition sched_back :: "'a procst_scheme \<Rightarrow> 'a procst_scheme" where
  "sched_back s = s\<lparr>km := switchkvm (km s), cpup := (cpup s)(kme (km s) := None)\<rparr>"

text \<open>\<^verbatim>\<open>forkret\<close> of the first process, which initialises the file system and the log.\<close>

definition forkret :: "bool \<Rightarrow> 'a procst_scheme \<Rightarrow> 'a procst_scheme res" where
  "forkret first s = (if first then bindE (iinit ROOTDEV s) (initlog ROOTDEV) else Inr s)"

end
