(* ===== verification/Console_c.thy ===== *)
theory Console_c
  imports Ring String_c
begin

text \<open>
  The console (\<^verbatim>\<open>console.c\<close>): number and format output, the text screen, the line-edited input buffer
  and the reads from it.  The state holds \<^verbatim>\<open>input\<close>, the flag \<^verbatim>\<open>panicked\<close>, the bytes sent to the serial
  port, the screen memory and the cursor registers.  \<^verbatim>\<open>cons.lock\<close> is held around each function.
  Characters are the integers the source passes around; \<^verbatim>\<open>consoleread\<close> is modelled by its turns, each
  running until it returns or sleeps.
\<close>

unbundle bit_operations_syntax

section \<open>Definitions\<close>

record console =
  ibuf :: "uchar list"
  ir :: uint
  iw :: uint
  ie :: uint
  panicked :: bool
  uart_out :: "uchar list"
  crt :: "nat \<Rightarrow> ushort"
  cpos :: nat

definition INPUT_BUF :: nat where "INPUT_BUF = 128"
definition BACKSPACE :: int where "BACKSPACE = 0x100"

text \<open>The screen: 25 lines of 80 cells, of which the last is only used while scrolling.\<close>

definition cgaputc :: "int \<Rightarrow> console \<Rightarrow> console res" where
  "cgaputc c s =
     (let pos = cpos s;
          (pos, scr) = (if c = 10 then (pos + (80 - pos mod 80), crt s)
                        else if c = BACKSPACE then (if pos > 0 then pos - 1 else pos, crt s)
                        else (pos + 1, (crt s)(pos := (of_int c AND 0xff) OR 0x0700)))
      in if pos > 25 * 80 then Inl (Panic ''pos under/overflow'')
         else
           let (pos, scr) = (if pos div 80 \<ge> 24 then
                   let scr = (\<lambda>i. if i < 23 * 80 then scr (i + 80) else scr i); pos = pos - 80
                   in (pos, \<lambda>i. if pos \<le> i \<and> i < 24 * 80 then 0 else scr i)
                 else (pos, scr))
           in Inr (s\<lparr>cpos := pos, crt := scr(pos := 0x20 OR 0x0700)\<rparr>))"

definition consputc :: "int \<Rightarrow> console \<Rightarrow> console res" where
  "consputc c s =
     (if panicked s then Inl Loops
      else if c = BACKSPACE then cgaputc c (s\<lparr>uart_out := uart_out s @ [8, 0x20, 8]\<rparr>)
      else cgaputc c (s\<lparr>uart_out := uart_out s @ [of_int c]\<rparr>))"

text \<open>
  The digits the \<^verbatim>\<open>do\<close> loop of \<^verbatim>\<open>printint\<close> puts into \<^verbatim>\<open>buf\<close>, least significant first.  The bases used are
  10 and 16; a base below 2 would not end.
\<close>

function print_digits :: "nat \<Rightarrow> nat \<Rightarrow> nat list" where
  "print_digits base x =
     x mod base # (if x div base = 0 \<or> base < 2 then [] else print_digits base (x div base))"
  by pat_completeness auto
termination
proof (relation "measure snd")
  fix base x :: nat
  assume "\<not> (x div base = 0 \<or> base < 2)"
  then have "0 < x" "1 < base"
    by (auto intro: Nat.gr0I)
  then show "((base, x div base), (base, x)) \<in> measure snd"
    by (simp add: div_less_dividend)
qed simp

declare print_digits.simps [simp del]

definition digit_char :: "nat \<Rightarrow> int" where
  "digit_char d = (if d < 10 then 48 + int d else 87 + int d)"

text \<open>The contents of \<^verbatim>\<open>buf\<close>, which has room for 16 characters.\<close>

definition printint_buf :: "uint \<Rightarrow> nat \<Rightarrow> bool \<Rightarrow> int list res" where
  "printint_buf xx base sign =
     (let neg = sign \<and> sint xx < 0;
          x = (if neg then - xx else xx);
          buf = map digit_char (print_digits base (unat x)) @ (if neg then [45] else [])
      in if length buf > 16 then Inl Fault else Inr buf)"

definition printint :: "uint \<Rightarrow> nat \<Rightarrow> bool \<Rightarrow> console \<Rightarrow> console res" where
  "printint xx base sign s = bindE (printint_buf xx base sign) (\<lambda>buf. foldE consputc (rev buf) s)"

text \<open>
  \<^verbatim>\<open>cprintf\<close>: the format as the bytes before its terminator, the arguments as the words on the stack.
\<close>

definition puts :: "mem \<Rightarrow> addr \<Rightarrow> console \<Rightarrow> console res" where
  "puts m a s =
     (if a = 0 then foldE consputc [40, 110, 117, 108, 108, 41] s
      else case strlen m a of None \<Rightarrow> Inl Loops
         | Some n \<Rightarrow> foldE consputc (map (\<lambda>b. sint (b :: uchar)) (rd m a n)) s)"

fun cprintf :: "mem \<Rightarrow> uchar list \<Rightarrow> uint list \<Rightarrow> console \<Rightarrow> console res" where
  "cprintf m [] args s = Inr s"
| "cprintf m [c] args s = (if c = 37 then Inr s else consputc (uint c) s)"
| "cprintf m (c # d # fmt) args s =
     (if c \<noteq> 37 then bindE (consputc (uint c) s) (cprintf m (d # fmt) args)
      else if d = 100 then
        (case args of [] \<Rightarrow> Inl Fault | a # args \<Rightarrow> bindE (printint a 10 True s) (cprintf m fmt args))
      else if d = 120 \<or> d = 112 then
        (case args of [] \<Rightarrow> Inl Fault | a # args \<Rightarrow> bindE (printint a 16 False s) (cprintf m fmt args))
      else if d = 115 then
        (case args of [] \<Rightarrow> Inl Fault | a # args \<Rightarrow> bindE (puts m a s) (cprintf m fmt args))
      else if d = 37 then bindE (consputc 37 s) (cprintf m fmt args)
      else bindE (consputc 37 s) (\<lambda>s. bindE (consputc (uint d) s) (cprintf m fmt args)))"

lemma cgaputc_input:
  assumes "cgaputc c s = Inr t"
  shows "ibuf t = ibuf s" "ir t = ir s" "iw t = iw s" "ie t = ie s" "panicked t = panicked s" "uart_out t = uart_out s"
  using assms by (auto simp: cgaputc_def Let_def split: if_splits)

lemma consputc_input:
  assumes "consputc c s = Inr t"
  shows "ibuf t = ibuf s" "ir t = ir s" "iw t = iw s" "ie t = ie s" "panicked t = panicked s"
  using assms cgaputc_input [of c "s\<lparr>uart_out := uart_out s @ [8, 0x20, 8]\<rparr>" t]
    cgaputc_input [of c "s\<lparr>uart_out := uart_out s @ [of_int c]\<rparr>" t]
  by (simp_all add: consputc_def split: if_splits)

text \<open>Control-U: take back the characters of the line that is being edited.\<close>

function kill_line :: "console \<Rightarrow> console res" where
  "kill_line s =
     (if ie s \<noteq> iw s \<and> ibuf s ! (unat (ie s - 1) mod INPUT_BUF) \<noteq> 10 then
        bindE (consputc BACKSPACE (s\<lparr>ie := ie s - 1\<rparr>)) kill_line
      else Inr s)"
  by pat_completeness auto
termination
proof (relation "measure (\<lambda>s. unat (ie s - iw s))")
  fix s t
  assume a: "ie s \<noteq> iw s \<and> ibuf s ! (unat (ie s - 1) mod INPUT_BUF) \<noteq> 10"
    and t: "consputc BACKSPACE (s\<lparr>ie := ie s - 1\<rparr>) = Inr t"
  have "ie t - iw t = (ie s - iw s) - 1"
    using consputc_input [OF t] by (simp add: algebra_simps)
  moreover have "ie s - iw s \<noteq> 0"
    using a by simp
  ultimately show "(t, s) \<in> measure (\<lambda>s. unat (ie s - iw s))"
    using unat_sub_uint [of 1 "ie s - iw s"] by (simp add: word_le_nat_alt unat_gt_0 Suc_le_eq)
qed simp

declare kill_line.simps [simp del]

text \<open>One character of \<^verbatim>\<open>consoleintr\<close>; the flag says whether a process listing was asked for.\<close>

definition console_char :: "int \<Rightarrow> console \<Rightarrow> (bool \<times> console) res" where
  "console_char c s =
     (if c = 16 then Inr (True, s)
      else if c = 21 then bindE (kill_line s) (\<lambda>s. Inr (False, s))
      else if c = 8 \<or> c = 127 then
        if ie s \<noteq> iw s then bindE (consputc BACKSPACE (s\<lparr>ie := ie s - 1\<rparr>)) (\<lambda>s. Inr (False, s)) else Inr (False, s)
      else if c \<noteq> 0 \<and> ie s - ir s < of_nat INPUT_BUF then
        let c = (if c = 13 then 10 else c);
            s = s\<lparr>ibuf := (ibuf s)[unat (ie s) mod INPUT_BUF := of_int c], ie := ie s + 1\<rparr>
        in bindE (consputc c s) (\<lambda>s.
             Inr (False, if c = 10 \<or> c = 4 \<or> ie s = ir s + of_nat INPUT_BUF then s\<lparr>iw := ie s\<rparr> else s))
      else Inr (False, s))"

text \<open>\<^verbatim>\<open>consoleintr\<close> on the characters \<^verbatim>\<open>getc\<close> gives before a negative one.\<close>

fun consoleintr :: "int list \<Rightarrow> bool \<Rightarrow> console \<Rightarrow> (bool \<times> console) res" where
  "consoleintr [] dump s = Inr (dump, s)"
| "consoleintr (c # cs) dump s = bindE (console_char c s) (\<lambda>(p, s). consoleintr cs (dump \<or> p) s)"

datatype cread = CRet int | CSleep nat

text \<open>
  A turn of \<^verbatim>\<open>consoleread\<close> with \<^verbatim>\<open>n\<close> of \<^verbatim>\<open>target\<close> bytes still wanted: how it ends and the bytes it has
  stored at \<^verbatim>\<open>dst\<close>.
\<close>

fun consoleread :: "bool \<Rightarrow> nat \<Rightarrow> nat \<Rightarrow> console \<Rightarrow> cread \<times> uchar list \<times> console" where
  "consoleread killed target 0 s = (CRet (int target), [], s)"
| "consoleread killed target (Suc n) s =
     (if ir s = iw s then
        if killed then (CRet (- 1), [], s) else (CSleep (Suc n), [], s)
      else
        let c = ibuf s ! (unat (ir s) mod INPUT_BUF); s = s\<lparr>ir := ir s + 1\<rparr> in
        if c = 4 then (CRet (int target - int (Suc n)), [], if Suc n < target then s\<lparr>ir := ir s - 1\<rparr> else s)
        else if c = 10 then (CRet (int target - int n), [c], s)
        else let (r, cs, s) = consoleread killed target n s in (r, c # cs, s))"

definition consolewrite :: "uchar list \<Rightarrow> console \<Rightarrow> console res" where
  "consolewrite bs s = foldE consputc (map uint bs) s"

section \<open>Output\<close>

text \<open>The digits stand for the number, each is below the base, and there is no leading zero.\<close>

lemma print_digits_spec:
  assumes "2 \<le> base"
  shows "foldr (\<lambda>d v. d + base * v) (print_digits base x) 0 = x \<and> (\<forall>d\<in>set (print_digits base x). d < base) \<and>
    print_digits base x \<noteq> [] \<and> (x \<noteq> 0 \<longrightarrow> last (print_digits base x) \<noteq> 0)"
  using assms
proof (induction base x rule: print_digits.induct)
  case (1 base x)
  show ?case
  proof (cases "x div base = 0")
    case True
    then show ?thesis
      using 1(2) by (subst (1 2 3 4) print_digits.simps) (auto simp: div_eq_0_iff)
  next
    case False
    then have IH: "foldr (\<lambda>d v. d + base * v) (print_digits base (x div base)) 0 = x div base \<and>
        (\<forall>d\<in>set (print_digits base (x div base)). d < base) \<and>
        print_digits base (x div base) \<noteq> [] \<and> (x div base \<noteq> 0 \<longrightarrow> last (print_digits base (x div base)) \<noteq> 0)"
      using 1 by simp
    have e: "print_digits base x = x mod base # print_digits base (x div base)"
      using False 1(2) by (subst print_digits.simps) simp
    show ?thesis
      unfolding e using IH 1(2) False by (simp add: mod_mult_div_eq)
  qed
qed

lemma print_digits_length: "x < base ^ k \<Longrightarrow> 0 < k \<Longrightarrow> 2 \<le> base \<Longrightarrow> length (print_digits base x) \<le> k"
proof (induction base x arbitrary: k rule: print_digits.induct)
  case (1 base x)
  show ?case
  proof (cases "x div base = 0")
    case True
    then show ?thesis
      using 1(3) by (subst print_digits.simps) simp
  next
    case False
    have "base \<le> x"
      using False by (simp add: div_eq_0_iff)
    then obtain j where k: "k = Suc j" "0 < j"
      using 1(2,3) by (cases k; cases "k - 1") auto
    then have "x div base < base ^ j"
      using 1(2) by (simp add: less_mult_imp_div_less mult.commute)
    then have "length (print_digits base (x div base)) \<le> j"
      using 1(1) [of j] False 1(4) k(2) by simp
    then show ?thesis
      using False 1(4) k(1) by (subst print_digits.simps) simp
  qed
qed

lemma sint_neg_uint: "sint (x :: uint) < 0 \<Longrightarrow> uint (- x) = - sint x"
proof -
  assume n: "sint x < 0"
  have "uint (- x) = (- sint x) mod 4294967296"
    using uint_word_of_int_eq [of "- sint x", where 'a = 32] by (simp add: take_bit_eq_mod)
  moreover have "- sint x \<le> 2147483648"
    using sint_ge [of x] by simp
  ultimately show ?thesis
    using n by simp
qed

lemma sint_nonneg_uint: "0 \<le> sint (x :: uint) \<Longrightarrow> sint x = uint x"
proof -
  assume n: "0 \<le> sint x"
  have "uint x = sint x mod 4294967296"
    using uint_word_of_int_eq [of "sint x", where 'a = 32] by (simp add: take_bit_eq_mod)
  moreover have "sint x < 2147483648"
    using sint_lt [of x] by simp
  ultimately show ?thesis
    using n by simp
qed

section \<open>Input\<close>

definition console_ok :: "console \<Rightarrow> bool" where
  "console_ok s \<longleftrightarrow> \<not> panicked s \<and> cpos s < 25 * 80 \<and> length (ibuf s) = INPUT_BUF \<and>
     unat (iw s - ir s) \<le> unat (ie s - ir s) \<and> unat (ie s - ir s) \<le> INPUT_BUF"

text \<open>The bytes a reader can have, and all bytes typed and not yet read.\<close>

definition committed :: "console \<Rightarrow> uchar list" where
  "committed s = ring_contents INPUT_BUF (ibuf s) (ir s) (iw s)"

definition typed :: "console \<Rightarrow> uchar list" where
  "typed s = ring_contents INPUT_BUF (ibuf s) (ir s) (ie s)"

interpretation ci: ring_buffer INPUT_BUF
  by unfold_locales (simp_all add: INPUT_BUF_def)

lemma cgaputc_total:
  assumes "cpos s < 25 * 80"
  shows "\<exists>t. cgaputc c s = Inr t \<and> cpos t \<le> 24 * 80 \<and> (\<forall>i\<ge>25 * 80. crt t i = crt s i)"
proof -
  have n: "cpos s + (80 - cpos s mod 80) \<le> 25 * 80"
    using assms div_mult_mod_eq [of "cpos s" 80] mod_less_divisor [of 80 "cpos s"] less_mult_imp_div_less [of "cpos s" 25 80]
    by linarith
  have r: "24 \<le> p div 80 \<longleftrightarrow> 1920 \<le> p" for p :: nat
    by (simp add: less_eq_div_iff_mult_less_eq)
  show ?thesis
    using n assms by (auto simp: cgaputc_def Let_def r)
qed

lemma consputc_total:
  assumes "cpos s < 25 * 80" "\<not> panicked s"
  shows "\<exists>t. consputc c s = Inr t \<and> cpos t < 25 * 80"
  using assms cgaputc_total [of "s\<lparr>uart_out := uart_out s @ [8, 0x20, 8]\<rparr>" c]
    cgaputc_total [of "s\<lparr>uart_out := uart_out s @ [of_int c]\<rparr>" c]
  by (fastforce simp: consputc_def)

lemma consputc_uart: "consputc c s = Inr t \<Longrightarrow> c \<noteq> BACKSPACE \<Longrightarrow> uart_out t = uart_out s @ [of_int c]"
  by (auto simp: consputc_def split: if_splits dest: cgaputc_input(6))

text \<open>Characters other than the backspace code go to the serial port one after the other.\<close>

lemma consputc_all:
  assumes "cpos s < 25 * 80" "\<not> panicked s" "BACKSPACE \<notin> set cs"
  shows "\<exists>t. foldE consputc cs s = Inr t \<and> uart_out t = uart_out s @ map of_int cs \<and>
    ibuf t = ibuf s \<and> ir t = ir s \<and> iw t = iw s \<and> ie t = ie s"
  using assms
proof (induction cs arbitrary: s)
  case (Cons c cs)
  obtain u where u: "consputc c s = Inr u" "cpos u < 25 * 80"
    using consputc_total [OF Cons.prems(1,2)] by blast
  note U = consputc_input [OF u(1)] consputc_uart [OF u(1)]
  show ?case
    using Cons.IH [of u] Cons.prems u U by auto
qed simp

lemma digits_value: "foldl (\<lambda>v d. b * v + d) 0 (rev ds) = foldr (\<lambda>d v. d + b * v) ds (0 :: nat)"
  by (induction ds) (simp_all add: add.commute)

text \<open>
  C16: \<^verbatim>\<open>printint\<close> in the bases it is called with returns, without overrunning its 16-character buffer, and
  sends the right characters in the right order: a minus sign exactly for negative numbers printed signed
  (including the most negative one), and then one or more digits of the base, the first of them 0 only for the number 0,
  that stand for the absolute value, most significant first.  It leaves the input alone.
\<close>

theorem printint_correct:
  fixes xx :: uint and base :: nat and sign :: bool
  assumes b: "base = 10 \<or> base = 16" and s: "cpos s < 25 * 80" "\<not> panicked s"
  defines "neg \<equiv> sign \<and> sint xx < 0"
  shows "\<exists>t ds. printint xx base sign s = Inr t \<and>
    uart_out t = uart_out s @ map of_int ((if neg then [45] else []) @ map digit_char ds) \<and>
    ds \<noteq> [] \<and> length ds + (if neg then 1 else 0) \<le> 16 \<and> (\<forall>d\<in>set ds. d < base) \<and> (hd ds = 0 \<longleftrightarrow> xx = 0) \<and>
    int (foldl (\<lambda>v d. base * v + d) 0 ds) = (if neg then - sint xx else if sign then sint xx else uint xx) \<and>
    ibuf t = ibuf s \<and> ir t = ir s \<and> iw t = iw s \<and> ie t = ie s"
proof -
  define x where "x = (if neg then - xx else xx)"
  let ?ds = "print_digits base (unat x)"
  have b2: "2 \<le> base"
    using b by auto
  note S = print_digits_spec [OF b2, of "unat x"]
  have "unat x < base ^ 10"
    by (rule less_le_trans [OF unat_uint_less]) (use b in auto)
  then have l: "length ?ds \<le> 10"
    using print_digits_length [of "unat x" base 10] b2 by simp
  have v: "int (unat x) = (if neg then - sint xx else if sign then sint xx else uint xx)"
    using sint_neg_uint [of xx] sint_nonneg_uint [of xx] by (auto simp: x_def neg_def)
  have "printint_buf xx base sign = Inr (map digit_char ?ds @ (if neg then [45] else []))"
    unfolding printint_buf_def Let_def neg_def [symmetric] x_def [symmetric] using l by simp
  then have "printint xx base sign s = foldE consputc ((if neg then [45] else []) @ map digit_char (rev ?ds)) s"
    by (simp add: printint_def rev_map)
  moreover have "BACKSPACE \<notin> set ((if neg then [45] else []) @ map digit_char (rev ?ds))"
    using S b by (force simp: digit_char_def BACKSPACE_def)
  moreover have "last ?ds = 0 \<longleftrightarrow> xx = 0"
    using S by (auto simp: x_def unat_eq_0 print_digits.simps [of base 0])
  ultimately obtain t where t: "printint xx base sign s = Inr t" "ibuf t = ibuf s \<and> ir t = ir s \<and> iw t = iw s \<and> ie t = ie s"
      "uart_out t = uart_out s @ map of_int ((if neg then [45] else []) @ map digit_char (rev ?ds))"
      and z: "last ?ds = 0 \<longleftrightarrow> xx = 0"
    using consputc_all [OF s, of "(if neg then [45] else []) @ map digit_char (rev ?ds)"] by metis
  then show ?thesis
    using S l v by (intro exI [of _ t] exI [of _ "rev ?ds"]) (simp add: digits_value hd_rev del: map_append)
qed

theorem printint_correct_witness:
  "\<exists>t. printint (- 2147483648) 10 True \<lparr>ibuf = [], ir = 0, iw = 0, ie = 0, panicked = False, uart_out = [], crt = (\<lambda>_. 0), cpos = 0\<rparr> = Inr t \<and>
    hd (uart_out t) = 45"
  using printint_correct [of 10 "\<lparr>ibuf = [], ir = 0, iw = 0, ie = 0, panicked = False, uart_out = [], crt = (\<lambda>_. 0), cpos = 0\<rparr>" "- 2147483648" True]
  by auto

text \<open>Output keeps the input buffer and ends in a good state again.\<close>

lemma consputc_ok:
  assumes "console_ok s"
  obtains t where "consputc c s = Inr t" "console_ok t" "ibuf t = ibuf s" "ir t = ir s" "iw t = iw s" "ie t = ie s"
proof -
  obtain t where t: "consputc c s = Inr t" "cpos t < 25 * 80"
    using consputc_total [of s c] assms by (auto simp: console_ok_def)
  then show ?thesis
    using that [of t] assms consputc_input [OF t(1)] by (simp add: console_ok_def)
qed

lemma committed_take:
  assumes "console_ok s"
  shows "committed s = take (unat (iw s - ir s)) (typed s)"
  using assms by (simp add: committed_def typed_def ring_contents_def console_ok_def take_map)

text \<open>Taking back a character that is not committed.\<close>

lemma unedit_ok:
  assumes "console_ok s" "ie s \<noteq> iw s"
  shows "console_ok (s\<lparr>ie := ie s - 1\<rparr>)"
proof -
  have "iw s - ir s \<noteq> ie s - ir s"
    using assms(2) by simp
  then have "unat (iw s - ir s) \<noteq> unat (ie s - ir s)"
    using word_unat_eq_iff by blast
  then have l: "unat (iw s - ir s) < unat (ie s - ir s)"
    using assms(1) by (simp add: console_ok_def)
  have "ie s - 1 - ir s = ie s - ir s - 1"
    by simp
  then have "unat (ie s - 1 - ir s) = unat (ie s - ir s) - 1"
    using l unat_sub_uint [of 1 "ie s - ir s"] by (simp only:) (simp add: word_le_nat_alt)
  then show ?thesis
    using l assms(1) by (auto simp: console_ok_def)
qed

lemma kill_line_ok:
  "console_ok s \<Longrightarrow>
    \<exists>t. kill_line s = Inr t \<and> console_ok t \<and> ibuf t = ibuf s \<and> ir t = ir s \<and> iw t = iw s"
proof (induction s rule: kill_line.induct)
  case (1 s)
  show ?case
  proof (cases "ie s \<noteq> iw s \<and> ibuf s ! (unat (ie s - 1) mod INPUT_BUF) \<noteq> 10")
    case True
    obtain t where t: "consputc BACKSPACE (s\<lparr>ie := ie s - 1\<rparr>) = Inr t" "console_ok t" "ibuf t = ibuf s"
        "ir t = ir s" "iw t = iw s"
      by (rule consputc_ok [OF unedit_ok [OF 1(2)], of BACKSPACE]) (use True in simp_all)
    then obtain u where "kill_line t = Inr u" "console_ok u" "ibuf u = ibuf t" "ir u = ir t" "iw u = iw t"
      using 1(1) [OF True t(1)] by blast
    then show ?thesis
      using True t by (subst kill_line.simps) simp
  next
    case False
    then show ?thesis
      using 1(2) by (subst kill_line.simps) auto
  qed
qed


lemma typed_push:
  fixes s :: console and c :: uchar
  assumes "console_ok s" "ie s - ir s < of_nat INPUT_BUF"
  defines "t \<equiv> s\<lparr>ibuf := (ibuf s)[unat (ie s) mod INPUT_BUF := c], ie := ie s + 1\<rparr>"
  shows "typed t = typed s @ [c]" "console_ok t" "committed t = committed s" "committed (t\<lparr>iw := ie t\<rparr>) = typed s @ [c]"
proof -
  have l: "unat (ie s - ir s) < INPUT_BUF"
    using assms(2) by (simp add: word_less_nat_alt INPUT_BUF_def)
  then have n: "unat (ie s + 1 - ir s) = Suc (unat (ie s - ir s))"
    using unat_add_uint [of "ie s - ir s" 1] by (simp add: algebra_simps INPUT_BUF_def)
  show T: "typed t = typed s @ [c]"
    using ci.contents_push [OF l] assms(1) by (simp add: t_def typed_def ring_slot_def console_ok_def)
  show K: "console_ok t"
    using assms(1) l n by (simp add: t_def console_ok_def)
  show "committed t = committed s"
    unfolding committed_take [OF K] T committed_take [OF assms(1)]
    using assms(1) by (simp add: t_def typed_def console_ok_def)
  show "committed (t\<lparr>iw := ie t\<rparr>) = typed s @ [c]"
    unfolding T [symmetric] by (simp add: committed_def typed_def)
qed

lemma console_char_ok:
  assumes "console_ok s"
  shows "\<exists>p t new. console_char c s = Inr (p, t) \<and> console_ok t \<and> ir t = ir s \<and> committed t = committed s @ new"
proof -
  consider "c = 16" | "c = 21" | "c = 8 \<or> c = 127"
    | "c \<noteq> 16" "c \<noteq> 21" "\<not> (c = 8 \<or> c = 127)" "c \<noteq> 0 \<and> ie s - ir s < of_nat INPUT_BUF"
    | "c \<noteq> 16" "c \<noteq> 21" "\<not> (c = 8 \<or> c = 127)" "\<not> (c \<noteq> 0 \<and> ie s - ir s < of_nat INPUT_BUF)"
    by blast
  then show ?thesis
  proof cases
    case 1
    then show ?thesis
      using assms by (auto simp: console_char_def)
  next
    case 2
    then show ?thesis
      using kill_line_ok [OF assms] by (auto simp: console_char_def committed_def)
  next
    case 3
    show ?thesis
    proof (cases "ie s = iw s")
      case False
      obtain t where "consputc BACKSPACE (s\<lparr>ie := ie s - 1\<rparr>) = Inr t" "console_ok t" "ibuf t = ibuf s" "ir t = ir s" "iw t = iw s"
        by (rule consputc_ok [OF unedit_ok [OF assms False], of BACKSPACE]) simp_all
      then show ?thesis
        using 3 False by (auto simp: console_char_def committed_def)
    qed (use 3 assms in \<open>auto simp: console_char_def\<close>)
  next
    case 4
    define d where "d = (if c = 13 then 10 else c)"
    define u where "u = s\<lparr>ibuf := (ibuf s)[unat (ie s) mod INPUT_BUF := of_int d], ie := ie s + 1\<rparr>"
    note P = typed_push [OF assms conjunct2 [OF 4(4)], of "of_int d", folded u_def]
    obtain t where t: "consputc d u = Inr t" "console_ok t" "ibuf t = ibuf u" "ir t = ir u" "iw t = iw u" "ie t = ie u"
      by (rule consputc_ok [OF P(2)])
    let ?commit = "d = 10 \<or> d = 4 \<or> ie t = ir t + of_nat INPUT_BUF"
    have e: "console_char c s = Inr (False, if ?commit then t\<lparr>iw := ie t\<rparr> else t)"
      using 4 t(1) unfolding console_char_def d_def u_def by (simp add: Let_def)
    have ct: "committed t = committed s"
      using t P(3) by (simp add: committed_def)
    have "committed (t\<lparr>iw := ie t\<rparr>) = typed s @ [of_int d]"
      using t P(4) by (simp add: committed_def)
    also have "\<dots> = committed s @ drop (unat (iw s - ir s)) (typed s) @ [of_int d]"
      by (simp add: committed_take [OF assms])
    finally have "\<exists>new. committed (if ?commit then t\<lparr>iw := ie t\<rparr> else t) = committed s @ new"
      using ct by auto
    moreover have "console_ok (if ?commit then t\<lparr>iw := ie t\<rparr> else t)"
      using t(2) by (simp add: console_ok_def)
    ultimately show ?thesis
      using e t(4) by (auto simp: u_def)
  next
    case 5
    then show ?thesis
      using assms by (auto simp: console_char_def)
  qed
qed

text \<open>
  C17: the console interrupt on any sequence of characters, from any good state: it never panics
  and ends in a good state (the counters in order and at most 128 apart, so the unsigned tests in
  the source mean what they say even when the counters wrap), does not move the read position, and
  only ever appends to the bytes that readers can have: editing takes back only bytes of the line
  that is not yet complete.
\<close>

theorem consoleintr_appends:
  "console_ok s \<Longrightarrow>
    \<exists>d t new. consoleintr cs dump s = Inr (d, t) \<and> console_ok t \<and> ir t = ir s \<and> committed t = committed s @ new"
proof (induction cs arbitrary: s dump)
  case (Cons c cs)
  obtain p t new where t: "console_char c s = Inr (p, t)" "console_ok t" "ir t = ir s" "committed t = committed s @ new"
    using console_char_ok [OF Cons.prems, of c] by blast
  obtain d u new' where "consoleintr cs (dump \<or> p) t = Inr (d, u)" "console_ok u" "ir u = ir t" "committed u = committed t @ new'"
    using Cons.IH [OF t(2), of "dump \<or> p"] by blast
  then show ?case
    using t by simp
qed simp


definition console_boot :: console where
  "console_boot = \<lparr>ibuf = replicate 128 0, ir = 0, iw = 0, ie = 0, panicked = False, uart_out = [], crt = (\<lambda>_. 0), cpos = 0\<rparr>"

lemma console_boot_ok: "console_ok console_boot" "committed console_boot = []"
  by (simp_all add: console_ok_def console_boot_def committed_def ring_contents_def INPUT_BUF_def)

theorem consoleintr_appends_witness:
  "\<exists>d t new. consoleintr [108, 120, 8, 115, 13] False console_boot = Inr (d, t) \<and> console_ok t \<and>
    ir t = 0 \<and> committed t = new"
  using consoleintr_appends [OF console_boot_ok(1), of "[108, 120, 8, 115, 13]" False] console_boot_ok(2)
  by (simp add: console_boot_def)

lemma pop_ok:
  assumes "console_ok s" "ir s \<noteq> iw s"
  shows "console_ok (s\<lparr>ir := ir s + 1\<rparr>)"
    "committed s = ibuf s ! (unat (ir s) mod INPUT_BUF) # committed (s\<lparr>ir := ir s + 1\<rparr>)"
proof -
  have 0: "0 < unat (iw s - ir s)"
    using assms(2) by (simp add: unat_gt_0)
  have d: "unat (x - (ir s + 1)) = unat (x - ir s) - 1" if "0 < unat (x - ir s)" for x
    using that unat_sub_uint [of 1 "x - ir s"] by (simp add: diff_diff_eq [symmetric] word_le_nat_alt)
  have 1: "0 < unat (ie s - ir s)"
    using 0 assms(1) by (simp add: console_ok_def)
  show "console_ok (s\<lparr>ir := ir s + 1\<rparr>)"
    using assms(1) 0 d [OF 0] d [OF 1] by (auto simp: console_ok_def)
  show "committed s = ibuf s ! (unat (ir s) mod INPUT_BUF) # committed (s\<lparr>ir := ir s + 1\<rparr>)"
    using ci.contents_pop [OF assms(2), of "ibuf s"] by (simp add: committed_def ring_slot_def)
qed

text \<open>
  C18: a turn of \<^verbatim>\<open>consoleread\<close> takes bytes off the front of the committed input and delivers exactly
  those, in order: at most the number asked for, a newline only as the last one and never the
  end-of-file mark, which is taken off only when nothing was read before it, so that the next read
  sees it.  A return that is not the killed one counts the bytes delivered, and the turn sleeps only
  when the committed input is used up.
\<close>

theorem consoleread_delivers:
  assumes "console_ok s" "n \<le> target" "consoleread killed target n s = (r, cs, t)"
  shows "console_ok t \<and> length cs \<le> n \<and> 4 \<notin> set cs \<and> 10 \<notin> set (butlast cs) \<and>
    (committed s = cs @ committed t \<or> n = target \<and> cs = [] \<and> r = CRet 0 \<and> committed s = 4 # committed t) \<and>
    (case r of CRet k \<Rightarrow> k = int (target - n + length cs) \<or> killed \<and> k = - 1
     | CSleep m \<Rightarrow> m = n - length cs \<and> 0 < m \<and> committed t = [] \<and> \<not> killed)"
  using assms
proof (induction n arbitrary: s r cs t)
  case (Suc n)
  let ?c = "ibuf s ! (unat (ir s) mod INPUT_BUF)" and ?s = "s\<lparr>ir := ir s + 1\<rparr>"
  show ?case
  proof (cases "ir s = iw s")
    case True
    then show ?thesis
      using Suc.prems by (auto simp: committed_def ci.contents_empty_iff split: if_splits)
  next
    case False
    note P = pop_ok [OF Suc.prems(1) False]
    consider "?c = 4" | "?c = 10" | "?c \<noteq> 4" "?c \<noteq> 10" by blast
    then show ?thesis
    proof cases
      case 1
      then show ?thesis
        using Suc.prems False P by (auto simp: Let_def split: if_splits)
    next
      case 2
      then show ?thesis
        using Suc.prems False P by (auto simp: Let_def)
    next
      case 3
      obtain cs' where *: "consoleread killed target n ?s = (r, cs', t)" "cs = ?c # cs'"
        using Suc.prems(3) False 3 by (auto simp: Let_def split: prod.splits)
      show ?thesis
        using Suc.IH [OF P(1) _ *(1)] Suc.prems(2) 3 *(2) P(2)
        by (auto split: cread.splits)
    qed
  qed
qed auto

theorem consoleread_delivers_witness:
  "\<exists>r cs t. consoleread False 3 3 console_boot = (r, cs, t) \<and> console_ok t \<and> r = CSleep 3 \<and> cs = []"
  using consoleread_delivers [OF console_boot_ok(1), of 3 3 False "CSleep 3" "[]" console_boot]
  by (simp add: console_boot_def numeral_eq_Suc)

end
