(* ===== verification/Syscall_c.thy ===== *)
theory Syscall_c
  imports Proc_c Console_c
begin

text \<open>
  System call arguments (\<^verbatim>\<open>syscall.c\<close>), the console as a device (\<^verbatim>\<open>console.c\<close>), and the system calls on
  files (\<^verbatim>\<open>sysfile.c\<close>) and processes (\<^verbatim>\<open>sysproc.c\<close>).  A system call runs for the process \<^verbatim>\<open>p\<close>, which is
  \<^verbatim>\<open>myproc()\<close>; it reads and writes that process's memory through its page table.
\<close>

unbundle bit_operations_syntax

section \<open>Arguments\<close>

record sysst = procst +
  console_st :: console
  ticks :: uint
  sym_ticks :: addr
  sym_input_r :: addr

text \<open>
  A call of \<^verbatim>\<open>cprintf\<close> in the kernel: the strings among its arguments are laid out one after the other from address 1 of a
  memory of their own, which is where the words that stand for them point.
\<close>

definition bytes_of :: "string \<Rightarrow> uchar list" where
  "bytes_of = map of_char"

definition kprintf :: "string \<Rightarrow> uchar list list \<Rightarrow> uint list \<Rightarrow> 'a sysst_scheme \<Rightarrow> 'a sysst_scheme res" where
  "kprintf fmt strs args s =
     bindE (cprintf (wr (\<lambda>_. 0) 1 (concat (map (\<lambda>b. b @ [0]) strs))) (bytes_of fmt) args (console_st s)) (\<lambda>c. Inr (s\<lparr>console_st := c\<rparr>))"

definition user_mem :: "nat \<Rightarrow> 'a procst_scheme \<Rightarrow> mem" where
  "user_mem p s = umem (pgdir (procs s ! p)) (kmemory (km s))"

definition user_store :: "nat \<Rightarrow> addr \<Rightarrow> uchar list \<Rightarrow> 'a procst_scheme \<Rightarrow> 'a procst_scheme" where
  "user_store p a bs s = s\<lparr>km := (km s)\<lparr>kmemory := uwr (pgdir (procs s ! p)) (kmemory (km s)) a bs\<rparr>\<rparr>"

definition fetchint :: "nat \<Rightarrow> addr \<Rightarrow> 'a procst_scheme \<Rightarrow> uint option" where
  "fetchint p a s =
     (let sz = psz (procs s ! p)
      in if a \<ge> sz \<or> a + 4 > sz then None else Some (ld32 (user_mem p s) a))"

text \<open>\<^verbatim>\<open>fetchstr\<close>: the string before the terminator, which is looked for up to the end of the process.\<close>

definition fetchstr :: "nat \<Rightarrow> addr \<Rightarrow> 'a procst_scheme \<Rightarrow> uchar list option" where
  "fetchstr p a s =
     (let sz = psz (procs s ! p) in
      if a \<ge> sz then None
      else map_option (rd (user_mem p s) a) (find (\<lambda>k. user_mem p s (a + of_nat k) = 0) [0..<unat sz - unat a]))"

definition argint :: "nat \<Rightarrow> nat \<Rightarrow> 'a procst_scheme \<Rightarrow> uint option" where
  "argint p n s = fetchint p (tf_esp (tf (procs s ! p)) + 4 + 4 * of_nat n) s"

definition argptr :: "nat \<Rightarrow> nat \<Rightarrow> int \<Rightarrow> 'a procst_scheme \<Rightarrow> addr option" where
  "argptr p n sz s =
     (case argint p n s of
        None \<Rightarrow> None
      | Some i \<Rightarrow>
          if sz < 0 \<or> i \<ge> psz (procs s ! p) \<or> i + of_int sz > psz (procs s ! p) then None else Some i)"

definition argstr :: "nat \<Rightarrow> nat \<Rightarrow> 'a procst_scheme \<Rightarrow> uchar list option" where
  "argstr p n s = (case argint p n s of None \<Rightarrow> None | Some a \<Rightarrow> fetchstr p a s)"

section \<open>The console device\<close>

definition dev_consoleread :: "bool \<Rightarrow> 'a sysst_scheme dev_read" where
  "dev_consoleread k ip n s =
     bindE (iunlock ip s) (\<lambda>s.
       case consoleread k (nat (sint n)) (nat (sint n)) (console_st s) of
         (CRet r, bs, c) \<Rightarrow> bindE (ilock ip (s\<lparr>console_st := c\<rparr>)) (\<lambda>s. Inr (r, bs, s))
       | (CSleep _, _, _) \<Rightarrow> Inl Waits)"

definition dev_consolewrite :: "'a sysst_scheme dev_write" where
  "dev_consolewrite ip bs s =
     bindE (iunlock ip s) (\<lambda>s.
     bindE (consolewrite bs (console_st s)) (\<lambda>c.
     bindE (ilock ip (s\<lparr>console_st := c\<rparr>)) (\<lambda>s. Inr (int (length bs), s))))"

text \<open>The table after \<^verbatim>\<open>consoleinit\<close>; the flag is \<^verbatim>\<open>myproc()->killed\<close>.\<close>

definition devsw :: "bool \<Rightarrow> 'a sysst_scheme devsw" where
  "devsw k n = (if n = 1 then (Some (dev_consoleread k), Some dev_consolewrite) else (None, None))"

section \<open>File descriptors\<close>

definition argfd :: "nat \<Rightarrow> nat \<Rightarrow> 'a procst_scheme \<Rightarrow> (nat \<times> nat) option" where
  "argfd p n s =
     (case argint p n s of
        None \<Rightarrow> None
      | Some fd \<Rightarrow>
          if sint fd < 0 \<or> sint fd \<ge> int NOFILE then None
          else map_option (Pair (unat fd)) (ofile (procs s ! p) ! unat fd))"

definition fdalloc :: "nat \<Rightarrow> nat \<Rightarrow> 'a procst_scheme \<Rightarrow> nat option \<times> 'a procst_scheme" where
  "fdalloc p f s =
     (case find (\<lambda>fd. ofile (procs s ! p) ! fd = None) [0..<NOFILE] of
        None \<Rightarrow> (None, s)
      | Some fd \<Rightarrow> (Some fd, upd_proc p (ofile_update (\<lambda>fs. fs[fd := Some f])) s))"

definition sys_dup :: "nat \<Rightarrow> 'a procst_scheme \<Rightarrow> (int \<times> 'a procst_scheme) res" where
  "sys_dup p s =
     (case argfd p 0 s of
        None \<Rightarrow> Inr (- 1, s)
      | Some (_, f) \<Rightarrow>
          (case fdalloc p f s of
             (None, s) \<Rightarrow> Inr (- 1, s)
           | (Some fd, s) \<Rightarrow> bindE (filedup f s) (\<lambda>(_, s). Inr (int fd, s))))"

definition sys_read :: "nat \<Rightarrow> 'a sysst_scheme \<Rightarrow> (int \<times> 'a sysst_scheme) res" where
  "sys_read p s =
     (case (argfd p 0 s, argint p 2 s) of
        (Some (_, f), Some n) \<Rightarrow>
          (case argptr p 1 (sint n) s of
             None \<Rightarrow> Inr (- 1, s)
           | Some a \<Rightarrow>
               (let k = killed (procs s ! p)
                in bindE (fileread (devsw k) k f n s) (\<lambda>(r, bs, s). Inr (r, user_store p a bs s))))
      | _ \<Rightarrow> Inr (- 1, s))"

definition sys_write :: "nat \<Rightarrow> 'a sysst_scheme \<Rightarrow> (int \<times> 'a sysst_scheme) res" where
  "sys_write p s =
     (case (argfd p 0 s, argint p 2 s) of
        (Some (_, f), Some n) \<Rightarrow>
          (case argptr p 1 (sint n) s of
             None \<Rightarrow> Inr (- 1, s)
           | Some a \<Rightarrow>
               (let k = killed (procs s ! p)
                in filewrite (devsw k) k f (rd (user_mem p s) a (nat (sint n))) (sint n) s))
      | _ \<Rightarrow> Inr (- 1, s))"

definition sys_close :: "nat \<Rightarrow> 'a procst_scheme \<Rightarrow> (int \<times> 'a procst_scheme) res" where
  "sys_close p s =
     (case argfd p 0 s of
        None \<Rightarrow> Inr (- 1, s)
      | Some (fd, f) \<Rightarrow>
          bindE (fileclose f (upd_proc p (ofile_update (\<lambda>fs. fs[fd := None])) s)) (\<lambda>s. Inr (0, s)))"

text \<open>The bytes of a \<^verbatim>\<open>struct stat\<close>: the type, padding, device, inode, link count, padding, size.\<close>

definition bytes32 :: "uint \<Rightarrow> uchar list" where
  "bytes32 v = [ucast v, ucast (drop_bit 8 v), ucast (drop_bit 16 v), ucast (drop_bit 24 v)]"

definition bytes16 :: "ushort \<Rightarrow> uchar list" where
  "bytes16 v = [ucast v, ucast (drop_bit 8 v)]"

definition store_stat :: "nat \<Rightarrow> addr \<Rightarrow> stat \<Rightarrow> 'a procst_scheme \<Rightarrow> 'a procst_scheme" where
  "store_stat p a st s =
     user_store p (a + 16) (bytes32 (st_size st)) (user_store p (a + 12) (bytes16 (st_nlink st))
       (user_store p a (bytes16 (st_type st)) (user_store p (a + 8) (bytes32 (st_ino st))
         (user_store p (a + 4) (bytes32 (st_dev st)) s))))"

definition sys_fstat :: "nat \<Rightarrow> 'a procst_scheme \<Rightarrow> (int \<times> 'a procst_scheme) res" where
  "sys_fstat p s =
     (case (argfd p 0 s, argptr p 1 20 s) of
        (Some (_, f), Some a) \<Rightarrow>
          bindE (filestat f s) (\<lambda>(r, s). case r of None \<Rightarrow> Inr (- 1, s) | Some st \<Rightarrow> Inr (0, store_stat p a st s))
      | _ \<Rightarrow> Inr (- 1, s))"

end
