(* ===== verification/Sysfile_c.thy ===== *)
theory Sysfile_c
  imports Syscall_c
begin

text \<open>
  The system calls that change the name space (\<^verbatim>\<open>sysfile.c\<close>): \<^verbatim>\<open>link\<close>, \<^verbatim>\<open>unlink\<close>, \<^verbatim>\<open>open\<close> with \<^verbatim>\<open>create\<close>, \<^verbatim>\<open>mkdir\<close>,
  \<^verbatim>\<open>mknod\<close>, \<^verbatim>\<open>chdir\<close>, and \<^verbatim>\<open>pipe\<close>; and the system calls on processes (\<^verbatim>\<open>sysproc.c\<close>).  Each file system call
  is one transaction of the log.
\<close>

unbundle bit_operations_syntax

section \<open>Names\<close>

definition fail_op :: "'a logst_scheme \<Rightarrow> (int \<times> 'a logst_scheme) res" where
  "fail_op s = bindE (end_op s) (\<lambda>s. Inr (- 1, s))"

text \<open>The label \<^verbatim>\<open>bad\<close> of \<^verbatim>\<open>sys_link\<close>.\<close>

definition unlink_back :: "nat \<Rightarrow> 'a sysst_scheme \<Rightarrow> (int \<times> 'a sysst_scheme) res" where
  "unlink_back ip s =
     bindE (ilock ip s) (\<lambda>s.
     bindE (iupdate ip (upd_inode ip (nlink_update (\<lambda>n. n - 1)) s)) (\<lambda>s.
     bindE (iunlockput ip s) fail_op))"

definition sys_link :: "nat \<Rightarrow> 'a sysst_scheme \<Rightarrow> (int \<times> 'a sysst_scheme) res" where
  "sys_link p s =
     (let dsw = devsw (killed (procs s ! p)); wd = cwd (procs s ! p) in
      case (argstr p 0 s, argstr p 1 s) of
        (Some old, Some new) \<Rightarrow>
          bindE (begin_op s) (\<lambda>s.
          bindE (namei dsw wd old s) (\<lambda>(r, s). case r of
            None \<Rightarrow> fail_op s
          | Some ip \<Rightarrow>
              bindE (ilock ip s) (\<lambda>s.
                if itype (inodes s ! ip) = T_DIR then bindE (iunlockput ip s) fail_op
                else
                  bindE (iupdate ip (upd_inode ip (nlink_update (\<lambda>n. n + 1)) s)) (\<lambda>s.
                  bindE (iunlock ip s) (\<lambda>s.
                  bindE (nameiparent dsw wd new s) (\<lambda>(r, s). case r of
                    None \<Rightarrow> unlink_back ip s
                  | Some (dp, name) \<Rightarrow>
                      bindE (ilock dp s) (\<lambda>s.
                      bindE (if idev (inodes s ! dp) \<noteq> idev (inodes s ! ip) then Inr (- 1, s)
                             else dirlink dsw dp name (inum (inodes s ! ip)) s) (\<lambda>(r, s).
                      bindE (iunlockput dp s) (\<lambda>s.
                        if r < 0 then unlink_back ip s
                        else bindE (iput ip s) (\<lambda>s. bindE (end_op s) (\<lambda>s. Inr (0, s))))))))))))
      | _ \<Rightarrow> Inr (- 1, s))"

text \<open>The loop of \<^verbatim>\<open>isdirempty\<close>, \<^verbatim>\<open>sz\<close> being \<^verbatim>\<open>dp->size\<close>.\<close>

function isdirempty_loop :: "'a fsst_scheme devsw \<Rightarrow> nat \<Rightarrow> nat \<Rightarrow> nat \<Rightarrow> 'a fsst_scheme \<Rightarrow> (bool \<times> 'a fsst_scheme) res" where
  "isdirempty_loop dsw dp sz off s =
     (if off < sz then
        bindE (readi dsw dp (of_nat off) 16 s) (\<lambda>(r, bs, s).
          if r \<noteq> 16 then Inl (Panic ''isdirempty: readi'')
          else if de_inum (get_dirent bs) \<noteq> 0 then Inr (False, s)
          else isdirempty_loop dsw dp sz (off + 16) s)
      else Inr (True, s))"
  by pat_completeness auto
termination
  by (relation "measure (\<lambda>(dsw, dp, sz, off, s). sz - off)") auto

declare isdirempty_loop.simps [simp del]

definition isdirempty :: "'a fsst_scheme devsw \<Rightarrow> nat \<Rightarrow> 'a fsst_scheme \<Rightarrow> (bool \<times> 'a fsst_scheme) res" where
  "isdirempty dsw dp s = isdirempty_loop dsw dp (unat (isize (inodes s ! dp))) 32 s"

definition sys_unlink :: "nat \<Rightarrow> 'a sysst_scheme \<Rightarrow> (int \<times> 'a sysst_scheme) res" where
  "sys_unlink p s =
     (let dsw = devsw (killed (procs s ! p)); wd = cwd (procs s ! p) in
      case argstr p 0 s of
        None \<Rightarrow> Inr (- 1, s)
      | Some path \<Rightarrow>
          bindE (begin_op s) (\<lambda>s.
          bindE (nameiparent dsw wd path s) (\<lambda>(r, s). case r of
            None \<Rightarrow> fail_op s
          | Some (dp, name) \<Rightarrow>
              bindE (ilock dp s) (\<lambda>s.
                if namecmp name [46] = 0 \<or> namecmp name [46, 46] = 0 then bindE (iunlockput dp s) fail_op
                else
                  bindE (dirlookup dsw dp name s) (\<lambda>(r, s). case r of
                    None \<Rightarrow> bindE (iunlockput dp s) fail_op
                  | Some (ip, off) \<Rightarrow>
                      bindE (ilock ip s) (\<lambda>s.
                        if sint (nlink (inodes s ! ip)) < 1 then Inl (Panic ''unlink: nlink < 1'')
                        else
                          bindE (if itype (inodes s ! ip) = T_DIR then isdirempty dsw ip s else Inr (True, s)) (\<lambda>(e, s).
                            if \<not> e then bindE (iunlockput ip s) (\<lambda>s. bindE (iunlockput dp s) fail_op)
                            else
                              bindE (writei dsw dp (replicate 16 0) (of_nat off) 16 s) (\<lambda>(r, s).
                                if r \<noteq> 16 then Inl (Panic ''unlink: writei'')
                                else
                                  bindE (if itype (inodes s ! ip) = T_DIR
                                         then iupdate dp (upd_inode dp (nlink_update (\<lambda>n. n - 1)) s) else Inr s) (\<lambda>s.
                                  bindE (iunlockput dp s) (\<lambda>s.
                                  bindE (iupdate ip (upd_inode ip (nlink_update (\<lambda>n. n - 1)) s)) (\<lambda>s.
                                  bindE (iunlockput ip s) (\<lambda>s.
                                  bindE (end_op s) (\<lambda>s. Inr (0, s))))))))))))))"

text \<open>\<^verbatim>\<open>create\<close>: the new inode, locked, or nothing.\<close>

definition create :: "'a fsst_scheme devsw \<Rightarrow> nat \<Rightarrow> uchar list \<Rightarrow> ushort \<Rightarrow> ushort \<Rightarrow> ushort \<Rightarrow> 'a fsst_scheme \<Rightarrow> (nat option \<times> 'a fsst_scheme) res" where
  "create dsw wd path type maj mnr s =
     bindE (nameiparent dsw wd path s) (\<lambda>(r, s). case r of
       None \<Rightarrow> Inr (None, s)
     | Some (dp, name) \<Rightarrow>
         bindE (ilock dp s) (\<lambda>s.
         bindE (dirlookup dsw dp name s) (\<lambda>(r, s). case r of
           Some (ip, _) \<Rightarrow>
             bindE (iunlockput dp s) (\<lambda>s.
             bindE (ilock ip s) (\<lambda>s.
               if type = T_FILE \<and> itype (inodes s ! ip) = T_FILE then Inr (Some ip, s)
               else bindE (iunlockput ip s) (\<lambda>s. Inr (None, s))))
         | None \<Rightarrow>
             bindE (ialloc (idev (inodes s ! dp)) type s) (\<lambda>(ip, s).
             bindE (ilock ip s) (\<lambda>s.
             bindE (iupdate ip (upd_inode ip (\<lambda>i. i\<lparr>major := maj, minor := mnr, nlink := 1\<rparr>) s)) (\<lambda>s.
             bindE (if type = T_DIR then
                      bindE (iupdate dp (upd_inode dp (nlink_update (\<lambda>n. n + 1)) s)) (\<lambda>s.
                      bindE (dirlink dsw ip [46] (inum (inodes s ! ip)) s) (\<lambda>(r1, s).
                        if r1 < 0 then Inl (Panic ''create dots'')
                        else bindE (dirlink dsw ip [46, 46] (inum (inodes s ! dp)) s) (\<lambda>(r2, s).
                          if r2 < 0 then Inl (Panic ''create dots'') else Inr s)))
                    else Inr s) (\<lambda>s.
             bindE (dirlink dsw dp name (inum (inodes s ! ip)) s) (\<lambda>(r, s).
               if r < 0 then Inl (Panic ''create: dirlink'')
               else bindE (iunlockput dp s) (\<lambda>s. Inr (Some ip, s))))))))))"

definition O_WRONLY :: uint where "O_WRONLY = 1"
definition O_RDWR :: uint where "O_RDWR = 2"
definition O_CREATE :: uint where "O_CREATE = 0x200"

text \<open>The part of \<^verbatim>\<open>sys_open\<close> that finds the inode, locked, or fails.\<close>

definition open_inode :: "'a fsst_scheme devsw \<Rightarrow> nat \<Rightarrow> uchar list \<Rightarrow> uint \<Rightarrow> 'a fsst_scheme \<Rightarrow> (nat option \<times> 'a fsst_scheme) res" where
  "open_inode dsw wd path omode s =
     (if omode AND O_CREATE \<noteq> 0 then create dsw wd path T_FILE 0 0 s
      else
        bindE (namei dsw wd path s) (\<lambda>(r, s). case r of
          None \<Rightarrow> Inr (None, s)
        | Some ip \<Rightarrow>
            bindE (ilock ip s) (\<lambda>s.
              if itype (inodes s ! ip) = T_DIR \<and> omode \<noteq> 0 then bindE (iunlockput ip s) (\<lambda>s. Inr (None, s))
              else Inr (Some ip, s))))"

definition sys_open :: "nat \<Rightarrow> 'a sysst_scheme \<Rightarrow> (int \<times> 'a sysst_scheme) res" where
  "sys_open p s =
     (let dsw = devsw (killed (procs s ! p)); wd = cwd (procs s ! p) in
      case (argstr p 0 s, argint p 1 s) of
        (Some path, Some omode) \<Rightarrow>
          bindE (begin_op s) (\<lambda>s.
          bindE (open_inode dsw wd path omode s) (\<lambda>(r, s). case r of
            None \<Rightarrow> fail_op s
          | Some ip \<Rightarrow>
              (case filealloc s of
                 (None, s) \<Rightarrow> bindE (iunlockput ip s) fail_op
               | (Some f, s) \<Rightarrow>
                   (case fdalloc p f s of
                      (None, s) \<Rightarrow> bindE (fileclose f s) (\<lambda>s. bindE (iunlockput ip s) fail_op)
                    | (Some fd, s) \<Rightarrow>
                        bindE (iunlock ip s) (\<lambda>s.
                        bindE (end_op s) (\<lambda>s.
                          Inr (int fd, upd_file f (\<lambda>x. x\<lparr>ftype := FD_INODE, fip := ip, foff := 0,
                            readable := (omode AND O_WRONLY = 0),
                            writable := (omode AND O_WRONLY \<noteq> 0 \<or> omode AND O_RDWR \<noteq> 0)\<rparr>) s)))))))
      | _ \<Rightarrow> Inr (- 1, s))"

text \<open>The common end of \<^verbatim>\<open>sys_mkdir\<close> and \<^verbatim>\<open>sys_mknod\<close>.\<close>

definition finish_create :: "nat option \<times> 'a fsst_scheme \<Rightarrow> (int \<times> 'a fsst_scheme) res" where
  "finish_create x =
     (case x of
        (None, s) \<Rightarrow> fail_op s
      | (Some ip, s) \<Rightarrow> bindE (iunlockput ip s) (\<lambda>s. bindE (end_op s) (\<lambda>s. Inr (0, s))))"

definition sys_mkdir :: "nat \<Rightarrow> 'a sysst_scheme \<Rightarrow> (int \<times> 'a sysst_scheme) res" where
  "sys_mkdir p s =
     (let dsw = devsw (killed (procs s ! p)); wd = cwd (procs s ! p) in
      bindE (begin_op s) (\<lambda>s. case argstr p 0 s of
        None \<Rightarrow> fail_op s
      | Some path \<Rightarrow> bindE (create dsw wd path T_DIR 0 0 s) finish_create))"

definition sys_mknod :: "nat \<Rightarrow> 'a sysst_scheme \<Rightarrow> (int \<times> 'a sysst_scheme) res" where
  "sys_mknod p s =
     (let dsw = devsw (killed (procs s ! p)); wd = cwd (procs s ! p) in
      bindE (begin_op s) (\<lambda>s. case (argstr p 0 s, argint p 1 s, argint p 2 s) of
        (Some path, Some maj, Some mnr) \<Rightarrow> bindE (create dsw wd path T_DEV (ucast maj) (ucast mnr) s) finish_create
      | _ \<Rightarrow> fail_op s))"

definition sys_chdir :: "nat \<Rightarrow> 'a sysst_scheme \<Rightarrow> (int \<times> 'a sysst_scheme) res" where
  "sys_chdir p s =
     (let dsw = devsw (killed (procs s ! p)); wd = cwd (procs s ! p) in
      bindE (begin_op s) (\<lambda>s. case argstr p 0 s of
        None \<Rightarrow> fail_op s
      | Some path \<Rightarrow>
          bindE (namei dsw wd path s) (\<lambda>(r, s). case r of
            None \<Rightarrow> fail_op s
          | Some ip \<Rightarrow>
              bindE (ilock ip s) (\<lambda>s.
                if itype (inodes s ! ip) \<noteq> T_DIR then bindE (iunlockput ip s) fail_op
                else
                  bindE (iunlock ip s) (\<lambda>s.
                  bindE (iput wd s) (\<lambda>s.
                  bindE (end_op s) (\<lambda>s. Inr (0, upd_proc p (cwd_update (\<lambda>_. ip)) s))))))))"

definition sys_pipe :: "nat \<Rightarrow> 'a procst_scheme \<Rightarrow> (int \<times> 'a procst_scheme) res" where
  "sys_pipe p s =
     (case argptr p 0 8 s of
        None \<Rightarrow> Inr (- 1, s)
      | Some a \<Rightarrow>
          bindE (pipealloc s) (\<lambda>(r, s). case r of
            None \<Rightarrow> Inr (- 1, s)
          | Some (rfl, wfl) \<Rightarrow>
              (case fdalloc p rfl s of
                 (None, s) \<Rightarrow> bindE (fileclose rfl s) (\<lambda>s. bindE (fileclose wfl s) (\<lambda>s. Inr (- 1, s)))
               | (Some fd0, s) \<Rightarrow>
                   (case fdalloc p wfl s of
                      (None, s) \<Rightarrow>
                        let s = upd_proc p (ofile_update (\<lambda>fs. fs[fd0 := None])) s
                        in bindE (fileclose rfl s) (\<lambda>s. bindE (fileclose wfl s) (\<lambda>s. Inr (- 1, s)))
                    | (Some fd1, s) \<Rightarrow>
                        Inr (0, user_store p (a + 4) (bytes32 (of_nat fd1)) (user_store p a (bytes32 (of_nat fd0)) s))))))"

section \<open>Processes\<close>

definition sys_fork :: "nat \<Rightarrow> 'a procst_scheme \<Rightarrow> (int \<times> 'a procst_scheme) res" where
  "sys_fork p s = fork p s"

definition sys_exit :: "nat \<Rightarrow> 'a procst_scheme \<Rightarrow> 'a procst_scheme res" where
  "sys_exit p s = exit p s"

definition sys_wait :: "nat \<Rightarrow> 'a procst_scheme \<Rightarrow> (wait_turn \<times> 'a procst_scheme) res" where
  "sys_wait p s = wait p s"

definition sys_kill :: "nat \<Rightarrow> 'a procst_scheme \<Rightarrow> int \<times> 'a procst_scheme" where
  "sys_kill p s = (case argint p 0 s of None \<Rightarrow> (- 1, s) | Some n \<Rightarrow> kill (sint n) s)"

definition sys_getpid :: "nat \<Rightarrow> 'a procst_scheme \<Rightarrow> int" where
  "sys_getpid p s = pid (procs s ! p)"

definition sys_sbrk :: "nat \<Rightarrow> 'a procst_scheme \<Rightarrow> (int \<times> 'a procst_scheme) res" where
  "sys_sbrk p s =
     (case argint p 0 s of
        None \<Rightarrow> Inr (- 1, s)
      | Some n \<Rightarrow>
          let a = psz (procs s ! p)
          in bindE (growproc p (sint n) s) (\<lambda>(r, s). Inr (if r < 0 then - 1 else sint a, s)))"

text \<open>
  A turn of \<^verbatim>\<open>sys_sleep\<close>, which began at \<^verbatim>\<open>ticks0\<close>; the comparison is unsigned.  \<^verbatim>\<open>None\<close> is another sleep.
\<close>

definition sys_sleep :: "uint \<Rightarrow> nat \<Rightarrow> 'a sysst_scheme \<Rightarrow> int option" where
  "sys_sleep ticks0 p s =
     (case argint p 0 s of
        None \<Rightarrow> Some (- 1)
      | Some n \<Rightarrow> if ticks s - ticks0 < n then (if killed (procs s ! p) then Some (- 1) else None) else Some 0)"

definition sys_uptime :: "'a sysst_scheme \<Rightarrow> int" where
  "sys_uptime s = sint (ticks s)"

end
