(* ===== verification/Exec_c.thy ===== *)
theory Exec_c
  imports Sysfile_c
begin

text \<open>
  Loading programs (\<^verbatim>\<open>exec.c\<close>, \<^verbatim>\<open>loaduvm\<close> of \<^verbatim>\<open>vm.c\<close>) and the dispatch of system calls (\<^verbatim>\<open>syscall.c\<close>).
\<close>

unbundle bit_operations_syntax

section \<open>Loading a program\<close>

text \<open>The loop of \<^verbatim>\<open>loaduvm\<close> from byte \<^verbatim>\<open>i\<close> of the segment on; the result is 0 or -1.\<close>

function loaduvm_loop :: "'a filest_scheme devsw \<Rightarrow> addr \<Rightarrow> addr \<Rightarrow> nat \<Rightarrow> uint \<Rightarrow> nat \<Rightarrow> nat \<Rightarrow> 'a filest_scheme \<Rightarrow>
    (int \<times> 'a filest_scheme) res" where
  "loaduvm_loop dsw pd a ip offset sz i s =
     (if i < sz then
        bindE (walkpgdir pd (a + of_nat i) False (km s)) (\<lambda>(pte, _).
          if pte = 0 then Inl (Panic ''loaduvm: address should exist'')
          else
            let pa = PTE_ADDR (ld32 (kmemory (km s)) pte); n = min (sz - i) 4096 in
            bindE (readi dsw ip (offset + of_nat i) (of_nat n) s) (\<lambda>(r, bs, s).
              let s = s\<lparr>km := (km s)\<lparr>kmemory := wr (kmemory (km s)) (P2V pa) bs\<rparr>\<rparr> in
              if r \<noteq> int n then Inr (- 1, s) else loaduvm_loop dsw pd a ip offset sz (i + 4096) s))
      else Inr (0, s))"
  by pat_completeness auto
termination
  by (relation "measure (\<lambda>(dsw, pd, a, ip, offset, sz, i, s). sz - i)") auto

declare loaduvm_loop.simps [simp del]

definition loaduvm :: "'a filest_scheme devsw \<Rightarrow> addr \<Rightarrow> addr \<Rightarrow> nat \<Rightarrow> uint \<Rightarrow> uint \<Rightarrow> 'a filest_scheme \<Rightarrow> (int \<times> 'a filest_scheme) res" where
  "loaduvm dsw pd a ip offset sz s =
     (if a mod PGSIZE \<noteq> 0 then Inl (Panic ''loaduvm: addr must be page aligned'')
      else loaduvm_loop dsw pd a ip offset (unat sz) 0 s)"

definition ELF_MAGIC :: uint where "ELF_MAGIC = 0x464C457F"
definition MAXARG :: nat where "MAXARG = 32"

text \<open>The loop of \<^verbatim>\<open>exec\<close> over the \<^verbatim>\<open>n\<close> program headers that are left; \<^verbatim>\<open>None\<close> is the jump to \<^verbatim>\<open>bad\<close>.\<close>

fun exec_load :: "'a filest_scheme devsw \<Rightarrow> nat \<Rightarrow> addr \<Rightarrow> nat \<Rightarrow> uint \<Rightarrow> uint \<Rightarrow> 'a filest_scheme \<Rightarrow> (uint option \<times> 'a filest_scheme) res" where
  "exec_load dsw ip pd 0 off sz s = Inr (Some sz, s)"
| "exec_load dsw ip pd (Suc n) off sz s =
     bindE (readi dsw ip off 32 s) (\<lambda>(r, ph, s).
       if r \<noteq> 32 then Inr (None, s)
       else
         let phtype = get32 0 ph; phoff = get32 4 ph; vaddr = get32 8 ph; filesz = get32 16 ph; memsz = get32 20 ph in
         if phtype \<noteq> 1 then exec_load dsw ip pd n (off + 32) sz s
         else if memsz < filesz then Inr (None, s)
         else if vaddr + memsz < vaddr then Inr (None, s)
         else
           bindE (allocuvm pd sz (vaddr + memsz) (km s)) (\<lambda>(sz, m).
             let s = s\<lparr>km := m\<rparr> in
             if sz = 0 then Inr (None, s)
             else if vaddr mod PGSIZE \<noteq> 0 then Inr (None, s)
             else
               bindE (loaduvm dsw pd vaddr ip phoff filesz s) (\<lambda>(r, s).
                 if r < 0 then Inr (None, s) else exec_load dsw ip pd n (off + 32) sz s)))"

text \<open>Pushing the argument strings; the result is the stack pointer and the addresses of the strings.\<close>

fun exec_args :: "addr \<Rightarrow> uchar list list \<Rightarrow> nat \<Rightarrow> uint \<Rightarrow> uint list \<Rightarrow> 'a kmem_scheme \<Rightarrow> ((uint \<times> uint list) option \<times> 'a kmem_scheme) res" where
  "exec_args pd [] argc sp ustack m = Inr (Some (sp, ustack), m)"
| "exec_args pd (arg # argv) argc sp ustack m =
     (if argc \<ge> MAXARG then Inr (None, m)
      else
        let sp = (sp - (of_nat (length arg) + 1)) AND NOT 3 in
        bindE (copyout pd sp (arg @ [0]) m) (\<lambda>(r, m).
          if r < 0 then Inr (None, m) else exec_args pd argv (Suc argc) sp (ustack @ [sp]) m))"

text \<open>The label \<^verbatim>\<open>bad\<close>; \<^verbatim>\<open>ip\<close> is \<^verbatim>\<open>None\<close> once the inode has been released.\<close>

definition exec_bad :: "addr \<Rightarrow> nat option \<Rightarrow> 'a filest_scheme \<Rightarrow> (int \<times> 'a filest_scheme) res" where
  "exec_bad d ip s =
     bindE (if d \<noteq> 0 then bindE (freevm d (km s)) (\<lambda>m. Inr (s\<lparr>km := m\<rparr>)) else Inr s) (\<lambda>s.
       case ip of
         None \<Rightarrow> Inr (- 1, s)
       | Some ip \<Rightarrow> bindE (iunlockput ip s) (\<lambda>s. bindE (end_op s) (\<lambda>s. Inr (- 1, s))))"

text \<open>The part of \<^verbatim>\<open>exec\<close> after the program has been loaded: the stack, the arguments and the new image.\<close>

definition exec_stack :: "nat \<Rightarrow> addr \<Rightarrow> uint \<Rightarrow> uint \<Rightarrow> uchar list \<Rightarrow> uchar list list \<Rightarrow> 'a procst_scheme \<Rightarrow> (int \<times> 'a procst_scheme) res" where
  "exec_stack p d sz entry path argv s =
     (let sz = PGROUNDUP sz in
      bindE (allocuvm d sz (sz + 2 * PGSIZE) (km s)) (\<lambda>(sz, m).
        if sz = 0 then exec_bad d None (s\<lparr>km := m\<rparr>)
        else
          bindE (clearpteu d (sz - 2 * PGSIZE) m) (\<lambda>m.
          bindE (exec_args d argv 0 sz [] m) (\<lambda>(r, m). case r of
            None \<Rightarrow> exec_bad d None (s\<lparr>km := m\<rparr>)
          | Some (sp, args) \<Rightarrow>
              let argc = of_nat (length args);
                  ustack = [0xffffffff, argc, sp - (argc + 1) * 4] @ args @ [0];
                  sp = sp - (3 + argc + 1) * 4
              in bindE (copyout d sp (concat (map bytes32 ustack)) m) (\<lambda>(r, m).
                   let s = s\<lparr>km := m\<rparr> in
                   if r < 0 then exec_bad d None s
                   else
                     let name = take 15 (rev (takeWhile (\<lambda>c. c \<noteq> 47) (rev path)));
                         old = pgdir (procs s ! p);
                         s = upd_proc p (\<lambda>x. x\<lparr>pname := name, pgdir := d, psz := sz,
                               tf := (tf x)\<lparr>tf_eip := entry, tf_esp := sp\<rparr>\<rparr>) s
                     in bindE (switchuvm (kstack (procs s ! p)) d (km s)) (\<lambda>m.
                        bindE (freevm old m) (\<lambda>m. Inr (0, s\<lparr>km := m\<rparr>))))))))"

definition exec :: "'a sysst_scheme devsw \<Rightarrow> nat \<Rightarrow> uchar list \<Rightarrow> uchar list list \<Rightarrow> 'a sysst_scheme \<Rightarrow> (int \<times> 'a sysst_scheme) res" where
  "exec dsw p path argv s =
     bindE (begin_op s) (\<lambda>s.
     bindE (namei dsw (cwd (procs s ! p)) path s) (\<lambda>(r, s). case r of
       None \<Rightarrow> bindE (end_op s) (\<lambda>s. bindE (kprintf (''exec: fail'' @ [CHR 0x0A]) [] [] s) (\<lambda>s. Inr (- 1, s)))
     | Some ip \<Rightarrow>
         bindE (ilock ip s) (\<lambda>s.
         bindE (readi dsw ip 0 52 s) (\<lambda>(r, elf, s).
           if r \<noteq> 52 then exec_bad 0 (Some ip) s
           else if get32 0 elf \<noteq> ELF_MAGIC then exec_bad 0 (Some ip) s
           else
             bindE (setupkvm (km s)) (\<lambda>(d, m).
               let s = s\<lparr>km := m\<rparr> in
               if d = 0 then exec_bad 0 (Some ip) s
               else
                 bindE (exec_load dsw ip d (unat (get16 44 elf)) (get32 28 elf) 0 s) (\<lambda>(r, s). case r of
                   None \<Rightarrow> exec_bad d (Some ip) s
                 | Some sz \<Rightarrow>
                     bindE (iunlockput ip s) (\<lambda>s.
                     bindE (end_op s) (exec_stack p d sz (get32 24 elf) path argv))))))))"

text \<open>The strings of \<^verbatim>\<open>argv\<close> in \<^verbatim>\<open>sys_exec\<close>, from entry \<^verbatim>\<open>i\<close> on, \<^verbatim>\<open>n\<close> of which are left.\<close>

fun fetch_argv :: "nat \<Rightarrow> addr \<Rightarrow> nat \<Rightarrow> nat \<Rightarrow> 'a procst_scheme \<Rightarrow> uchar list list option" where
  "fetch_argv p uargv i 0 s = None"
| "fetch_argv p uargv i (Suc n) s =
     (case fetchint p (uargv + 4 * of_nat i) s of
        None \<Rightarrow> None
      | Some uarg \<Rightarrow>
          if uarg = 0 then Some []
          else case fetchstr p uarg s of
            None \<Rightarrow> None
          | Some str \<Rightarrow> map_option (Cons str) (fetch_argv p uargv (Suc i) n s))"

definition sys_exec :: "nat \<Rightarrow> 'a sysst_scheme \<Rightarrow> (int \<times> 'a sysst_scheme) res" where
  "sys_exec p s =
     (case (argstr p 0 s, argint p 1 s) of
        (Some path, Some uargv) \<Rightarrow>
          (case fetch_argv p uargv 0 MAXARG s of
             None \<Rightarrow> Inr (- 1, s)
           | Some argv \<Rightarrow> exec (devsw (killed (procs s ! p))) p path argv s)
      | _ \<Rightarrow> Inr (- 1, s))"

section \<open>Dispatch\<close>

text \<open>How a system call ends: with a value for the caller, asleep, or with the process gone.\<close>

datatype outcome = Value int | Asleep | Gone

definition done_with :: "(int \<times> 's) res \<Rightarrow> (outcome \<times> 's) res" where
  "done_with r = bindE r (\<lambda>(v, s). Inr (Value v, s))"

text \<open>The table \<^verbatim>\<open>syscalls\<close>; a number without an entry is \<^verbatim>\<open>None\<close>.\<close>

definition syscalls :: "nat \<Rightarrow> nat \<Rightarrow> ('a sysst_scheme \<Rightarrow> (outcome \<times> 'a sysst_scheme) res) option" where
  "syscalls p n =
     (if n = 1 then Some (\<lambda>s. done_with (sys_fork p s))
      else if n = 2 then Some (\<lambda>s. bindE (sys_exit p s) (\<lambda>s. Inr (Gone, s)))
      else if n = 3 then Some (\<lambda>s. bindE (sys_wait p s) (\<lambda>(w, s). Inr (case w of WRet r \<Rightarrow> Value r | WSleep \<Rightarrow> Asleep, s)))
      else if n = 4 then Some (\<lambda>s. done_with (sys_pipe p s))
      else if n = 5 then Some (\<lambda>s. done_with (sys_read p s))
      else if n = 6 then Some (\<lambda>s. done_with (Inr (sys_kill p s)))
      else if n = 7 then Some (\<lambda>s. done_with (sys_exec p s))
      else if n = 8 then Some (\<lambda>s. done_with (sys_fstat p s))
      else if n = 9 then Some (\<lambda>s. done_with (sys_chdir p s))
      else if n = 10 then Some (\<lambda>s. done_with (sys_dup p s))
      else if n = 11 then Some (\<lambda>s. done_with (Inr (sys_getpid p s, s)))
      else if n = 12 then Some (\<lambda>s. done_with (sys_sbrk p s))
      else if n = 13 then Some (\<lambda>s. case sys_sleep (ticks s) p s of Some r \<Rightarrow> Inr (Value r, s) | None \<Rightarrow> Inr (Asleep, sleep_on p (ChAddr (sym_ticks s)) s))
      else if n = 14 then Some (\<lambda>s. done_with (Inr (sys_uptime s, s)))
      else if n = 15 then Some (\<lambda>s. done_with (sys_open p s))
      else if n = 16 then Some (\<lambda>s. done_with (sys_write p s))
      else if n = 17 then Some (\<lambda>s. done_with (sys_mknod p s))
      else if n = 18 then Some (\<lambda>s. done_with (sys_unlink p s))
      else if n = 19 then Some (\<lambda>s. done_with (sys_link p s))
      else if n = 20 then Some (\<lambda>s. done_with (sys_mkdir p s))
      else if n = 21 then Some (\<lambda>s. done_with (sys_close p s))
      else None)"

definition set_eax :: "nat \<Rightarrow> uint \<Rightarrow> 'a procst_scheme \<Rightarrow> 'a procst_scheme" where
  "set_eax p v s = upd_proc p (tf_update (tf_eax_update (\<lambda>_. v))) s"

definition syscall :: "nat \<Rightarrow> 'a sysst_scheme \<Rightarrow> (outcome \<times> 'a sysst_scheme) res" where
  "syscall p s =
     (let num = sint (tf_eax (tf (procs s ! p))) in
      case (if num > 0 then syscalls p (nat num) else None) of
        Some f \<Rightarrow>
          bindE (f s) (\<lambda>(r, s). case r of
            Value v \<Rightarrow> Inr (r, set_eax p (of_int v) s)
          | _ \<Rightarrow> Inr (r, s))
      | None \<Rightarrow>
          bindE (kprintf (''%d %s: unknown sys call %d'' @ [CHR 0x0A]) [pname (procs s ! p)] [of_int (pid (procs s ! p)), 1, of_int num] s) (\<lambda>s.
            Inr (Value (- 1), set_eax p (- 1) s)))"

end
