(* ===== verification/Fs_blocks.thy ===== *)
theory Fs_blocks
  imports Fs_c
begin
text \<open>
  The block layer of the file system: what an update inside a transaction does to the blocks that processes
  see, the free map, and \<^verbatim>\<open>balloc\<close> and \<^verbatim>\<open>bfree\<close>.
\<close>

unbundle bit_operations_syntax

section \<open>The block protocol\<close>

text \<open>
  What a file system operation may assume of the log: it is inside a transaction, and the log has room
  for so many more blocks.
\<close>

definition room :: "'a logst_scheme \<Rightarrow> int" where
  "room s = min LOGSIZE (log_size s - 1) - lh_n s"

definition fs_ok :: "'a logst_scheme \<Rightarrow> bool" where
  "fs_ok s \<longleftrightarrow> log_ok s \<and> log_size s \<le> int NBUF \<and> log_outstanding s \<ge> 1"

text \<open>What no operation inside a transaction changes: the disk, the locks and everything outside the cache and the log's block list.\<close>

definition log_frame :: "'a logst_scheme \<Rightarrow> 'a logst_scheme \<Rightarrow> bool" where
  "log_frame s v \<longleftrightarrow> rest v = rest (s\<lparr>lh_n := lh_n v, lh_block := lh_block v\<rparr>) \<and> disk v = disk s \<and> held v = held s \<and>
     locked_blocks v = locked_blocks s"

lemma rest_logst_eq:
  fixes s t :: "'a logst_scheme"
  assumes "rest t = rest s"
  shows "logst.more t = logst.more s"
  using arg_cong [OF assms, of logst.more] by (simp add: rest_def)

lemma log_frame_fields:
  assumes "log_frame s v"
  shows "log_start v = log_start s" "log_size v = log_size s" "log_dev v = log_dev s" "disksize v = disksize s"
    "log_outstanding v = log_outstanding s" "log_committing v = log_committing s" "curpid v = curpid s"
    "in_log v = in_log s" "locked_blocks v = locked_blocks s" "held v = held s" "disk v = disk s"
    "logst.more v = logst.more s"
proof -
  have r: "rest v = rest (s\<lparr>lh_n := lh_n v, lh_block := lh_block v\<rparr>)"
    using assms by (simp add: log_frame_def)
  note F = rest_fields [OF r]
  show "log_start v = log_start s" "log_size v = log_size s" "log_dev v = log_dev s" "disksize v = disksize s"
    "log_outstanding v = log_outstanding s" "log_committing v = log_committing s" "curpid v = curpid s"
    "in_log v = in_log s" "locked_blocks v = locked_blocks s" "held v = held s" "disk v = disk s"
    "logst.more v = logst.more s"
    using F assms rest_logst_eq [OF r] by (simp_all add: log_frame_def in_log_def fun_eq_iff)
qed

lemma log_frame_refl [simp]: "log_frame s s"
  by (simp add: log_frame_def)

lemma log_frame_trans [trans]: "log_frame s t \<Longrightarrow> log_frame t u \<Longrightarrow> log_frame s u"
  by (simp add: log_frame_def rest_lh)

lemma log_frame_sb:
  fixes s v :: "'a fsst_scheme"
  assumes "log_frame s v"
  shows "sb v = sb s" "inodes v = inodes s" "fsst.more v = fsst.more s"
  using log_frame_fields(12) [OF assms] by (cases s, cases v, simp)+

text \<open>A log block list that can be committed has as many entries as blocks.\<close>

lemma lh_n_card: "log_ok s \<Longrightarrow> lh_n s = int (card (set (logged s)))"
  using length_logged [of s] distinct_card [of "logged s"] by (simp add: log_ok_def)

lemma fs_ok_cache: "fs_ok s \<Longrightarrow> cache_inv s"
  by (simp add: fs_ok_def log_ok_def)

lemma room_avail:
  assumes "fs_ok s" "room s \<ge> 1 + int (card (locked_blocks s))"
  shows "card (locked_blocks s \<union> dirty_blocks s) < NBUF" "can_log s"
proof -
  have "log_ok s" "dirty_blocks s = set (logged s)"
    using assms(1) by (auto simp: fs_ok_def log_ok_def)
  then have d: "int (card (dirty_blocks s)) = lh_n s"
    using lh_n_card [of s] by metis
  have "lh_n s + 1 + int (card (locked_blocks s)) \<le> LOGSIZE"
    using assms(2) by (simp add: room_def)
  then have "int (card (locked_blocks s)) + int (card (dirty_blocks s)) < int NBUF"
    unfolding d by (simp add: LOGSIZE_def MAXOPBLOCKS_def NBUF_def)
  then show "card (locked_blocks s \<union> dirty_blocks s) < NBUF"
    using card_Un_le [of "locked_blocks s" "dirty_blocks s"] by linarith
  show "can_log s"
    using assms by (auto simp: can_log_def fs_ok_def room_def)
qed

lemma bread_data:
  assumes "cache_inv s" "bread 1 b s = Inr (i, t)"
  shows "bdata i t = view s b" "rest t = rest s"
proof -
  note R = bc.bread_ref [OF assms]
  then have "hld (abs_store t) i = Some b"
    by (simp add: a_bread_def)
  then show "bdata i t = view s b" "rest t = rest s"
    using R bc.fetch [of t i b] by (simp_all add: a_bread_def)
qed

text \<open>The update protocol at the level of what processes see.\<close>

lemma logged_step:
  fixes s :: "'a logst_scheme"
  assumes s: "fs_ok s" "room s \<ge> 1 + int (card (locked_blocks s))" and b: "b < disksize s" "\<not> in_log s b" "b \<notin> locked_blocks s"
    and f: "\<And>d. length d = BSIZE \<Longrightarrow> length (f d) = BSIZE"
  obtains i t u v where "bread 1 b s = Inr (i, t)" "bdata i t = view s b" "rest t = rest s"
    "log_write i (set_bdata i (f (bdata i t)) t) = Inr u" "brelse i u = Inr v"
    "fs_ok v" "log_frame s v" "view v = (view s)(b := f (view s b))" "room v \<ge> room s - 1"
proof -
  obtain i t u v where v: "bread 1 b s = Inr (i, t)" "log_write i (set_bdata i (f (bdata i t)) t) = Inr u" "brelse i u = Inr v"
    "log_ok v" "view v = (view s)(b := f (view s b))" "disk v = disk s" "held v = held s" "locked_blocks v = locked_blocks s"
    "set (logged v) = insert b (set (logged s))" "rest v = rest (s\<lparr>lh_n := lh_n v, lh_block := lh_block v\<rparr>)"
    using logged_update [OF room_avail(2) [OF s] b disjI2 [OF room_avail(1) [OF s]], of f] f by blast
  have fr: "log_frame s v"
    using v by (simp add: log_frame_def)
  have "lh_n v \<le> lh_n s + 1"
    using lh_n_card [OF v(4)] lh_n_card [of s] s(1) v(9) by (simp add: fs_ok_def card_insert_if)
  then have "fs_ok v" "room v \<ge> room s - 1"
    using s(1) v(4) log_frame_fields(2,5) [OF fr] by (simp_all add: fs_ok_def room_def)
  then show ?thesis
    using that v fr bread_data [OF fs_ok_cache [OF s(1)] v(1)] by blast
qed

lemma logged_write_ok:
  fixes s :: "'a logst_scheme"
  assumes s: "fs_ok s" "room s \<ge> 1 + int (card (locked_blocks s))" and b: "b < disksize s" "\<not> in_log s b" "b \<notin> locked_blocks s"
    and f: "\<And>d. length d = BSIZE \<Longrightarrow> length (f d) = BSIZE"
  obtains v where "logged_write 1 b f s = Inr v"
    "fs_ok v" "log_frame s v" "view v = (view s)(b := f (view s b))" "room v \<ge> room s - 1"
proof -
  obtain i t u v where "bread 1 b s = Inr (i, t)" "log_write i (set_bdata i (f (bdata i t)) t) = Inr u" "brelse i u = Inr v"
    "fs_ok v" "log_frame s v" "view v = (view s)(b := f (view s b))" "room v \<ge> room s - 1"
    by (rule logged_step [OF s b, of f]) (use f in auto)
  then show ?thesis
    using that [of v] by (simp add: logged_write_def)
qed

text \<open>Reading a block inside a transaction.\<close>

lemma read_step:
  fixes s :: "'a logst_scheme"
  assumes s: "fs_ok s" "room s \<ge> 1 + int (card (locked_blocks s))" and b: "b < disksize s" "b \<notin> locked_blocks s"
  obtains i t u where "bread 1 b s = Inr (i, t)" "bdata i t = view s b" "rest t = rest s" "brelse i t = Inr u"
    "fs_ok u" "log_frame s u" "view u = view s" "room u = room s"
proof -
  have a: "avail (abs_store s) b" "b < disksize (rest s)" "b \<notin> lkd (abs_store s)"
    using room_avail(1) [OF s] b by (simp_all add: avail_def rest_def)
  obtain i t u where u: "bread 1 b s = Inr (i, t)" "bdata i t = view s b" "brelse i t = Inr u" "cache_inv u"
    "rest u = rest s" "abs_store u = abs_store s" "rest t = rest s"
    using bc.read_block [OF fs_ok_cache [OF s(1)] a(2,3,1)] by auto
  note A = store_sel [OF u(6)] and F = rest_fields [OF u(5)]
  have ok: "log_ok u"
    by (rule log_ok_transfer [OF _ u(4,5)]) (use s(1) A in \<open>simp_all add: fs_ok_def\<close>)
  have "rest u = rest (s\<lparr>lh_n := lh_n u, lh_block := lh_block u\<rparr>)"
    using u(5) F(4,5) by simp
  then have "log_frame s u"
    using A by (simp add: log_frame_def)
  moreover have "fs_ok u" "room u = room s"
    using ok s(1) F by (simp_all add: fs_ok_def room_def)
  ultimately show ?thesis
    using that [of i t u] u A by simp
qed

section \<open>The free map\<close>

lemma in_use_bit: "in_use d bi \<longleftrightarrow> bit (d ! (bi div 8)) (bi mod 8)"
  by (simp add: in_use_def bmask_def bit_iff_and_push_bit_not_eq_0)

lemma bit_bmask: "n < 8 \<Longrightarrow> bit (bmask bi) n \<longleftrightarrow> n = bi mod 8"
  by (auto simp: bmask_def bit_exp_iff)

lemma byte_bit_eq: "bi \<noteq> bj \<Longrightarrow> bi div 8 = bj div 8 \<Longrightarrow> bi mod 8 \<noteq> bj mod (8 :: nat)"
  by (metis div_mult_mod_eq)

lemma in_use_mark:
  assumes "bi div 8 < length d"
  shows "in_use (mark_used bi d) bj \<longleftrightarrow> bj = bi \<or> in_use d bj"
    "in_use (mark_free bi d) bj \<longleftrightarrow> bj \<noteq> bi \<and> in_use d bj"
proof -
  have m: "bit (bmask bi) (bj mod 8) \<longleftrightarrow> bi mod 8 = bj mod 8"
    using bit_bmask [of "bj mod 8" bi] by auto
  have "bj mod 8 < 8"
    by simp
  then show "in_use (mark_used bi d) bj \<longleftrightarrow> bj = bi \<or> in_use d bj"
      "in_use (mark_free bi d) bj \<longleftrightarrow> bj \<noteq> bi \<and> in_use d bj"
    using assms byte_bit_eq [of bi bj] m
    by (cases "bi div 8 = bj div 8"; auto simp: in_use_bit mark_used_def mark_free_def bit_or_iff bit_and_iff bit_not_iff)+
qed

lemma length_mark [simp]: "length (mark_used bi d) = length d" "length (mark_free bi d) = length d"
  by (simp_all add: mark_used_def mark_free_def)

lemma mark_free_used:
  assumes "bi div 8 < length d" "\<not> in_use d bi"
  shows "mark_free bi (mark_used bi d) = d"
proof (rule nth_equalityI)
  fix k assume "k < length (mark_free bi (mark_used bi d))"
  have "(d ! (bi div 8) OR bmask bi) AND NOT (bmask bi) = d ! (bi div 8)"
  proof (rule bit_word_eqI)
    fix n assume "n < LENGTH(8)"
    have "bit (bmask bi) n \<longleftrightarrow> n = bi mod 8"
      using bit_bmask [of n bi] \<open>n < LENGTH(8)\<close> by simp
    then show "bit ((d ! (bi div 8) OR bmask bi) AND NOT (bmask bi)) n = bit (d ! (bi div 8)) n"
      using assms(2) \<open>n < LENGTH(8)\<close> by (auto simp: in_use_bit bit_simps)
  qed
  then show "mark_free bi (mark_used bi d) ! k = d ! k"
    using assms(1) by (cases "k = bi div 8") (simp_all add: mark_free_def mark_used_def)
qed simp

text \<open>A block marked in the free map that is on the disk as processes see it.\<close>

definition allocated :: "'a fsst_scheme \<Rightarrow> uint \<Rightarrow> bool" where
  "allocated s b \<longleftrightarrow> in_use (view s (BBLOCK b (sb s))) (unat b mod BPB)"

text \<open>
  The layout \<^verbatim>\<open>mkfs\<close> makes: the free map is on the disk outside the log, and the blocks of the log and of
  the free map are marked as in use.
\<close>

definition map_ok :: "'a fsst_scheme \<Rightarrow> bool" where
  "map_ok s \<longleftrightarrow> sb_size (sb s) \<le> disksize s \<and>
     (\<forall>b. b < sb_size (sb s) \<longrightarrow> BBLOCK b (sb s) < disksize s \<and> \<not> in_log s (BBLOCK b (sb s)) \<and>
        (\<not> allocated s b \<longrightarrow> \<not> in_log s b \<and> (\<forall>c. c < sb_size (sb s) \<longrightarrow> BBLOCK c (sb s) \<noteq> b)))"

lemma BBLOCK_eq_iff:
  "BBLOCK b x = BBLOCK c x \<longleftrightarrow> unat b div BPB = unat c div BPB"
proof -
  have "unat b div BPB < 4294967296" for b :: uint
    using unat_uint_less [of b] by (meson div_le_dividend le_less_trans)
  then show ?thesis
    by (auto simp: BBLOCK_def) (metis unat_of_nat_uint)
qed

lemma same_bit: "unat b div BPB = unat c div BPB \<Longrightarrow> unat b mod BPB = unat c mod BPB \<Longrightarrow> b = (c :: uint)"
  by (metis div_mult_mod_eq word_unat_eq_iff)

lemma map_index: "unat (b :: uint) mod BPB div 8 < BSIZE"
  by (simp add: BPB_def BSIZE_def less_mult_imp_div_less)

lemma map_ok_cong:
  assumes "map_ok s" "sb t = sb s" "disksize t = disksize s" "in_log t = in_log s"
    and "\<And>b. b < sb_size (sb s) \<Longrightarrow> allocated s b \<Longrightarrow> allocated t b \<or> \<not> in_log s b \<and> (\<forall>c. c < sb_size (sb s) \<longrightarrow> BBLOCK c (sb s) \<noteq> b)"
  shows "map_ok t"
  using assms unfolding map_ok_def by metis

lemma allocated_mark:
  assumes "sb v = sb s" "length (view s (BBLOCK b (sb s))) = BSIZE"
  shows "view v = (view s)(BBLOCK b (sb s) := mark_used (unat b mod BPB) (view s (BBLOCK b (sb s)))) \<Longrightarrow>
      allocated v c \<longleftrightarrow> c = b \<or> allocated s c"
    and "view v = (view s)(BBLOCK b (sb s) := mark_free (unat b mod BPB) (view s (BBLOCK b (sb s)))) \<Longrightarrow>
      allocated v c \<longleftrightarrow> c \<noteq> b \<and> allocated s c"
proof -
  let ?m = "BBLOCK b (sb s)" and ?bi = "unat b mod BPB"
  have l: "?bi div 8 < length (view s ?m)"
    using map_index assms(2) by simp
  note I = in_use_mark [OF l, of "unat c mod BPB"]
  have e: "BBLOCK c (sb s) = ?m \<Longrightarrow> unat c mod BPB = ?bi \<Longrightarrow> c = b"
    using same_bit [of c b] by (simp add: BBLOCK_eq_iff)
  show "allocated v c \<longleftrightarrow> c = b \<or> allocated s c" if "view v = (view s)(?m := mark_used ?bi (view s ?m))"
    unfolding allocated_def that assms(1) using I(1) e by (cases "BBLOCK c (sb s) = ?m") auto
  show "allocated v c \<longleftrightarrow> c \<noteq> b \<and> allocated s c" if "view v = (view s)(?m := mark_free ?bi (view s ?m))"
    unfolding allocated_def that assms(1) using I(2) e by (cases "BBLOCK c (sb s) = ?m") auto
qed

text \<open>\<^verbatim>\<open>bfree\<close> of a block that is in use.\<close>

lemma bfree_ok:
  assumes s: "fs_ok s" "map_ok s" "room s \<ge> 1 + int (card (locked_blocks s))"
    and b: "b < sb_size (sb s)" "allocated s b" "BBLOCK b (sb s) \<notin> locked_blocks s"
  obtains v where "bfree 1 b s = Inr v" "fs_ok v" "log_frame s v" "room v \<ge> room s - 1"
    "view v = (view s)(BBLOCK b (sb s) := mark_free (unat b mod BPB) (view s (BBLOCK b (sb s))))"
    "\<And>c. allocated v c \<longleftrightarrow> c \<noteq> b \<and> allocated s c"
proof -
  let ?m = "BBLOCK b (sb s)" and ?bi = "unat b mod BPB"
  have m: "?m < disksize s" "\<not> in_log s ?m"
    using s(2) b(1) by (auto simp: map_ok_def)
  obtain i t u v where v: "bread 1 ?m s = Inr (i, t)" "bdata i t = view s ?m" "rest t = rest s"
    "log_write i (set_bdata i (mark_free ?bi (bdata i t)) t) = Inr u" "brelse i u = Inr v"
    "fs_ok v" "log_frame s v" "view v = (view s)(?m := mark_free ?bi (view s ?m))" "room v \<ge> room s - 1"
    by (rule logged_step [OF s(1,3) m b(3), of "mark_free ?bi"]) auto
  have e: "bfree 1 b s = Inr v"
    using v(1,2,4,5) b(2) by (simp add: bfree_def Let_def allocated_def)
  show ?thesis
    using that e v allocated_mark(2) [OF log_frame_sb(1) [OF v(7)] view_length [OF fs_ok_cache [OF s(1)]] v(8)] by blast
qed

text \<open>\<^verbatim>\<open>bfree\<close> of a block that is not in use.\<close>

lemma bfree_free:
  assumes s: "fs_ok s" "map_ok s" "room s \<ge> 1 + int (card (locked_blocks s))"
    and b: "b < sb_size (sb s)" "\<not> allocated s b" "BBLOCK b (sb s) \<notin> locked_blocks s"
  shows "bfree 1 b s = Inl (Panic ''freeing free block'')"
proof -
  have m: "BBLOCK b (sb s) < disksize s"
    using s(2) b(1) by (auto simp: map_ok_def)
  obtain i t u where "bread 1 (BBLOCK b (sb s)) s = Inr (i, t)" "bdata i t = view s (BBLOCK b (sb s))"
    "rest t = rest s" "brelse i t = Inr u" "fs_ok u" "log_frame s u" "view u = view s" "room u = room s"
    by (rule read_step [OF s(1,3) m b(3)])
  then show ?thesis
    using b(2) by (simp add: bfree_def Let_def allocated_def)
qed

lemma find_upt_Some:
  "find P [0..<n] = Some k \<Longrightarrow> k < n \<and> P k \<and> (\<forall>j<k. \<not> P j)"
  by (induction n) (auto simp: find_append find_None_iff split: option.splits if_splits)

lemma find_upt_None: "find P [0..<n] = None \<longleftrightarrow> (\<forall>j<n. \<not> P j)"
  by (auto simp: find_None_iff)

lemma find_upt_first: "k < n \<Longrightarrow> P k \<Longrightarrow> \<forall>j<k. \<not> P j \<Longrightarrow> find P [0..<n] = Some k"
proof (cases "find P [0..<n]")
  case (Some j)
  then show "k < n \<Longrightarrow> P k \<Longrightarrow> \<forall>j<k. \<not> P j \<Longrightarrow> ?thesis"
    using find_upt_Some [OF Some] by (metis linorder_neqE_nat)
qed (auto simp: find_upt_None)

text \<open>The state of \<^verbatim>\<open>balloc\<close> after it has chosen block \<^verbatim>\<open>b\<close>.\<close>

definition balloced :: "'a fsst_scheme \<Rightarrow> uint \<Rightarrow> 'a fsst_scheme \<Rightarrow> bool" where
  "balloced s b v \<longleftrightarrow> b < sb_size (sb s) \<and> \<not> allocated s b \<and> (\<forall>c<b. allocated s c) \<and>
     (\<forall>c < sb_size (sb s). allocated v c \<longleftrightarrow> c = b \<or> allocated s c) \<and> view v b = replicate BSIZE 0 \<and>
     view v (BBLOCK b (sb s)) = mark_used (unat b mod BPB) (view s (BBLOCK b (sb s))) \<and>
     (\<forall>c. c \<noteq> b \<and> c \<noteq> BBLOCK b (sb s) \<longrightarrow> view v c = view s c) \<and>
     fs_ok v \<and> log_frame s v \<and> room v \<ge> room s - 2"

lemma balloc_take:
  assumes s: "fs_ok s" "map_ok s" "room s \<ge> 2 + int (card (locked_blocks s))"
    and l: "\<And>c. c \<in> locked_blocks s \<Longrightarrow> allocated s c" "\<And>c. c < sb_size (sb s) \<Longrightarrow> BBLOCK c (sb s) \<notin> locked_blocks s"
    and b: "b < sb_size (sb s)" "\<not> allocated s b" "\<forall>c<b. allocated s c"
  obtains i t u v w where "bread 1 (BBLOCK b (sb s)) s = Inr (i, t)" "bdata i t = view s (BBLOCK b (sb s))"
    "log_write i (set_bdata i (mark_used (unat b mod BPB) (bdata i t)) t) = Inr u" "brelse i u = Inr v"
    "bzero 1 b v = Inr w" "balloced s b w"
proof -
  let ?m = "BBLOCK b (sb s)" and ?bi = "unat b mod BPB"
  have m: "?m < disksize s" "\<not> in_log s ?m" "b < disksize s" "\<not> in_log s b" "?m \<noteq> b"
    using s(2) b(1,2) by (auto simp: map_ok_def)
  have r: "room s \<ge> 1 + int (card (locked_blocks s))"
    using s(3) by simp
  obtain i t u v where v: "bread 1 ?m s = Inr (i, t)" "bdata i t = view s ?m" "rest t = rest s"
    "log_write i (set_bdata i (mark_used ?bi (bdata i t)) t) = Inr u" "brelse i u = Inr v"
    "fs_ok v" "log_frame s v" "view v = (view s)(?m := mark_used ?bi (view s ?m))" "room v \<ge> room s - 1"
    by (rule logged_step [OF s(1) r m(1,2) l(2) [OF b(1)], of "mark_used ?bi"]) auto
  note F = log_frame_fields [OF v(7)] and B = log_frame_sb [OF v(7)]
  have a: "allocated v c \<longleftrightarrow> c = b \<or> allocated s c" for c
    using allocated_mark(1) [OF B(1) view_length [OF fs_ok_cache [OF s(1)]] v(8)] .
  have bl: "b \<notin> locked_blocks s"
    using l(1) b(2) by auto
  obtain w where w: "logged_write 1 b (\<lambda>_. replicate BSIZE 0) v = Inr w" "fs_ok w" "log_frame v w"
    "view w = (view v)(b := replicate BSIZE 0)" "room w \<ge> room v - 1"
    by (rule logged_write_ok [OF v(6), of b "\<lambda>_. replicate BSIZE 0"]) (use F m bl v(9) s(3) in auto)
  have "allocated w c = allocated v c" if "c < sb_size (sb s)" for c
  proof -
    have "BBLOCK c (sb s) \<noteq> b"
      using s(2) b(1,2) that by (auto simp: map_ok_def)
    then show ?thesis
      unfolding allocated_def w(4) log_frame_sb(1) [OF w(3)] B(1) by simp
  qed
  then have "balloced s b w"
    using a b w v(8,9) m(5) log_frame_trans [OF v(7) w(3)] by (auto simp: balloced_def)
  then show ?thesis
    using that v w(1) by (simp add: bzero_def)
qed

text \<open>The loop from block \<^verbatim>\<open>k\<close> on, when the first free block is \<^verbatim>\<open>b\<close>.\<close>

lemma balloc_loop_ok:
  assumes "fs_ok s" "map_ok s" "room s \<ge> 2 + int (card (locked_blocks s))"
    and "\<And>c. c \<in> locked_blocks s \<Longrightarrow> allocated s c" "\<And>c. c < sb_size (sb s) \<Longrightarrow> BBLOCK c (sb s) \<notin> locked_blocks s"
    and b: "b < sb_size (sb s)" "\<not> allocated s b" "\<forall>c<b. allocated s c"
    and k: "k \<le> unat b" "BPB dvd k"
  shows "\<exists>w. balloc_loop 1 (unat (sb_size (sb s))) k s = Inr (b, w) \<and> balloced s b w"
  using assms
proof (induction "unat b - k" arbitrary: k s rule: less_induct)
  case less
  let ?sz = "unat (sb_size (sb s))"
  have ksz: "k < ?sz"
    using less.prems(6,9) by (simp add: word_less_nat_alt)
  have kw: "k < 4294967296"
    using ksz unat_uint_less [of "sb_size (sb s)"] by linarith
  have bit: "allocated s (of_nat (k + j)) \<longleftrightarrow> in_use (view s (BBLOCK (of_nat k) (sb s))) j"
    if "j < BPB" "k + j < 4294967296" for j
  proof -
    have "(k + j) div BPB = k div BPB" "(k + j) mod BPB = j"
      using less.prems(10) that(1) by (auto elim!: dvdE)
    then show ?thesis
      using unat_of_nat_uint [OF that(2)] unat_of_nat_uint [OF kw] by (simp add: allocated_def BBLOCK_def)
  qed
  have bw: "b = of_nat (unat b)"
    by simp
  show ?case
  proof (cases "unat b < k + BPB")
    case True
    obtain bi where bi: "bi < BPB" "unat b = k + bi"
      using True less.prems(9) by (metis add_less_cancel_left le_iff_add)
    have mb: "unat b div BPB = k div BPB" "unat b mod BPB = bi"
      using less.prems(10) bi by (auto elim!: dvdE)
    have m: "BBLOCK (of_nat k) (sb s) = BBLOCK b (sb s)"
      using mb(1) unat_of_nat_uint [OF kw] by (simp add: BBLOCK_def)
    obtain i t u v w where w: "bread 1 (BBLOCK b (sb s)) s = Inr (i, t)" "bdata i t = view s (BBLOCK b (sb s))"
      "log_write i (set_bdata i (mark_used (unat b mod BPB) (bdata i t)) t) = Inr u" "brelse i u = Inr v"
      "bzero 1 b v = Inr w" "balloced s b w"
      by (rule balloc_take [OF less.prems(1-8)])
    have "find (\<lambda>bi. \<not> in_use (bdata i t) bi) [0..<min BPB (?sz - k)] = Some bi"
    proof (rule find_upt_first)
      show "bi < min BPB (?sz - k)"
        using bi less.prems(6) by (simp add: word_less_nat_alt)
      show "\<not> in_use (bdata i t) bi"
        using less.prems(7) mb w(2) by (simp add: allocated_def)
      show "\<forall>j<bi. \<not> \<not> in_use (bdata i t) j"
      proof (intro allI impI)
        fix j assume j: "j < bi"
        then have "k + j < 4294967296"
          using unat_uint_less [of b] bi(2) by linarith
        moreover from this have "of_nat (k + j) < b"
          using j unat_of_nat_uint [of "k + j"] bi(2) by (simp add: word_less_nat_alt)
        ultimately show "\<not> \<not> in_use (bdata i t) j"
          using bit [of j] j bi(1) less.prems(8) w(2) m by simp
      qed
    qed
    then show ?thesis
      using w ksz mb(2) bw m unfolding bi(2) by (subst balloc_loop.simps) simp
  next
    case False
    have m: "BBLOCK (of_nat k) (sb s) < disksize s" "BBLOCK (of_nat k) (sb s) \<notin> locked_blocks s"
      using less.prems(2,5) ksz unat_of_nat_uint [OF kw] by (auto simp: map_ok_def word_less_nat_alt)
    have r: "room s \<ge> 1 + int (card (locked_blocks s))"
      using less.prems(3) by simp
    obtain i t u where u: "bread 1 (BBLOCK (of_nat k) (sb s)) s = Inr (i, t)" "bdata i t = view s (BBLOCK (of_nat k) (sb s))"
      "rest t = rest s" "brelse i t = Inr u" "fs_ok u" "log_frame s u" "view u = view s" "room u = room s"
      by (rule read_step [OF less.prems(1) r m])
    note F = log_frame_fields [OF u(6)] and B = log_frame_sb [OF u(6)]
    have a: "allocated u = allocated s"
      using u(7) B by (simp add: allocated_def fun_eq_iff)
    have "find (\<lambda>bi. \<not> in_use (bdata i t) bi) [0..<min BPB (?sz - k)] = None"
      unfolding find_upt_None
    proof (intro allI impI)
      fix j assume j: "j < min BPB (?sz - k)"
      then have kj: "k + j < unat b"
        using False by simp
      then have kj': "k + j < 4294967296"
        using unat_uint_less [of b] by linarith
      then have "of_nat (k + j) < b"
        using kj unat_of_nat_uint [of "k + j"] by (simp add: word_less_nat_alt)
      then show "\<not> \<not> in_use (bdata i t) j"
        using bit [of j] j kj' less.prems(8) u(2) by simp
    qed
    then have e: "balloc_loop 1 ?sz k s = balloc_loop 1 ?sz (k + BPB) u"
      using u(1,4) ksz by (subst balloc_loop.simps) simp
    have "\<exists>w. balloc_loop 1 (unat (sb_size (sb u))) (k + BPB) u = Inr (b, w) \<and> balloced u b w"
    proof (rule less.hyps)
      show "unat b - (k + BPB) < unat b - k"
        using False by (simp add: BPB_def BSIZE_def)
      show "map_ok u"
        by (rule map_ok_cong [OF less.prems(2)]) (use F B a in auto)
    qed (use less.prems u F B a False in \<open>auto simp: BPB_def\<close>)
    then show ?thesis
      using e B a u(7,8) log_frame_trans [OF u(6)] by (auto simp: balloced_def)
  qed
qed

lemma balloc_ok:
  assumes s: "fs_ok s" "map_ok s" "room s \<ge> 2 + int (card (locked_blocks s))"
    and l: "\<And>c. c \<in> locked_blocks s \<Longrightarrow> allocated s c" "\<And>c. c < sb_size (sb s) \<Longrightarrow> BBLOCK c (sb s) \<notin> locked_blocks s"
    and f: "\<exists>b < sb_size (sb s). \<not> allocated s b"
  shows "\<exists>b w. balloc 1 s = Inr (b, w) \<and> balloced s b w"
proof -
  define b where "b = (LEAST b. \<not> allocated s b)"
  obtain x where "\<not> allocated s x"
    using f by blast
  then have b: "\<not> allocated s b" "\<forall>c<b. allocated s c"
    unfolding b_def by (rule LeastI) (auto dest: not_less_Least)
  have "b < sb_size (sb s)"
    using f b(2) by (metis leI le_less_trans)
  then show ?thesis
    using balloc_loop_ok [OF s l _ b, of 0] by (auto simp: balloc_def)
qed

text \<open>When every block is in use the search ends in a panic.\<close>

lemma balloc_loop_full:
  assumes "fs_ok s" "map_ok s" "room s \<ge> 1 + int (card (locked_blocks s))"
    and "\<And>c. c < sb_size (sb s) \<Longrightarrow> BBLOCK c (sb s) \<notin> locked_blocks s \<and> allocated s c" "BPB dvd k"
  shows "balloc_loop 1 (unat (sb_size (sb s))) k s = Inl (Panic ''balloc: out of blocks'')"
  using assms
proof (induction "unat (sb_size (sb s)) - k" arbitrary: k s rule: less_induct)
  case less
  let ?sz = "unat (sb_size (sb s))"
  show ?case
  proof (cases "k < ?sz")
    case True
    have w: "k + j < 4294967296 \<and> of_nat (k + j) < sb_size (sb s)" if "k + j < ?sz" for j
      using that less_trans [OF that unat_uint_less] unat_of_nat_uint [of "k + j"] by (simp add: word_less_nat_alt)
    note k = w [of 0, simplified, OF True]
    have m: "BBLOCK (of_nat k) (sb s) < disksize s" "BBLOCK (of_nat k) (sb s) \<notin> locked_blocks s"
      using less.prems(2,4) k by (auto simp: map_ok_def)
    obtain i t u where u: "bread 1 (BBLOCK (of_nat k) (sb s)) s = Inr (i, t)" "bdata i t = view s (BBLOCK (of_nat k) (sb s))"
      "rest t = rest s" "brelse i t = Inr u" "fs_ok u" "log_frame s u" "view u = view s" "room u = room s"
      by (rule read_step [OF less.prems(1,3) m])
    note F = log_frame_fields [OF u(6)] and B = log_frame_sb [OF u(6)]
    have a: "allocated u = allocated s"
      using u(7) B by (simp add: allocated_def fun_eq_iff)
    have "in_use (bdata i t) j" if "j < min BPB (?sz - k)" for j
    proof -
      have kj: "k + j < ?sz"
        using that True by auto
      have "(k + j) div BPB = k div BPB" "(k + j) mod BPB = j"
        using less.prems(5) that by (auto elim!: dvdE)
      moreover have "allocated s (of_nat (k + j))"
        using less.prems(4) w [OF kj] by simp
      ultimately show ?thesis
        using w [OF kj] k unat_of_nat_uint [of "k + j"] unat_of_nat_uint [of k] u(2)
        by (simp add: allocated_def BBLOCK_def)
    qed
    then have "find (\<lambda>bi. \<not> in_use (bdata i t) bi) [0..<min BPB (?sz - k)] = None"
      by (simp add: find_upt_None)
    then have "balloc_loop 1 ?sz k s = balloc_loop 1 ?sz (k + BPB) u"
      using u(1,4) True by (subst balloc_loop.simps) simp
    moreover have "balloc_loop 1 (unat (sb_size (sb u))) (k + BPB) u = Inl (Panic ''balloc: out of blocks'')"
    proof (rule less.hyps)
      show "unat (sb_size (sb u)) - (k + BPB) < ?sz - k"
        using True B by (simp add: BPB_def BSIZE_def)
      show "map_ok u"
        by (rule map_ok_cong [OF less.prems(2)]) (use F B a in auto)
    qed (use less.prems u F B a in auto)
    ultimately show ?thesis
      using B by simp
  next
    case False
    then show ?thesis
      by (subst balloc_loop.simps) simp
  qed
qed

text \<open>
  C19: Block allocation.  In a transaction with room for two more blocks, on a file system laid out as
  \<^verbatim>\<open>mkfs\<close> does it: if a block is free, \<^verbatim>\<open>balloc\<close> returns the first free one, which from then on is marked in
  the free map and reads as zeros; no other mark and no other block changes, nothing reaches the
  disk and no lock is left; \<^verbatim>\<open>bfree\<close> of the block then brings every block but its own contents back
  to what it was, and a second \<^verbatim>\<open>bfree\<close> panics.  If no block is free, \<^verbatim>\<open>balloc\<close> panics.
\<close>

theorem balloc_bfree:
  assumes s: "fs_ok s" "map_ok s" "room s \<ge> 4" "locked_blocks s = {}"
  shows "if \<exists>b < sb_size (sb s). \<not> allocated s b
    then \<exists>b v w. balloc 1 s = Inr (b, v) \<and> b < sb_size (sb s) \<and> \<not> allocated s b \<and> (\<forall>c<b. allocated s c) \<and>
      (\<forall>c < sb_size (sb s). allocated v c \<longleftrightarrow> c = b \<or> allocated s c) \<and> view v b = replicate BSIZE 0 \<and>
      (\<forall>c. c \<noteq> b \<and> c \<noteq> BBLOCK b (sb s) \<longrightarrow> view v c = view s c) \<and> disk v = disk s \<and> locked_blocks v = {} \<and>
      bfree 1 b v = Inr w \<and> (\<forall>c. c \<noteq> b \<longrightarrow> view w c = view s c) \<and> bfree 1 b w = Inl (Panic ''freeing free block'')
    else balloc 1 s = Inl (Panic ''balloc: out of blocks'')"
proof (cases "\<exists>b < sb_size (sb s). \<not> allocated s b")
  case True
  then obtain b v where v: "balloc 1 s = Inr (b, v)" "balloced s b v"
    using balloc_ok [OF s(1,2)] s(3,4) by auto
  note V = v(2) [unfolded balloced_def]
  then have f: "log_frame s v" and b: "b < sb_size (sb s)" "\<not> allocated s b"
    by auto
  note F = log_frame_fields [OF f] and B = log_frame_sb [OF f]
  have mv: "map_ok v"
    by (rule map_ok_cong [OF s(2)]) (use F B V in auto)
  obtain w where w: "bfree 1 b v = Inr w" "fs_ok w" "log_frame v w" "room w \<ge> room v - 1"
    "view w = (view v)(BBLOCK b (sb v) := mark_free (unat b mod BPB) (view v (BBLOCK b (sb v))))"
    "\<And>c. allocated w c \<longleftrightarrow> c \<noteq> b \<and> allocated v c"
    by (rule bfree_ok [OF _ mv]) (use V F B s in auto)
  note G = log_frame_fields [OF w(3)] and C = log_frame_sb [OF w(3)]
  have mw: "map_ok w"
    by (rule map_ok_cong [OF mv]) (use G C w(6) b s(2) F B in \<open>auto simp: map_ok_def\<close>)
  have "bfree 1 b w = Inl (Panic ''freeing free block'')"
    by (rule bfree_free [OF w(2) mw]) (use V F B G C w s in auto)
  moreover have "view w c = view s c" if "c \<noteq> b" for c
    using V that w(5) B mark_free_used [of "unat b mod BPB" "view s (BBLOCK b (sb s))"] map_index [of b]
      view_length [OF fs_ok_cache [OF s(1)]] by (auto simp: allocated_def)
  ultimately show ?thesis
    using True v(1) V w(1) F s(4) by auto
next
  case False
  then show ?thesis
    using balloc_loop_full [OF s(1,2), of 0] s(3,4) by (simp add: balloc_def)
qed


text \<open>A file system laid out as \<^verbatim>\<open>mkfs\<close> does it for 1000 blocks, with the given blocks and inode cache, in a transaction.\<close>

definition demo_sb :: superblock where
  "demo_sb = \<lparr>sb_size = 1000, sb_nblocks = 941, sb_ninodes = 200, sb_nlog = 30, sb_logstart = 2, sb_inodestart = 32, sb_bmapstart = 58\<rparr>"

definition fs_boot :: "(uint \<Rightarrow> block) \<Rightarrow> inode list \<Rightarrow> fsst" where
  "fs_boot D ins = binit \<lparr>bufs = replicate NBUF zero_buf, bnext = replicate (NBUF + 1) 0, bprev = replicate (NBUF + 1) 0,
     disk = D, disksize = 1000, whist = [], curpid = 1, log_start = 2, log_size = 30, log_outstanding = 1,
     log_committing = False, log_dev = 1, lh_n = 0, lh_block = replicate (nat LOGSIZE) 0, sb = demo_sb, inodes = ins\<rparr>"

lemma fs_boot_ok:
  assumes "\<And>b. length (D b) = BSIZE"
  shows "fs_ok (fs_boot D ins)" "room (fs_boot D ins) = 29" "view (fs_boot D ins) = D" "locked_blocks (fs_boot D ins) = {}"
    "sb (fs_boot D ins) = demo_sb" "inodes (fs_boot D ins) = ins" "disksize (fs_boot D ins) = 1000"
    "curpid (fs_boot D ins) = 1" "in_log (fs_boot D ins) b \<longleftrightarrow> 2 \<le> b \<and> b < 32"
proof -
  define z where "z = \<lparr>bufs = replicate NBUF zero_buf, bnext = replicate (NBUF + 1) 0, bprev = replicate (NBUF + 1) 0,
     disk = D, disksize = 1000, whist = [], curpid = 1, log_start = 2, log_size = 30, log_outstanding = 1,
     log_committing = False, log_dev = 1, lh_n = 0, lh_block = replicate (nat LOGSIZE) 0, sb = demo_sb, inodes = ins\<rparr>"
  have e: "fs_boot D ins = binit z"
    by (simp add: fs_boot_def z_def)
  have z: "zeroed z"
    using assms by (simp add: zeroed_def z_def)
  note B = boot_store [OF z] and R = binit_zeroed(4) [OF z]
  note F = rest_fields [OF R] and S = store_sel [OF B(2)]
  have f: "lh_n (binit z) = 0" "log_outstanding (binit z) = 1" "log_size (binit z) = 30" "log_start (binit z) = 2"
    "disksize (binit z) = 1000" "log_dev (binit z) = 1" "length (lh_block (binit z)) = nat LOGSIZE" "curpid (binit z) = 1"
    by (simp_all add: F) (simp_all add: z_def)
  show "view (fs_boot D ins) = D" "locked_blocks (fs_boot D ins) = {}"
    using S by (simp_all add: e z_def)
  show "sb (fs_boot D ins) = demo_sb" "inodes (fs_boot D ins) = ins"
    using rest_logst_eq [OF R] unfolding e by (cases "binit z", simp add: z_def)+
  show "disksize (fs_boot D ins) = 1000" "curpid (fs_boot D ins) = 1" "room (fs_boot D ins) = 29"
    using f by (simp_all add: e room_def LOGSIZE_def MAXOPBLOCKS_def)
  show "fs_ok (fs_boot D ins)"
    using f B(1) S by (simp add: e fs_ok_def log_ok_def log_geom_def logged_def NBUF_def)
  show "in_log (fs_boot D ins) b \<longleftrightarrow> 2 \<le> b \<and> b < 32"
    using f by (simp add: e in_log_def word_less_nat_alt word_le_nat_alt)
qed

text \<open>A free map with only block 500 free.\<close>

definition demo_map :: block where
  "demo_map = mark_free 500 (replicate BSIZE (- 1))"

lemma demo_map: "j < BPB \<Longrightarrow> in_use demo_map j \<longleftrightarrow> j \<noteq> 500" "length demo_map = BSIZE"
  using in_use_mark(2) [of 500 "replicate BSIZE (- 1)" j]
  by (auto simp: demo_map_def BSIZE_def BPB_def in_use_bit less_mult_imp_div_less)

definition demo_disk :: "uint \<Rightarrow> block" where
  "demo_disk b = (if b = 58 then demo_map else replicate BSIZE 0)"

lemma demo_allocated:
  assumes "D 58 = demo_map" "\<And>b. length (D b) = BSIZE"
  shows "b < 1000 \<Longrightarrow> BBLOCK b demo_sb = 58" "b < 1000 \<Longrightarrow> allocated (fs_boot D ins) b \<longleftrightarrow> b \<noteq> 500"
    "map_ok (fs_boot D ins)"
proof -
  note B = fs_boot_ok [of D ins, OF assms(2)]
  show m: "BBLOCK b demo_sb = 58" if "b < 1000" for b
    using that by (simp add: BBLOCK_def demo_sb_def BPB_def BSIZE_def word_less_nat_alt)
  show a: "allocated (fs_boot D ins) b \<longleftrightarrow> b \<noteq> 500" if "b < 1000" for b
  proof -
    have l: "unat b < 1000"
      using that by (simp add: word_less_nat_alt)
    then have "unat b mod BPB = unat b" "unat b < BPB"
      by (simp_all add: BPB_def BSIZE_def)
    moreover have "unat b \<noteq> 500 \<longleftrightarrow> b \<noteq> 500"
      by (simp add: word_unat_eq_iff)
    ultimately show ?thesis
      using demo_map(1) [of "unat b"] m [OF that] B assms(1) by (simp add: allocated_def)
  qed
  have d: "sb_size demo_sb = 1000"
    by (simp add: demo_sb_def)
  show "map_ok (fs_boot D ins)"
    unfolding map_ok_def using B m a by (auto simp: d)
qed

theorem balloc_bfree_witness:
  "\<exists>b v w. balloc 1 (fs_boot demo_disk []) = Inr (b, v) \<and> allocated v b \<and> bfree 1 b v = Inr w"
proof -
  let ?s = "fs_boot demo_disk []"
  have l: "\<And>b. length (demo_disk b) = BSIZE" "demo_disk 58 = demo_map"
    by (simp_all add: demo_disk_def demo_map(2))
  note B = fs_boot_ok [of demo_disk "[]", OF l(1)] and A = demo_allocated(2,3) [where D = demo_disk and ins = "[]", OF l(2,1)]
  have d: "sb_size (sb ?s) = 1000"
    by (simp add: B demo_sb_def)
  have "\<exists>b < sb_size (sb ?s). \<not> allocated ?s b"
    using A(1) [of 500] d by (intro exI [of _ 500]) simp
  moreover have "4 \<le> room ?s"
    using B(2) by simp
  note balloc_bfree [OF B(1) A(2) this B(4)]
  ultimately obtain b v w where "balloc 1 ?s = Inr (b, v)" "b < sb_size (sb ?s)"
    "\<forall>c < sb_size (sb ?s). allocated v c \<longleftrightarrow> c = b \<or> allocated ?s c" "bfree 1 b v = Inr w"
    by (simp only: if_True) blast
  then show ?thesis
    by blast
qed

end
