(* ===== verification/Fs_inodes.thy ===== *)
theory Fs_inodes
  imports Fs_blocks
begin

text \<open>
  The inode cache: no inode is cached twice, the on-disk and the in-memory copies of an inode agree, and
  what \<^verbatim>\<open>iget\<close>, \<^verbatim>\<open>ilock\<close>, \<^verbatim>\<open>iupdate\<close> and \<^verbatim>\<open>ialloc\<close> do.
\<close>

unbundle bit_operations_syntax

section \<open>The inode cache\<close>

text \<open>The entries in use are those with a positive reference count; they stand for different inodes.\<close>

definition icache_inv :: "'a fsst_scheme \<Rightarrow> bool" where
  "icache_inv s \<longleftrightarrow> length (inodes s) = NINODE \<and> (\<forall>i<NINODE. 0 \<le> iref (inodes s ! i)) \<and>
     (\<forall>i<NINODE. \<forall>j<NINODE. iref (inodes s ! i) > 0 \<and> iref (inodes s ! j) > 0 \<and>
        idev (inodes s ! i) = idev (inodes s ! j) \<and> inum (inodes s ! i) = inum (inodes s ! j) \<longrightarrow> i = j)"

text \<open>The number of references to the inode \<^verbatim>\<open>n\<close> of the device.\<close>

definition irefs :: "'a fsst_scheme \<Rightarrow> uint \<Rightarrow> uint \<Rightarrow> int" where
  "irefs s dev n = (\<Sum>i<NINODE. if idev (inodes s ! i) = dev \<and> inum (inodes s ! i) = n then iref (inodes s ! i) else 0)"

lemma inodes_upd [simp]:
  "inodes (upd_inode i f s) = (inodes s)[i := f (inodes s ! i)]"
  by (simp add: upd_inode_def)

lemma icache_invD:
  assumes "icache_inv s"
  shows "length (inodes s) = NINODE" "i < NINODE \<Longrightarrow> 0 \<le> iref (inodes s ! i)"
    "i < NINODE \<Longrightarrow> j < NINODE \<Longrightarrow> iref (inodes s ! i) > 0 \<Longrightarrow> iref (inodes s ! j) > 0 \<Longrightarrow>
      idev (inodes s ! i) = idev (inodes s ! j) \<Longrightarrow> inum (inodes s ! i) = inum (inodes s ! j) \<Longrightarrow> i = j"
  using assms unfolding icache_inv_def by blast+

lemma icache_inv_upd:
  assumes inv: "icache_inv s" and i: "i < NINODE" and x: "0 \<le> iref (f (inodes s ! i))"
    and d: "\<And>j. j < NINODE \<Longrightarrow> j \<noteq> i \<Longrightarrow> iref (inodes s ! j) > 0 \<Longrightarrow> iref (f (inodes s ! i)) > 0 \<Longrightarrow>
      idev (inodes s ! j) = idev (f (inodes s ! i)) \<Longrightarrow> inum (inodes s ! j) = inum (f (inodes s ! i)) \<Longrightarrow> False"
  shows "icache_inv (upd_inode i f s)"
proof -
  note D = icache_invD [OF inv]
  let ?t = "upd_inode i f s"
  have n: "inodes ?t ! j = (if j = i then f (inodes s ! i) else inodes s ! j)" for j
    using i D(1) by (simp add: nth_list_update)
  have "j = k" if jk: "j < NINODE" "k < NINODE" "iref (inodes ?t ! j) > 0" "iref (inodes ?t ! k) > 0"
      "idev (inodes ?t ! j) = idev (inodes ?t ! k)" "inum (inodes ?t ! j) = inum (inodes ?t ! k)" for j k
  proof (rule ccontr)
    assume ne: "j \<noteq> k"
    consider "j = i" | "k = i" | "j \<noteq> i" "k \<noteq> i" by blast
    then show False
    proof cases
      case 1
      then show ?thesis using d [of k] jk ne n [of j] n [of k] by simp
    next
      case 2
      then show ?thesis using d [of j] jk ne n [of j] n [of k] by simp
    next
      case 3
      then show ?thesis using D(3) [of j k] jk ne n [of j] n [of k] by simp
    qed
  qed
  moreover have "0 \<le> iref (inodes ?t ! j)" if "j < NINODE" for j
    using n [of j] x D(2) [OF that] by simp
  ultimately show ?thesis
    unfolding icache_inv_def using D(1) by simp
qed

text \<open>Changes that leave the identity of an entry alone.\<close>

lemma icache_inv_keep:
  assumes inv: "icache_inv s" and i: "i < NINODE" and x: "0 \<le> iref (f (inodes s ! i))"
    and k: "idev (f (inodes s ! i)) = idev (inodes s ! i)" "inum (f (inodes s ! i)) = inum (inodes s ! i)"
      "iref (f (inodes s ! i)) > 0 \<Longrightarrow> iref (inodes s ! i) > 0"
  shows "icache_inv (upd_inode i f s)"
proof (rule icache_inv_upd [OF inv i, where f = f, OF x])
  fix j
  assume "j < NINODE" "j \<noteq> i" "iref (inodes s ! j) > 0" "iref (f (inodes s ! i)) > 0"
    "idev (inodes s ! j) = idev (f (inodes s ! i))" "inum (inodes s ! j) = inum (f (inodes s ! i))"
  then show False
    using icache_invD(3) [OF inv, of j i] i k by simp
qed

text \<open>
  C20: \<^verbatim>\<open>iget\<close> on a cache without duplicates either panics because all entries are in use by other inodes, or
  gives an entry for exactly the inode asked for, with one more reference; every other entry in use
  is as before, an entry that was in use already keeps its contents, a fresh one is marked invalid so
  that \<^verbatim>\<open>ilock\<close> will read it, and there are still no duplicates.
\<close>

theorem iget_unique:
  assumes inv: "icache_inv s"
  shows "case iget dev n s of
      Inl e \<Rightarrow> e = Panic ''iget: no inodes'' \<and> (\<forall>i<NINODE. iref (inodes s ! i) > 0 \<and> (idev (inodes s ! i) \<noteq> dev \<or> inum (inodes s ! i) \<noteq> n))
    | Inr (i, t) \<Rightarrow> i < NINODE \<and> icache_inv t \<and> idev (inodes t ! i) = dev \<and> inum (inodes t ! i) = n \<and>
        iref (inodes t ! i) = iref (inodes s ! i) + 1 \<and>
        (\<forall>j<NINODE. j \<noteq> i \<longrightarrow> inodes t ! j = inodes s ! j) \<and>
        (if iref (inodes s ! i) > 0 then inodes t ! i = (inodes s ! i)\<lparr>iref := iref (inodes s ! i) + 1\<rparr>
         else \<not> ivalid (inodes t ! i) \<and> (\<forall>j<NINODE. \<not> (iref (inodes s ! j) > 0 \<and> idev (inodes s ! j) = dev \<and> inum (inodes s ! j) = n)))"
proof (cases "find (\<lambda>i. iref (inodes s ! i) > 0 \<and> idev (inodes s ! i) = dev \<and> inum (inodes s ! i) = n) [0..<NINODE]")
  case (Some i)
  have i: "i < NINODE" "iref (inodes s ! i) > 0" "idev (inodes s ! i) = dev" "inum (inodes s ! i) = n"
    using find_upt_Some [OF Some] by auto
  have "icache_inv (upd_inode i (\<lambda>ip. ip\<lparr>iref := iref ip + 1\<rparr>) s)"
    by (rule icache_inv_keep [OF inv i(1)]) (use i in simp_all)
  then show ?thesis
    using Some i icache_invD(1) [OF inv] by (simp add: iget_def)
next
  case None
  then have n: "\<not> (iref (inodes s ! j) > 0 \<and> idev (inodes s ! j) = dev \<and> inum (inodes s ! j) = n)" if "j < NINODE" for j
    using that by (auto simp: find_upt_None)
  show ?thesis
  proof (cases "find (\<lambda>i. iref (inodes s ! i) = 0) [0..<NINODE]")
    case (Some i)
    have i: "i < NINODE" "iref (inodes s ! i) = 0"
      using find_upt_Some [OF Some] by auto
    have "icache_inv (upd_inode i (\<lambda>ip. ip\<lparr>idev := dev, inum := n, iref := 1, ivalid := False\<rparr>) s)"
      by (rule icache_inv_upd [OF inv i(1)]) (use n in simp_all)
    then show ?thesis
      using Some None i icache_invD(1) [OF inv] n by (simp add: iget_def)
  next
    case n2: None
    have "iref (inodes s ! i) > 0" if "i < NINODE" for i
    proof -
      have "iref (inodes s ! i) \<noteq> 0" "0 \<le> iref (inodes s ! i)"
        using n2 that inv by (simp_all add: find_upt_None icache_invD)
      then show ?thesis by simp
    qed
    then show ?thesis
      using None n2 n by (auto simp: iget_def)
  qed
qed

section \<open>Inodes on disk and in memory\<close>

text \<open>The on-disk inode \<^verbatim>\<open>n\<close> as processes see it.\<close>

definition dinode_of :: "'a fsst_scheme \<Rightarrow> uint \<Rightarrow> dinode" where
  "dinode_of s n = get_dinode (dip n) (view s (IBLOCK n (sb s)))"

definition iblock_ok :: "'a fsst_scheme \<Rightarrow> uint \<Rightarrow> bool" where
  "iblock_ok s n \<longleftrightarrow> IBLOCK n (sb s) < disksize s \<and> \<not> in_log s (IBLOCK n (sb s)) \<and> IBLOCK n (sb s) \<notin> locked_blocks s"

lemma dip_bound: "dip n + 64 \<le> BSIZE"
  using mod_less_divisor [of 8 "unat n"] by (simp add: dip_def IPB_def BSIZE_def)

lemma IBLOCK_dip_inj:
  assumes "IBLOCK m x = IBLOCK n x" "\<not> (dip m + 64 \<le> dip n \<or> dip n + 64 \<le> dip m)"
  shows "m = n"
proof -
  have "unat m div IPB < 4294967296" for m :: uint
    by (rule le_less_trans [OF div_le_dividend unat_uint_less])
  then have "unat m div IPB = unat n div IPB"
    using assms(1) unat_of_nat_uint by (metis (no_types, lifting) IBLOCK_def add_right_imp_eq)
  moreover have "unat m mod IPB = unat n mod IPB"
    using assms(2) by (auto simp: dip_def)
  ultimately show ?thesis
    by (metis div_mult_mod_eq word_unat_eq_iff)
qed

text \<open>The inode cache is no part of the buffer cache and the log.\<close>

lemma inodes_upd_cache:
  fixes s :: "'a fsst_scheme"
  shows "abs_store (s\<lparr>inodes := X\<rparr>) = abs_store s" "cache_inv (s\<lparr>inodes := X\<rparr>) = cache_inv s"
  by (rule same_cache; simp)+

lemma inodes_upd_fs [simp]:
  fixes s :: "'a fsst_scheme"
  shows "fs_ok (s\<lparr>inodes := X\<rparr>) = fs_ok s" "room (s\<lparr>inodes := X\<rparr>) = room s" "view (s\<lparr>inodes := X\<rparr>) = view s"
    "locked_blocks (s\<lparr>inodes := X\<rparr>) = locked_blocks s" "in_log (s\<lparr>inodes := X\<rparr>) = in_log s" "held (s\<lparr>inodes := X\<rparr>) = held s"
proof -
  note C = store_sel [OF inodes_upd_cache(1) [of X s]]
  show "view (s\<lparr>inodes := X\<rparr>) = view s" "locked_blocks (s\<lparr>inodes := X\<rparr>) = locked_blocks s" "held (s\<lparr>inodes := X\<rparr>) = held s"
    using C by simp_all
  show "room (s\<lparr>inodes := X\<rparr>) = room s" "in_log (s\<lparr>inodes := X\<rparr>) = in_log s"
    by (simp_all add: room_def in_log_def fun_eq_iff)
  show "fs_ok (s\<lparr>inodes := X\<rparr>) = fs_ok s"
    using C inodes_upd_cache(2) [of X s] by (simp add: fs_ok_def log_ok_def log_geom_def in_log_def logged_def)
qed

lemma upd_inode_fs [simp]:
  fixes s :: "'a fsst_scheme"
  shows "fs_ok (upd_inode i f s) = fs_ok s" "room (upd_inode i f s) = room s" "view (upd_inode i f s) = view s"
    "locked_blocks (upd_inode i f s) = locked_blocks s" "sb (upd_inode i f s) = sb s" "disksize (upd_inode i f s) = disksize s"
    "in_log (upd_inode i f s) = in_log s" "curpid (upd_inode i f s) = curpid s" "disk (upd_inode i f s) = disk s"
    "held (upd_inode i f s) = held s"
  by (simp_all add: upd_inode_def)

lemma iupdate_ok:
  assumes s: "fs_ok s" "room s \<ge> 1 + int (card (locked_blocks s))"
    and i: "idev (inodes s ! ip) = 1" "length (addrs (inodes s ! ip)) = NDIRECT + 1" "iblock_ok s (inum (inodes s ! ip))"
  obtains v where "iupdate ip s = Inr v" "fs_ok v" "log_frame s v" "room v \<ge> room s - 1"
    "\<forall>b. b \<noteq> IBLOCK (inum (inodes s ! ip)) (sb s) \<longrightarrow> view v b = view s b"
    "\<forall>m. dinode_of v m = (if m = inum (inodes s ! ip) then dinode.truncate (inodes s ! ip) else dinode_of s m)"
proof -
  let ?n = "inum (inodes s ! ip)" and ?f = "put_dinode (dip (inum (inodes s ! ip))) (inodes s ! ip)"
  obtain v where v: "logged_write 1 (IBLOCK ?n (sb s)) ?f s = Inr v" "fs_ok v" "log_frame s v"
    "view v = (view s)(IBLOCK ?n (sb s) := ?f (view s (IBLOCK ?n (sb s))))" "room v \<ge> room s - 1"
    by (rule logged_write_ok [OF s, of "IBLOCK ?n (sb s)" ?f]) (use i(3) in \<open>auto simp: iblock_ok_def\<close>)
  have "dinode_of v m = (if m = ?n then dinode.truncate (inodes s ! ip) else dinode_of s m)" for m
  proof (cases "IBLOCK m (sb s) = IBLOCK ?n (sb s)")
    case True
    show ?thesis
    proof (cases "m = ?n")
      case True
      then show ?thesis
        using get_put_dinode [of "dip ?n" "view s (IBLOCK ?n (sb s))" "inodes s ! ip"] i(2) dip_bound [of ?n]
          view_length [OF fs_ok_cache [OF s(1)]] log_frame_sb(1) [OF v(3)] v(4)
        by (simp add: dinode_of_def)
    next
      case False
      then have "dip m + 64 \<le> dip ?n \<or> dip ?n + 64 \<le> dip m"
        using IBLOCK_dip_inj True by blast
      then show ?thesis
        using get_put_dinode_other False True log_frame_sb(1) [OF v(3)] v(4) by (simp add: dinode_of_def)
    qed
  next
    case False
    then show ?thesis
      using log_frame_sb(1) [OF v(3)] v(4) by (auto simp: dinode_of_def)
  qed
  then show ?thesis
    using that v i(1) by (simp add: iupdate_def Let_def)
qed

text \<open>What an operation on inodes leaves alone besides: everything but the inode cache.\<close>

definition fs_frame :: "'a fsst_scheme \<Rightarrow> 'a fsst_scheme \<Rightarrow> bool" where
  "fs_frame s v \<longleftrightarrow> log_frame (s\<lparr>inodes := inodes v\<rparr>) v"

lemma log_frame_inodes:
  fixes s v :: "'a fsst_scheme"
  assumes "log_frame s v"
  shows "log_frame (s\<lparr>inodes := X\<rparr>) (v\<lparr>inodes := X\<rparr>)"
proof -
  have r: "rest (t\<lparr>inodes := X\<rparr>) = (rest t)\<lparr>inodes := X\<rparr>" for t :: "'a fsst_scheme"
    by (simp add: rest_def)
  have "rest (v\<lparr>inodes := X\<rparr>) = rest ((s\<lparr>lh_n := lh_n v, lh_block := lh_block v\<rparr>)\<lparr>inodes := X\<rparr>)"
    using assms by (simp only: r log_frame_def)
  moreover have "(s\<lparr>lh_n := lh_n v, lh_block := lh_block v\<rparr>)\<lparr>inodes := X\<rparr> =
      (s\<lparr>inodes := X\<rparr>)\<lparr>lh_n := lh_n (v\<lparr>inodes := X\<rparr>), lh_block := lh_block (v\<lparr>inodes := X\<rparr>)\<rparr>"
    by simp
  ultimately have "rest (v\<lparr>inodes := X\<rparr>) =
      rest ((s\<lparr>inodes := X\<rparr>)\<lparr>lh_n := lh_n (v\<lparr>inodes := X\<rparr>), lh_block := lh_block (v\<lparr>inodes := X\<rparr>)\<rparr>)"
    by simp
  then show ?thesis
    using assms by (simp add: log_frame_def)
qed

lemma fs_frame_refl [simp]: "fs_frame s s"
  by (simp add: fs_frame_def)

lemma fs_frame_trans:
  assumes "fs_frame s t" "fs_frame t u"
  shows "fs_frame s u"
proof -
  have "log_frame ((s\<lparr>inodes := inodes t\<rparr>)\<lparr>inodes := inodes u\<rparr>) (t\<lparr>inodes := inodes u\<rparr>)"
    using assms(1) log_frame_inodes unfolding fs_frame_def by blast
  then show ?thesis
    using assms(2) log_frame_trans unfolding fs_frame_def by simp blast
qed

lemma log_frame_fs: "log_frame s v \<Longrightarrow> fs_frame s v"
proof -
  assume a: "log_frame s v"
  have "s\<lparr>inodes := inodes v\<rparr> = s"
    using log_frame_sb(2) [OF a] by simp
  then show ?thesis
    using a by (simp add: fs_frame_def)
qed

lemma upd_inode_frame [simp]: "fs_frame s (upd_inode i f s)"
  by (simp add: fs_frame_def) (simp add: upd_inode_def)

lemma fs_frame_fields:
  fixes s v :: "'a fsst_scheme"
  assumes "fs_frame s v"
  shows "log_start v = log_start s" "log_size v = log_size s" "disksize v = disksize s"
    "log_outstanding v = log_outstanding s" "log_committing v = log_committing s" "curpid v = curpid s"
    "in_log v = in_log s" "locked_blocks v = locked_blocks s" "held v = held s" "disk v = disk s" "sb v = sb s"
    "fsst.more v = fsst.more s"
  using log_frame_fields [OF assms [unfolded fs_frame_def]] log_frame_sb [OF assms [unfolded fs_frame_def]]
  by simp_all

text \<open>Releasing a buffer does not look at the inode cache.\<close>

lemma brelse_inodes:
  fixes s :: "'a fsst_scheme"
  assumes "brelse b s = Inr t"
  shows "brelse b (s\<lparr>inodes := X\<rparr>) = Inr (t\<lparr>inodes := X\<rparr>)"
  using assms by (auto simp: brelse_def upd_buf_def to_front_def Let_def split: if_splits)

text \<open>\<^verbatim>\<open>ilock\<close> of an entry that is not locked.\<close>

definition loaded :: "'a fsst_scheme \<Rightarrow> nat \<Rightarrow> inode" where
  "loaded s ip = (let i = inodes s ! ip in
     (if ivalid i then i else (load_dinode (dinode_of s (inum i)) i)\<lparr>ivalid := True\<rparr>)\<lparr>ilk := \<lparr>slocked = True, spid = curpid s\<rparr>\<rparr>)"

lemma ilock_ok:
  assumes s: "fs_ok s" "room s \<ge> 1 + int (card (locked_blocks s))"
    and i: "ip < length (inodes s)" "iref (inodes s ! ip) \<ge> 1" "\<not> slocked (ilk (inodes s ! ip))" "idev (inodes s ! ip) = 1"
      "iblock_ok s (inum (inodes s ! ip))" "itype (loaded s ip) \<noteq> 0"
  obtains u where "ilock ip s = Inr u" "fs_ok u" "fs_frame s u" "view u = view s" "room u = room s"
    "inodes u = (inodes s)[ip := loaded s ip]"
proof -
  define t where "t = upd_inode ip (ilk_update (\<lambda>_. \<lparr>slocked = True, spid = curpid s\<rparr>)) s"
  have l: "acquiresleep (curpid s) (ilk (inodes s ! ip)) = Inr \<lparr>slocked = True, spid = curpid s\<rparr>"
    using i(3) by (simp add: acquiresleep_def)
  have ti: "inodes t ! ip = (inodes s ! ip)\<lparr>ilk := \<lparr>slocked = True, spid = curpid s\<rparr>\<rparr>"
    using i(1) by (simp add: t_def)
  show ?thesis
  proof (cases "ivalid (inodes s ! ip)")
    case True
    then have "ilock ip s = Inr t"
      unfolding ilock_def l bindE_Inr Let_def t_def [symmetric] using i(2) ti by simp
    moreover have "inodes t = (inodes s)[ip := loaded s ip]"
      using True by (simp add: t_def loaded_def Let_def)
    ultimately show ?thesis
      using that [of t] s(1) by (simp add: t_def)
  next
    case False
    let ?n = "inum (inodes s ! ip)"
    obtain j t' u where u: "bread 1 (IBLOCK ?n (sb t)) t = Inr (j, t')" "bdata j t' = view t (IBLOCK ?n (sb t))"
      "rest t' = rest t" "brelse j t' = Inr u" "fs_ok u" "log_frame t u" "view u = view t" "room u = room t"
      by (rule read_step [of t "IBLOCK ?n (sb t)"]) (use s i(5) in \<open>simp_all add: t_def iblock_ok_def\<close>)
    have ni: "inodes t' = inodes t" "inodes u = inodes t"
      using rest_logst_eq [OF u(3)] log_frame_sb(2) [OF u(6)] by (cases t, cases t', simp)+
    define f where "f = load_dinode (dinode_of s ?n)"
    define v where "v = upd_inode ip (ivalid_update (\<lambda>_. True)) (u\<lparr>inodes := (inodes t)[ip := f (inodes t ! ip)]\<rparr>)"
    have b: "brelse j (upd_inode ip f t') = Inr (u\<lparr>inodes := (inodes t)[ip := f (inodes t ! ip)]\<rparr>)"
      using brelse_inodes [OF u(4)] by (simp add: upd_inode_def ni)
    have iv: "inodes v = (inodes s)[ip := loaded s ip]"
      using i(1) False by (cases "inodes s ! ip") (simp add: v_def t_def f_def loaded_def load_dinode_def Let_def)
    have d: "get_dinode (dip ?n) (bdata j t') = dinode_of s ?n"
      using u(2) by (simp add: dinode_of_def t_def)
    have nz: "itype (inodes v ! ip) \<noteq> 0"
      using i(1,6) iv by simp
    have "ilock ip s = bindE (brelse j (upd_inode ip f t')) (\<lambda>s. let s = upd_inode ip (ivalid_update (\<lambda>_. True)) s in
        if itype (inodes s ! ip) = 0 then Inl (Panic ''ilock: no type'') else Inr s)"
      unfolding ilock_def l bindE_Inr Let_def t_def [symmetric] using i(2,4) False ti u(1) d by (simp add: f_def)
    then have "ilock ip s = Inr v"
      unfolding b bindE_Inr Let_def v_def [symmetric] using nz by simp
    moreover have "fs_frame s v"
    proof -
      have "log_frame (t\<lparr>inodes := inodes v\<rparr>) (u\<lparr>inodes := inodes v\<rparr>)"
        by (rule log_frame_inodes [OF u(6)])
      moreover have "u\<lparr>inodes := inodes v\<rparr> = v" "t\<lparr>inodes := inodes v\<rparr> = s\<lparr>inodes := inodes v\<rparr>"
        by (simp_all add: v_def t_def upd_inode_def)
      ultimately show ?thesis
        by (simp add: fs_frame_def)
    qed
    moreover have "fs_ok v" "view v = view s" "room v = room s"
      using u(5,7,8) by (simp_all add: v_def) (simp_all add: t_def)
    ultimately show ?thesis
      using that [of v] iv by blast
  qed
qed

lemma truncate_load_dinode [simp]: "dinode.truncate (load_dinode d i) = d"
  by (cases d) (simp add: load_dinode_def dinode.truncate_def)

lemma truncate_upd [simp]:
  "dinode.truncate (i\<lparr>ivalid := b\<rparr>) = dinode.truncate i" "dinode.truncate (i\<lparr>ilk := l\<rparr>) = dinode.truncate i"
  by (simp_all add: dinode.truncate_def)

lemma itype_truncate: "itype (dinode.truncate i) = itype i"
  by (simp add: dinode.truncate_def)

text \<open>
  C21: The inode cache is write-through: after \<^verbatim>\<open>iupdate\<close> of an inode that is allocated, every later use that
  finds the cache entry invalid (the entry was recycled in between) gets back with \<^verbatim>\<open>ilock\<close> exactly the type,
  device numbers, link count, size and block addresses that were in memory, locked and valid; the
  other inodes on disk, in the same block or elsewhere, are not touched, and nothing is written
  outside the log.
\<close>

theorem iupdate_ilock:
  assumes s: "fs_ok s" "room s \<ge> 2" "locked_blocks s = {}"
    and i: "ip < length (inodes s)" "idev (inodes s ! ip) = 1" "length (addrs (inodes s ! ip)) = NDIRECT + 1"
      "iblock_ok s (inum (inodes s ! ip))" "itype (inodes s ! ip) \<noteq> 0"
    and y: "idev y = 1" "inum y = inum (inodes s ! ip)" "iref y \<ge> 1" "\<not> slocked (ilk y)" "\<not> ivalid y"
  shows "\<exists>v u. iupdate ip s = Inr v \<and> (\<forall>m. m \<noteq> inum (inodes s ! ip) \<longrightarrow> dinode_of v m = dinode_of s m) \<and> disk v = disk s \<and>
    inodes v = inodes s \<and>
    ilock ip (upd_inode ip (\<lambda>_. y) v) = Inr u \<and> dinode.truncate (inodes u ! ip) = dinode.truncate (inodes s ! ip) \<and>
    holdingsleep (curpid s) (ilk (inodes u ! ip)) \<and> ivalid (inodes u ! ip)"
proof -
  have r: "room s \<ge> 1 + int (card (locked_blocks s))"
    using s(2,3) by simp
  obtain v where v: "iupdate ip s = Inr v" "fs_ok v" "log_frame s v" "room v \<ge> room s - 1"
    "\<forall>b. b \<noteq> IBLOCK (inum (inodes s ! ip)) (sb s) \<longrightarrow> view v b = view s b"
    "\<forall>m. dinode_of v m = (if m = inum (inodes s ! ip) then dinode.truncate (inodes s ! ip) else dinode_of s m)"
    by (rule iupdate_ok [OF s(1) r i(2-4)])
  note F = log_frame_fields [OF v(3)] and B = log_frame_sb [OF v(3)]
  let ?w = "upd_inode ip (\<lambda>_. y) v"
  have d: "dinode_of ?w (inum y) = dinode.truncate (inodes s ! ip)"
    using v(6) y(2) by (simp add: dinode_of_def)
  have L: "loaded ?w ip = (load_dinode (dinode.truncate (inodes s ! ip)) y)\<lparr>ivalid := True, ilk := \<lparr>slocked = True, spid = curpid s\<rparr>\<rparr>"
    using i(1) y(5) d B(2) F(7) by (simp add: loaded_def)
  have ib: "iblock_ok ?w (inum y)"
    using i(4) y(2) F B by (simp add: iblock_ok_def)
  have ty: "itype (loaded ?w ip) \<noteq> 0"
    using i(5) by (simp add: L load_dinode_def itype_truncate)
  obtain u where u: "ilock ip ?w = Inr u" "inodes u = (inodes ?w)[ip := loaded ?w ip]"
    by (rule ilock_ok [of ?w ip]) (use ib ty v(2,4) s(2,3) F(9) B i(1) y in simp_all)
  have "inodes u ! ip = loaded ?w ip"
    using u(2) i(1) B by simp
  then show ?thesis
    using v(1,6) F(11) B(2) u(1) by (intro exI [of _ v] exI [of _ u]) (simp add: L holdingsleep_def)
qed

definition demo_inode :: inode where
  "demo_inode = \<lparr>itype = 2, major = 0, minor = 0, nlink = 1, isize = 0, addrs = replicate 13 0, idev = 1, inum = 5, iref = 1,
     ilk = initsleeplock, ivalid = True\<rparr>"

lemma demo_inode_sel [simp]:
  "itype demo_inode = 2" "nlink demo_inode = 1" "isize demo_inode = 0" "addrs demo_inode = replicate 13 0" "idev demo_inode = 1"
  "inum demo_inode = 5" "iref demo_inode = 1" "ilk demo_inode = initsleeplock" "ivalid demo_inode"
  by (simp_all add: demo_inode_def)

lemma demo_disk_length: "length (demo_disk b) = BSIZE"
  by (simp add: demo_disk_def demo_map(2))

theorem iupdate_ilock_witness:
  "\<exists>v u. iupdate 0 (fs_boot demo_disk [demo_inode]) = Inr v \<and>
     ilock 0 (upd_inode 0 (\<lambda>_. demo_inode\<lparr>ivalid := False, isize := 7\<rparr>) v) = Inr u \<and> isize (inodes u ! 0) = 0"
proof -
  let ?s = "fs_boot demo_disk [demo_inode]"
  note B = fs_boot_ok [of demo_disk "[demo_inode]", OF demo_disk_length]
  have "IBLOCK 5 demo_sb = 32"
    by (simp add: IBLOCK_def demo_sb_def IPB_def BSIZE_def)
  then have "iblock_ok ?s 5"
    by (simp add: iblock_ok_def B)
  then have "\<exists>v u. iupdate 0 ?s = Inr v \<and> (\<forall>m. m \<noteq> inum (inodes ?s ! 0) \<longrightarrow> dinode_of v m = dinode_of ?s m) \<and> disk v = disk ?s \<and>
    inodes v = inodes ?s \<and>
    ilock 0 (upd_inode 0 (\<lambda>_. demo_inode\<lparr>ivalid := False, isize := 7\<rparr>) v) = Inr u \<and>
    dinode.truncate (inodes u ! 0) = dinode.truncate (inodes ?s ! 0) \<and>
    holdingsleep (curpid ?s) (ilk (inodes u ! 0)) \<and> ivalid (inodes u ! 0)"
    by (intro iupdate_ilock) (simp_all add: B NDIRECT_def initsleeplock_def)
  then show ?thesis
    by (auto simp: B dinode.truncate_def)
qed

theorem iget_unique_witness:
  "icache_inv (fs_boot demo_disk (replicate NINODE (demo_inode\<lparr>iref := 0\<rparr>))) \<and>
   (\<exists>i t. iget 1 9 (fs_boot demo_disk (replicate NINODE (demo_inode\<lparr>iref := 0\<rparr>))) = Inr (i, t) \<and> icache_inv t)"
proof -
  let ?s = "fs_boot demo_disk (replicate NINODE (demo_inode\<lparr>iref := 0\<rparr>))"
  note B = fs_boot_ok [of demo_disk "replicate NINODE (demo_inode\<lparr>iref := 0\<rparr>)", OF demo_disk_length]
  have i: "icache_inv ?s"
    by (simp add: icache_inv_def B)
  have n: "\<not> (\<forall>i<NINODE. iref (inodes ?s ! i) > 0 \<and> (idev (inodes ?s ! i) \<noteq> 1 \<or> inum (inodes ?s ! i) \<noteq> 9))"
    unfolding B(6) by (auto intro!: exI [of _ 0] simp: NINODE_def)
  show ?thesis
    using iget_unique [OF i, of 1 9] i n by (cases "iget 1 9 ?s") auto
qed

end
