(* ===== verification/Fs_files.thy ===== *)
theory Fs_files
  imports Fs_inodes
begin

text \<open>
  The contents of files: the map from the blocks of a file to blocks of the disk, reading, and directory
  lookup.
\<close>

unbundle bit_operations_syntax

section \<open>Blocks of a file\<close>

text \<open>The block number of block \<^verbatim>\<open>bn\<close> of the file, 0 if there is none.\<close>

definition fblock :: "'a fsst_scheme \<Rightarrow> nat \<Rightarrow> nat \<Rightarrow> uint" where
  "fblock s ip bn =
     (let as = addrs (inodes s ! ip) in
      if bn < NDIRECT then as ! bn
      else if as ! NDIRECT = 0 then 0
      else get32 (4 * (bn - NDIRECT)) (view s (as ! NDIRECT)))"

definition usable :: "'a fsst_scheme \<Rightarrow> uint \<Rightarrow> bool" where
  "usable s b \<longleftrightarrow> b \<noteq> 0 \<and> b < disksize s \<and> b \<notin> locked_blocks s"

text \<open>
  A file whose blocks up to its size are there, on the device of the file system.
\<close>

definition file_ok :: "'a fsst_scheme \<Rightarrow> nat \<Rightarrow> bool" where
  "file_ok s ip \<longleftrightarrow> (let i = inodes s ! ip in
     idev i = 1 \<and> itype i \<noteq> T_DEV \<and> length (addrs i) = NDIRECT + 1 \<and> unat (isize i) \<le> MAXFILE * BSIZE \<and>
     (\<forall>bn. bn * BSIZE < unat (isize i) \<longrightarrow> usable s (fblock s ip bn)) \<and>
     (NDIRECT * BSIZE < unat (isize i) \<longrightarrow> usable s (addrs i ! NDIRECT)))"

text \<open>The bytes of the file from \<^verbatim>\<open>off\<close> on.\<close>

definition fbyte :: "'a fsst_scheme \<Rightarrow> nat \<Rightarrow> nat \<Rightarrow> uchar" where
  "fbyte s ip k = view s (fblock s ip (k div BSIZE)) ! (k mod BSIZE)"

definition fbytes :: "'a fsst_scheme \<Rightarrow> nat \<Rightarrow> nat \<Rightarrow> nat \<Rightarrow> uchar list" where
  "fbytes s ip off n = map (fbyte s ip) [off..<off + n]"

lemma file_ok_cong:
  assumes "file_ok s ip" "inodes t = inodes s" "view t = view s" "disksize t = disksize s" "locked_blocks t = locked_blocks s"
  shows "file_ok t ip" "fblock t ip = fblock s ip" "fbyte t ip = fbyte s ip" "fbytes t ip = fbytes s ip"
proof -
  show b: "fblock t ip = fblock s ip"
    by (rule ext) (simp add: fblock_def assms(2,3) Let_def)
  show c: "fbyte t ip = fbyte s ip"
    by (rule ext) (simp add: fbyte_def b assms(3))
  show "fbytes t ip = fbytes s ip"
    by (intro ext) (simp add: fbytes_def c)
  show "file_ok t ip"
    using assms b by (simp add: file_ok_def usable_def Let_def)
qed

text \<open>\<^verbatim>\<open>bmap\<close> of a block that is there changes nothing.\<close>

lemma bmap_there:
  assumes s: "fs_ok s" "room s \<ge> 1 + int (card (locked_blocks s))" and f: "file_ok s ip"
    and bn: "bn * BSIZE < unat (isize (inodes s ! ip))"
  obtains u where "bmap ip bn s = Inr (fblock s ip bn, u)" "fs_ok u" "log_frame s u" "view u = view s" "room u = room s"
proof -
  have i: "idev (inodes s ! ip) = 1" and b: "fblock s ip bn \<noteq> 0"
    using f bn by (auto simp: file_ok_def Let_def usable_def)
  have m: "bn < MAXFILE"
    using f bn by (auto simp: file_ok_def Let_def BSIZE_def)
  show ?thesis
  proof (cases "bn < NDIRECT")
    case True
    then show ?thesis
      using that [of s] s(1) b by (simp add: bmap_def fblock_def Let_def)
  next
    case False
    let ?a = "addrs (inodes s ! ip) ! NDIRECT"
    have "NDIRECT * BSIZE < unat (isize (inodes s ! ip))"
      using False bn by (metis le_less_trans mult_le_mono1 not_less)
    then have a: "usable s ?a"
      using f by (simp add: file_ok_def Let_def)
    obtain j t u where u: "bread 1 ?a s = Inr (j, t)" "bdata j t = view s ?a" "rest t = rest s" "brelse j t = Inr u"
      "fs_ok u" "log_frame s u" "view u = view s" "room u = room s"
      by (rule read_step [OF s, of ?a]) (use a in \<open>auto simp: usable_def\<close>)
    have "bmap ip bn s = Inr (fblock s ip bn, u)"
      using False m i a b u(1,2,4) by (simp add: bmap_def fblock_def Let_def usable_def MAXFILE_def)
    then show ?thesis
      using that u by blast
  qed
qed

lemma fbytes_split: "m \<le> n \<Longrightarrow> fbytes s ip off n = fbytes s ip off m @ fbytes s ip (off + m) (n - m)"
  using upt_add_eq_append [of off "off + m" "n - m"] by (simp add: fbytes_def)

lemma fbytes_in_block:
  assumes "off mod BSIZE + m \<le> BSIZE" "length (view s (fblock s ip (off div BSIZE))) = BSIZE"
  shows "take m (drop (off mod BSIZE) (view s (fblock s ip (off div BSIZE)))) = fbytes s ip off m"
proof (rule nth_equalityI)
  show "length (take m (drop (off mod BSIZE) (view s (fblock s ip (off div BSIZE))))) = length (fbytes s ip off m)"
    using assms by (simp add: fbytes_def)
  fix k assume "k < length (take m (drop (off mod BSIZE) (view s (fblock s ip (off div BSIZE)))))"
  then have k: "k < m"
    by simp
  have p: "0 < BSIZE"
    by (simp add: BSIZE_def)
  have lt: "off mod BSIZE + k < BSIZE"
    using k assms(1) by simp
  have e: "off + k = (off mod BSIZE + k) + BSIZE * (off div BSIZE)"
    using mod_mult_div_eq [of off BSIZE] by linarith
  have "(off + k) div BSIZE = off div BSIZE" "(off + k) mod BSIZE = off mod BSIZE + k"
    unfolding e using div_mult_self2 [of BSIZE "off mod BSIZE + k" "off div BSIZE"] lt p
    by (simp_all only: div_less mod_mult_self2 mod_less)
  then show "take m (drop (off mod BSIZE) (view s (fblock s ip (off div BSIZE)))) ! k = fbytes s ip off m ! k"
    using k lt assms(2) by (simp add: fbytes_def fbyte_def)
qed

lemma readi_loop_ok:
  assumes "fs_ok s" "room s \<ge> 1 + int (card (locked_blocks s))" "file_ok s ip" "off + n \<le> unat (isize (inodes s ! ip))"
  shows "\<exists>u. readi_loop ip off n s = Inr (fbytes s ip off n, u) \<and> fs_ok u \<and> log_frame s u \<and> view u = view s \<and> room u = room s"
  using assms
proof (induction n arbitrary: off s rule: less_induct)
  case (less n)
  show ?case
  proof (cases "n = 0")
    case True
    then show ?thesis
      using less.prems(1) by (subst readi_loop.simps) (simp add: fbytes_def)
  next
    case False
    let ?bn = "off div BSIZE" and ?m = "min n (BSIZE - off mod BSIZE)"
    have p: "off mod BSIZE < BSIZE"
      by (simp add: BSIZE_def)
    have m: "0 < ?m" "?m \<le> n" "off mod BSIZE + ?m \<le> BSIZE"
      using False p by auto
    have bn: "?bn * BSIZE < unat (isize (inodes s ! ip))"
      using less.prems(4) False div_times_less_eq_dividend [of off BSIZE] by linarith
    obtain t where t: "bmap ip ?bn s = Inr (fblock s ip ?bn, t)" "fs_ok t" "log_frame s t" "view t = view s" "room t = room s"
      by (rule bmap_there [OF less.prems(1-3) bn])
    note F = log_frame_fields [OF t(3)] and B = log_frame_sb [OF t(3)]
    note C = file_ok_cong [OF less.prems(3) B(2) t(4) F(4,9)]
    have us: "usable s (fblock s ip ?bn)" and dv: "idev (inodes t ! ip) = 1"
      using less.prems(3) bn B(2) by (auto simp: file_ok_def Let_def)
    obtain j t' u where u: "bread 1 (fblock s ip ?bn) t = Inr (j, t')" "bdata j t' = view t (fblock s ip ?bn)" "rest t' = rest t"
      "brelse j t' = Inr u" "fs_ok u" "log_frame t u" "view u = view t" "room u = room t"
      by (rule read_step [OF t(2), of "fblock s ip ?bn"]) (use us F t(5) less.prems(2) in \<open>auto simp: usable_def\<close>)
    note G = log_frame_fields [OF u(6)] and D = log_frame_sb [OF u(6)]
    note E = file_ok_cong [OF C(1) D(2) u(7) G(4,9)]
    obtain v where v: "readi_loop ip (off + ?m) (n - ?m) u = Inr (fbytes u ip (off + ?m) (n - ?m), v)" "fs_ok v" "log_frame u v"
      "view v = view u" "room v = room u"
      using less.IH [of "n - ?m" u "off + ?m"] m u(5) E(1) less.prems(2,4) t(5) u(8) F G B D by auto
    have bs: "take ?m (drop (off mod BSIZE) (bdata j t')) = fbytes s ip off ?m"
      unfolding u(2) t(4) by (rule fbytes_in_block [OF m(3) view_length [OF fs_ok_cache [OF less.prems(1)]]])
    have "readi_loop ip off n s = Inr (fbytes s ip off n, v)"
      using False t(1) dv u(1,4) bs v(1) E(4) C(4) fbytes_split [OF m(2), of s ip off]
      by (subst readi_loop.simps) (simp add: Let_def)
    then show ?thesis
      using v t u log_frame_trans [OF log_frame_trans [OF t(3) u(6)] v(3)] by auto
  qed
qed

section \<open>Reading\<close>

lemma sint_of_nat_small: "k < 2147483648 \<Longrightarrow> sint (of_nat k :: uint) = int k"
  by (simp add: signed_of_nat signed_take_bit_int_eq_self)

lemma sint_uint_small: "unat (n :: uint) < 2147483648 \<Longrightarrow> sint n = int (unat n)"
proof -
  assume a: "unat n < 2147483648"
  have "of_nat (unat n) = n"
    by simp
  then show ?thesis
    using sint_of_nat_small [OF a] by (simp only:)
qed

lemma add_overflow: "(a :: uint) + b < a \<longleftrightarrow> unat a + unat b \<ge> 4294967296"
proof (cases "unat a + unat b < 4294967296")
  case True
  then show ?thesis
    using unat_add_uint [of a b] by (simp add: word_less_nat_alt)
next
  case False
  have b: "unat a < 4294967296" "unat b < 4294967296"
    by (rule unat_uint_less)+
  have "unat (a + b) = (unat a + unat b) mod 4294967296"
    by (simp add: unat_word_ariths)
  also have "\<dots> = unat a + unat b - 4294967296"
    using False b le_mod_geq [of 4294967296 "unat a + unat b"] mod_less [of "unat a + unat b - 4294967296" 4294967296]
    by linarith
  finally show ?thesis
    using False b unfolding word_less_nat_alt by linarith
qed

text \<open>What a read is to return: the bytes of the file, cut off at its end.\<close>

definition read_result :: "'a fsst_scheme \<Rightarrow> nat \<Rightarrow> uint \<Rightarrow> uint \<Rightarrow> int \<times> uchar list" where
  "read_result s ip off n =
     (let sz = unat (isize (inodes s ! ip)) in
      if sz < unat off \<or> unat off + unat n \<ge> 4294967296 then (- 1, [])
      else let m = min (unat n) (sz - unat off) in (int m, fbytes s ip (unat off) m))"

lemma readi_ok:
  assumes s: "fs_ok s" "room s \<ge> 1 + int (card (locked_blocks s))" and f: "file_ok s ip"
  obtains u where "readi dsw ip off n s = Inr (fst (read_result s ip off n), snd (read_result s ip off n), u)"
    "fs_ok u" "log_frame s u" "view u = view s" "room u = room s"
proof -
  let ?sz = "unat (isize (inodes s ! ip))"
  have t: "itype (inodes s ! ip) \<noteq> T_DEV" and z: "?sz \<le> MAXFILE * BSIZE"
    using f by (auto simp: file_ok_def Let_def)
  have ov: "off + n < off \<longleftrightarrow> unat off + unat n \<ge> 4294967296"
    by (rule add_overflow)
  show ?thesis
  proof (cases "?sz < unat off \<or> unat off + unat n \<ge> 4294967296")
    case True
    then have "readi dsw ip off n s = Inr (- 1, [], s)"
      using t ov by (auto simp: readi_def Let_def word_less_nat_alt)
    then show ?thesis
      using that [of s] True s(1) by (simp add: read_result_def Let_def)
  next
    case False
    define m where "m = (if off + n > isize (inodes s ! ip) then isize (inodes s ! ip) - off else n)"
    have un: "unat (off + n) = unat off + unat n"
      using False unat_add_uint [of off n] by simp
    have m: "unat m = min (unat n) (?sz - unat off)"
      using False un unat_sub_uint [of off "isize (inodes s ! ip)"] by (auto simp: m_def word_less_nat_alt word_le_nat_alt)
    then have "unat m < 2147483648" and r2: "unat off + unat m \<le> ?sz"
      using False z by (auto simp: MAXFILE_def NDIRECT_def NINDIRECT_def BSIZE_def)
    note r = sint_uint_small [OF this(1)] r2
    obtain u where u: "readi_loop ip (unat off) (unat m) s = Inr (fbytes s ip (unat off) (unat m), u)" "fs_ok u" "log_frame s u"
      "view u = view s" "room u = room s"
      using readi_loop_ok [OF s f r(2)] by blast
    have "readi dsw ip off n s = Inr (int (unat m), fbytes s ip (unat off) (unat m), u)"
      unfolding readi_def Let_def m_def [symmetric] using t ov False u(1) r(1) by (simp add: word_less_nat_alt)
    moreover have "read_result s ip off n = (int (unat m), fbytes s ip (unat off) (unat m))"
      unfolding read_result_def Let_def m using False by simp
    ultimately show ?thesis
      using that [of u] u by simp
  qed
qed

text \<open>
  C22: \<^verbatim>\<open>readi\<close> of a well-formed file returns exactly the bytes of the file from the offset on, cut off at the
  end of the file, through direct and indirect blocks alike, and counts them; an offset behind the
  end, or an offset and length that overflow, give -1; nothing that processes see changes, no block
  is allocated, and no lock is left.
\<close>

theorem readi_reads:
  assumes s: "fs_ok s" "room s \<ge> 1" "locked_blocks s = {}" and f: "file_ok s ip"
  shows "\<exists>bs u. readi dsw ip off n s = Inr (if unat (isize (inodes s ! ip)) < unat off \<or> unat off + unat n \<ge> 4294967296 then - 1
        else int (min (unat n) (unat (isize (inodes s ! ip)) - unat off)), bs, u) \<and>
      bs = (if unat (isize (inodes s ! ip)) < unat off \<or> unat off + unat n \<ge> 4294967296 then []
        else map (\<lambda>k. view s (fblock s ip (k div BSIZE)) ! (k mod BSIZE))
          [unat off..<unat off + min (unat n) (unat (isize (inodes s ! ip)) - unat off)]) \<and>
      view u = view s \<and> disk u = disk s \<and> inodes u = inodes s \<and> locked_blocks u = {} \<and> fs_ok u"
proof -
  have r: "room s \<ge> 1 + int (card (locked_blocks s))"
    using s(2,3) by simp
  obtain u where u: "readi dsw ip off n s = Inr (fst (read_result s ip off n), snd (read_result s ip off n), u)"
    "fs_ok u" "log_frame s u" "view u = view s" "room u = room s"
    by (rule readi_ok [OF s(1) r f])
  show ?thesis
    using u log_frame_fields(9,11) [OF u(3)] log_frame_sb(2) [OF u(3)] s(3)
    by (auto simp: read_result_def Let_def fbytes_def fbyte_def)
qed

definition demo_file :: inode where
  "demo_file = demo_inode\<lparr>isize := 3, addrs := (replicate 13 0)[0 := 600]\<rparr>"

lemma demo_file_sel [simp]:
  "itype demo_file = 2" "isize demo_file = 3" "addrs demo_file = (replicate 13 0)[0 := 600]" "idev demo_file = 1"
  by (simp_all add: demo_file_def)

lemma demo_file_ok: "file_ok (fs_boot demo_disk [demo_file]) 0"
proof -
  note B = fs_boot_ok [of demo_disk "[demo_file]", OF demo_disk_length]
  have "usable (fs_boot demo_disk [demo_file]) (fblock (fs_boot demo_disk [demo_file]) 0 bn)" if "bn * BSIZE < 3" for bn
    using that by (cases bn) (auto simp: BSIZE_def usable_def fblock_def NDIRECT_def B)
  then show ?thesis
    by (auto simp: file_ok_def Let_def B T_DEV_def MAXFILE_def NDIRECT_def NINDIRECT_def BSIZE_def)
qed

theorem readi_reads_witness:
  "\<exists>u. readi (\<lambda>_. (None, None)) 0 1 100 (fs_boot demo_disk [demo_file]) = Inr (2, [0, 0], u)"
proof -
  let ?s = "fs_boot demo_disk [demo_file]"
  note B = fs_boot_ok [of demo_disk "[demo_file]", OF demo_disk_length]
  have z: "isize (inodes ?s ! 0) = 3" "fblock ?s 0 0 = 600"
    by (simp_all add: B fblock_def NDIRECT_def)
  have v: "view ?s 600 = replicate BSIZE 0"
    by (simp add: B demo_disk_def)
  have e: "[1..<1 + min 100 (3 - 1)] = [1, 2 :: nat]"
    by (simp add: upt_rec)
  have "room ?s \<ge> 1"
    by (simp add: B)
  from readi_reads [OF B(1) this B(4) demo_file_ok, of "\<lambda>_. (None, None)" 1 100]
  show ?thesis
    by (auto simp: z e v BSIZE_def)
qed

section \<open>Directories\<close>

lemma strncmp_str_0:
  "strncmp_str n p q = 0 \<longleftrightarrow> take n (takeWhile (\<lambda>c. c \<noteq> 0) p) = take n (takeWhile (\<lambda>c. c \<noteq> 0) q)"
proof (induction n p q rule: strncmp_str.induct)
  case (2 n p q)
  then show ?case
    by (cases p; cases q) (auto simp: Let_def word_uint_eq_iff)
qed simp

text \<open>Two names that \<^verbatim>\<open>namecmp\<close> takes for the same: they agree up to their first NUL or their first 14 bytes.\<close>

definition same_name :: "uchar list \<Rightarrow> uchar list \<Rightarrow> bool" where
  "same_name p q \<longleftrightarrow> take DIRSIZ (takeWhile (\<lambda>c. c \<noteq> 0) p) = take DIRSIZ (takeWhile (\<lambda>c. c \<noteq> 0) q)"

lemma namecmp_same: "namecmp p q = 0 \<longleftrightarrow> same_name p q"
  by (simp add: namecmp_def same_name_def strncmp_str_0)

definition dirent_at :: "'a fsst_scheme \<Rightarrow> nat \<Rightarrow> nat \<Rightarrow> dirent" where
  "dirent_at s dp k = get_dirent (fbytes s dp (16 * k) 16)"

definition nents :: "'a fsst_scheme \<Rightarrow> nat \<Rightarrow> nat" where
  "nents s dp = unat (isize (inodes s ! dp)) div 16"

definition dir_ok :: "'a fsst_scheme \<Rightarrow> nat \<Rightarrow> bool" where
  "dir_ok s dp \<longleftrightarrow> file_ok s dp \<and> itype (inodes s ! dp) = T_DIR \<and> 16 dvd unat (isize (inodes s ! dp))"

lemma dir_cong:
  assumes "dir_ok s dp" "inodes t = inodes s" "view t = view s" "disksize t = disksize s" "locked_blocks t = locked_blocks s"
  shows "dir_ok t dp" "dirent_at t dp = dirent_at s dp" "nents t dp = nents s dp"
  using assms file_ok_cong [OF _ assms(2-5), of dp] by (auto simp: dir_ok_def dirent_at_def nents_def fun_eq_iff)

text \<open>Reading one entry.\<close>

lemma read_dirent:
  assumes s: "fs_ok s" "room s \<ge> 1 + int (card (locked_blocks s))" and d: "dir_ok s dp" and k: "k < nents s dp"
  obtains bs u where "readi dsw dp (of_nat (16 * k)) 16 s = Inr (16, bs, u)" "get_dirent bs = dirent_at s dp k"
    "fs_ok u" "log_frame s u" "view u = view s" "room u = room s"
proof -
  let ?sz = "unat (isize (inodes s ! dp))"
  have f: "file_ok s dp" and z: "16 * k + 16 \<le> ?sz" "?sz \<le> 71680"
    using d k by (auto simp: dir_ok_def nents_def file_ok_def Let_def MAXFILE_def NDIRECT_def NINDIRECT_def BSIZE_def elim!: dvdE)
  have u: "unat (of_nat (16 * k) :: uint) = 16 * k"
    by (rule unat_of_nat_uint) (use z in linarith)
  have r: "read_result s dp (of_nat (16 * k)) 16 = (16, fbytes s dp (16 * k) 16)"
    unfolding read_result_def Let_def u using z by simp
  obtain t where "readi dsw dp (of_nat (16 * k)) 16 s =
      Inr (fst (read_result s dp (of_nat (16 * k)) 16), snd (read_result s dp (of_nat (16 * k)) 16), t)"
    "fs_ok t" "log_frame s t" "view t = view s" "room t = room s"
    by (rule readi_ok [OF s f])
  then show ?thesis
    using that [of "fbytes s dp (16 * k) 16" t] unfolding r by (simp add: dirent_at_def)
qed

lemma dirlookup_loop_ok:
  assumes "fs_ok s" "room s \<ge> 1 + int (card (locked_blocks s))" "dir_ok s dp" "k \<le> nents s dp"
  shows "\<exists>u. fs_ok u \<and> log_frame s u \<and> view u = view s \<and> room u = room s \<and>
    dirlookup_loop dsw dp name (unat (isize (inodes s ! dp))) (16 * k) s =
      (case find (\<lambda>j. de_inum (dirent_at s dp j) \<noteq> 0 \<and> same_name name (de_name (dirent_at s dp j))) [k..<nents s dp] of
         None \<Rightarrow> Inr (None, u)
       | Some j \<Rightarrow> bindE (iget 1 (ucast (de_inum (dirent_at s dp j))) u) (\<lambda>(ip, t). Inr (Some (ip, 16 * j), t)))"
  using assms
proof (induction "nents s dp - k" arbitrary: k s)
  case 0
  then have "\<not> 16 * k < unat (isize (inodes s ! dp))"
    by (auto simp: nents_def dir_ok_def elim!: dvdE)
  then show ?case
    using 0 by (intro exI [of _ s]) (subst dirlookup_loop.simps, simp)
next
  case (Suc n)
  have k: "k < nents s dp"
    using Suc.hyps(2) by simp
  have off: "16 * k < unat (isize (inodes s ! dp))"
    using k by (auto simp: nents_def)
  obtain bs u where u: "readi dsw dp (of_nat (16 * k)) 16 s = Inr (16, bs, u)" "get_dirent bs = dirent_at s dp k"
    "fs_ok u" "log_frame s u" "view u = view s" "room u = room s"
    by (rule read_dirent [OF Suc.prems(1-3) k])
  note F = log_frame_fields [OF u(4)] and B = log_frame_sb [OF u(4)]
  note D = dir_cong [OF Suc.prems(3) B(2) u(5) F(4,9)]
  have l: "[k..<nents s dp] = k # [Suc k..<nents s dp]"
    using k by (simp add: upt_conv_Cons)
  have dv: "idev (inodes u ! dp) = 1"
    using D(1) by (simp add: dir_ok_def file_ok_def Let_def)
  let ?hit = "de_inum (dirent_at s dp k) \<noteq> 0 \<and> same_name name (de_name (dirent_at s dp k))"
  have step: "dirlookup_loop dsw dp name (unat (isize (inodes s ! dp))) (16 * k) s =
      (if ?hit then bindE (iget 1 (ucast (de_inum (dirent_at s dp k))) u) (\<lambda>(ip, t). Inr (Some (ip, 16 * k), t))
       else dirlookup_loop dsw dp name (unat (isize (inodes u ! dp))) (16 * Suc k) u)"
    using off u(1,2) dv B(2) by (subst dirlookup_loop.simps) (simp add: namecmp_same Let_def add.commute)
  show ?case
  proof (cases ?hit)
    case True
    then show ?thesis
      using step l u by (intro exI [of _ u]) simp
  next
    case False
    have h: "n = nents u dp - Suc k" "Suc k \<le> nents u dp" "room u \<ge> 1 + int (card (locked_blocks u))"
      using Suc.hyps(2) Suc.prems(2) k D(3) F(9) u(6) by auto
    obtain v where v: "fs_ok v" "log_frame u v" "view v = view u" "room v = room u"
      "dirlookup_loop dsw dp name (unat (isize (inodes u ! dp))) (16 * Suc k) u =
        (case find (\<lambda>j. de_inum (dirent_at u dp j) \<noteq> 0 \<and> same_name name (de_name (dirent_at u dp j))) [Suc k..<nents u dp] of
           None \<Rightarrow> Inr (None, v)
         | Some j \<Rightarrow> bindE (iget 1 (ucast (de_inum (dirent_at u dp j))) v) (\<lambda>(ip, t). Inr (Some (ip, 16 * j), t)))"
      using Suc.hyps(1) [OF h(1) u(3) h(3) D(1) h(2)] by blast
    have "find (\<lambda>j. de_inum (dirent_at s dp j) \<noteq> 0 \<and> same_name name (de_name (dirent_at s dp j))) [k..<nents s dp] =
        find (\<lambda>j. de_inum (dirent_at s dp j) \<noteq> 0 \<and> same_name name (de_name (dirent_at s dp j))) [Suc k..<nents s dp]"
      using False l by auto
    then show ?thesis
      using step False v(1,3,4) v(5) [unfolded D(2,3)] u(5,6) log_frame_trans [OF u(4) v(2)] by (intro exI [of _ v]) simp
  qed
qed

text \<open>
  C23: \<^verbatim>\<open>dirlookup\<close> in a well-formed directory finds the first entry in use whose name agrees with the given
  one up to the first NUL or 14 bytes, and gets a reference to its inode together with the offset of
  the entry; without such an entry it says so.  It changes nothing on the disk, leaves no block locked
  and, apart from the reference, leaves the inode cache alone.
\<close>

theorem dirlookup_first:
  assumes s: "fs_ok s" "room s \<ge> 1" "locked_blocks s = {}" and d: "dir_ok s dp"
  shows "\<exists>u. fs_ok u \<and> view u = view s \<and> inodes u = inodes s \<and> disk u = disk s \<and> locked_blocks u = {} \<and>
    dirlookup dsw dp name s =
      (case find (\<lambda>j. de_inum (dirent_at s dp j) \<noteq> 0 \<and> same_name name (de_name (dirent_at s dp j))) [0..<nents s dp] of
         None \<Rightarrow> Inr (None, u)
       | Some j \<Rightarrow> bindE (iget 1 (ucast (de_inum (dirent_at s dp j))) u) (\<lambda>(ip, t). Inr (Some (ip, 16 * j), t)))"
proof -
  have r: "room s \<ge> 1 + int (card (locked_blocks s))"
    using s(2,3) by simp
  obtain u where u: "fs_ok u" "log_frame s u" "view u = view s" "room u = room s"
    "dirlookup_loop dsw dp name (unat (isize (inodes s ! dp))) (16 * 0) s =
      (case find (\<lambda>j. de_inum (dirent_at s dp j) \<noteq> 0 \<and> same_name name (de_name (dirent_at s dp j))) [0..<nents s dp] of
         None \<Rightarrow> Inr (None, u)
       | Some j \<Rightarrow> bindE (iget 1 (ucast (de_inum (dirent_at s dp j))) u) (\<lambda>(ip, t). Inr (Some (ip, 16 * j), t)))"
    using dirlookup_loop_ok [OF s(1) r d, of 0 dsw name] by auto
  have "itype (inodes s ! dp) = T_DIR"
    using d by (simp add: dir_ok_def)
  then show ?thesis
    using u log_frame_fields(9,11) [OF u(2)] log_frame_sb(2) [OF u(2)] s(3)
    by (intro exI [of _ u]) (simp add: dirlookup_def)
qed


definition dir_disk :: "uint \<Rightarrow> block" where
  "dir_disk b = (if b = 600 then [7, 0, 97] @ replicate 509 0 else demo_disk b)"

definition demo_dir :: inode where
  "demo_dir = demo_inode\<lparr>itype := 1, isize := 16, addrs := (replicate 13 0)[0 := 600]\<rparr>"

lemma demo_dir_sel [simp]:
  "itype demo_dir = 1" "isize demo_dir = 16" "addrs demo_dir = (replicate 13 0)[0 := 600]" "idev demo_dir = 1"
  by (simp_all add: demo_dir_def)

lemma dir_disk_length: "length (dir_disk b) = BSIZE"
  by (simp add: dir_disk_def demo_disk_length BSIZE_def)

lemma demo_dir_ok: "dir_ok (fs_boot dir_disk [demo_dir]) 0"
proof -
  note B = fs_boot_ok [of dir_disk "[demo_dir]", OF dir_disk_length]
  have "usable (fs_boot dir_disk [demo_dir]) (fblock (fs_boot dir_disk [demo_dir]) 0 bn)" if "bn * BSIZE < 16" for bn
    using that by (cases bn) (auto simp: BSIZE_def usable_def fblock_def NDIRECT_def B)
  then show ?thesis
    by (auto simp: dir_ok_def file_ok_def Let_def B T_DEV_def T_DIR_def MAXFILE_def NDIRECT_def NINDIRECT_def BSIZE_def)
qed

lemma demo_dirent: "dirent_at (fs_boot dir_disk [demo_dir]) 0 0 = \<lparr>de_inum = 7, de_name = 97 # replicate 13 0\<rparr>"
proof -
  note B = fs_boot_ok [of dir_disk "[demo_dir]", OF dir_disk_length]
  have z: "fblock (fs_boot dir_disk [demo_dir]) 0 0 = 600"
    by (simp add: B fblock_def NDIRECT_def)
  have v: "view (fs_boot dir_disk [demo_dir]) 600 = [7, 0, 97] @ replicate 509 0"
    by (simp add: B dir_disk_def)
  have "fbytes (fs_boot dir_disk [demo_dir]) 0 0 16 = take 16 ([7, 0, 97] @ replicate 509 0)"
    unfolding fbytes_def by (rule nth_equalityI) (auto simp: fbyte_def z v BSIZE_def nth_Cons split: nat.split)
  also have "\<dots> = [7, 0, 97] @ replicate 13 0"
    by simp
  finally have "fbytes (fs_boot dir_disk [demo_dir]) 0 0 16 = [7, 0, 97] @ replicate 13 0" .
  then show ?thesis
    by (simp add: dirent_at_def get_dirent_def get16_def DIRSIZ_def)
qed

theorem dirlookup_first_witness:
  "\<exists>u. dirlookup (\<lambda>_. (None, None)) 0 [97] (fs_boot dir_disk [demo_dir]) =
     bindE (iget 1 7 u) (\<lambda>(ip, t). Inr (Some (ip, 0), t))"
proof -
  let ?s = "fs_boot dir_disk [demo_dir]"
  note B = fs_boot_ok [of dir_disk "[demo_dir]", OF dir_disk_length]
  have n: "nents ?s 0 = 1"
    by (simp add: nents_def B)
  have "room ?s \<ge> 1"
    by (simp add: B)
  from dirlookup_first [OF B(1) this B(4) demo_dir_ok, of "\<lambda>_. (None, None)" "[97]"]
  show ?thesis
    by (auto simp: n demo_dirent same_name_def DIRSIZ_def)
qed

section \<open>Path names\<close>

text \<open>
  A path name split at its slashes, and the elements that repeated calls of \<^verbatim>\<open>skipelem\<close>, as \<^verbatim>\<open>namex\<close> makes
  them, take from it.
\<close>

fun splits :: "uchar list \<Rightarrow> uchar list list" where
  "splits [] = [[]]"
| "splits (c # p) = (if c = 47 then [] # splits p else (c # hd (splits p)) # tl (splits p))"

function path_names :: "uchar list \<Rightarrow> uchar list list" where
  "path_names path = (case skipelem path of None \<Rightarrow> [] | Some (name, path') \<Rightarrow> name # path_names path')"
  by auto
termination
  by (relation "measure length") (auto dest: skipelem_shorter)

declare path_names.simps [simp del]

lemma splits_skip: "filter (\<lambda>e. e \<noteq> []) (splits (dropWhile (\<lambda>c. c = 47) p)) = filter (\<lambda>e. e \<noteq> []) (splits p)"
  by (induction p) auto

lemma splits_elem:
  "hd (splits p) = takeWhile (\<lambda>c. c \<noteq> 47) p"
  "filter (\<lambda>e. e \<noteq> []) (splits (dropWhile (\<lambda>c. c \<noteq> 47) p)) = filter (\<lambda>e. e \<noteq> []) (tl (splits p))"
  by (induction p) auto

lemma splits_Cons: "splits p = hd (splits p) # tl (splits p)"
  by (induction p) auto

text \<open>
  C24: walking a path with \<^verbatim>\<open>skipelem\<close> visits exactly its non-empty elements, in order, each cut to
  \<^verbatim>\<open>DIRSIZ\<close> bytes: leading, trailing and repeated slashes make no difference, and the walk ends.
\<close>

theorem skipelem_elements: "path_names path = map (take DIRSIZ) (filter (\<lambda>e. e \<noteq> []) (splits path))"
proof (induction path rule: path_names.induct)
  case (1 path)
  define q where "q = dropWhile (\<lambda>c. c = 47) path"
  have f: "filter (\<lambda>e. e \<noteq> []) (splits path) = filter (\<lambda>e. e \<noteq> []) (splits q)"
    by (simp add: q_def splits_skip)
  show ?case
  proof (cases "q = []")
    case True
    then have "skipelem path = None"
      by (simp add: skipelem_def q_def [symmetric])
    then show ?thesis
      using f True by (subst path_names.simps) simp
  next
    case False
    let ?r = "dropWhile (\<lambda>c. c = 47) (dropWhile (\<lambda>c. c \<noteq> 47) q)"
    have k: "skipelem path = Some (take DIRSIZ (takeWhile (\<lambda>c. c \<noteq> 47) q), ?r)"
      using False by (simp add: skipelem_def q_def [symmetric])
    have "hd q \<noteq> 47"
      using False hd_dropWhile [of "\<lambda>c. c = 47" path] by (simp add: q_def)
    then have "takeWhile (\<lambda>c. c \<noteq> 47) q \<noteq> []"
      using False by (cases q) auto
    then have "filter (\<lambda>e. e \<noteq> []) (splits q) = takeWhile (\<lambda>c. c \<noteq> 47) q # filter (\<lambda>e. e \<noteq> []) (splits ?r)"
      by (subst splits_Cons) (simp add: splits_elem splits_skip)
    then show ?thesis
      using 1 [OF k refl] f by (subst path_names.simps) (simp add: k)
  qed
qed

end
