(* ===== verification/Vm_spaces.thy ===== *)
theory Vm_spaces
  imports Vm_c
begin

text \<open>
  Page directories as translations (\<^verbatim>\<open>vm.c\<close>): the entries of directories and tables as words of memory, the
  page table entry of an address as a function, well-formed directories beside the free list, and
  what \<^verbatim>\<open>walkpgdir\<close> and \<^verbatim>\<open>mappages\<close> do to the translation.
\<close>

unbundle bit_operations_syntax

section \<open>Entries of a page directory or table\<close>

abbreviation present :: "uint \<Rightarrow> bool" where
  "present e \<equiv> e AND PTE_P \<noteq> 0"

definition slot :: "addr \<Rightarrow> nat \<Rightarrow> addr" where
  "slot p i = p + 4 * of_nat i"

abbreviation pdx :: "addr \<Rightarrow> nat" where "pdx va \<equiv> unat (PDX va)"
abbreviation ptx :: "addr \<Rightarrow> nat" where "ptx va \<equiv> unat (PTX va)"

lemma pde_at_slot: "pde_at d va = slot d (pdx va)" and pte_at_slot: "pte_at d va = slot d (ptx va)"
  by (simp_all add: pde_at_def pte_at_def slot_def)

lemma mask10: "(0x3FF :: uint) = mask 10"
  by (simp add: mask_eq_exp_minus_1)

lemma pdx_nat: "pdx va = unat va div 4194304" and ptx_nat: "ptx va = unat va div 4096 mod 1024"
proof -
  have "unat va div 4194304 < 1024"
    using unat_uint_less [of va] by linarith
  then show "pdx va = unat va div 4194304"
    by (simp add: PDX_def mask10 take_bit_eq_mask [symmetric] drop_bit_eq_div unat_div unat_mod take_bit_eq_mod)
  show "ptx va = unat va div 4096 mod 1024"
    by (simp add: PTX_def mask10 take_bit_eq_mask [symmetric] drop_bit_eq_div unat_div unat_mod take_bit_eq_mod)
qed

lemma pdx_less [simp]: "pdx va < 1024"
  unfolding pdx_nat using unat_uint_less [of va] by linarith

lemma ptx_less [simp]: "ptx va < 1024"
  by (simp add: ptx_nat)

text \<open>Two addresses are in the same page exactly if they have the same indices.\<close>

definition same_page :: "addr \<Rightarrow> addr \<Rightarrow> bool" where
  "same_page a b \<longleftrightarrow> unat a div 4096 = unat b div 4096"

lemma same_page_iff: "same_page a b \<longleftrightarrow> pdx a = pdx b \<and> ptx a = ptx b"
proof -
  have "n div 4096 = n div 4194304 * 1024 + n div 4096 mod 1024" for n :: nat
    using div_mult_mod_eq [of "n div 4096" 1024] by (simp add: div_mult2_eq [symmetric])
  from this [of "unat a"] this [of "unat b"] show ?thesis
    by (auto simp: same_page_def pdx_nat ptx_nat)
qed

lemma aligned_room: "aligned p \<Longrightarrow> unat p + 4096 \<le> 4294967296"
proof -
  assume "aligned p"
  then obtain k where k: "unat p = 4096 * k"
    by (auto simp: aligned_def)
  then have "k < 1048576"
    using unat_uint_less [of p] by linarith
  then show ?thesis
    unfolding k by linarith
qed

lemma slot_nat: "aligned p \<Longrightarrow> i < 1024 \<Longrightarrow> unat (slot p i) = unat p + 4 * i"
  using aligned_room [of p] unat_add_uint [of p "of_nat (4 * i)"] unat_of_nat_uint [of "4 * i"]
  by (simp add: slot_def)

lemma slot_mod4: "aligned p \<Longrightarrow> i < 1024 \<Longrightarrow> unat (slot p i) mod 4 = 0"
proof -
  assume a: "aligned p" "i < 1024"
  then obtain k where "unat p = 4096 * k"
    by (auto simp: aligned_def)
  then have "unat p + 4 * i = 4 * (1024 * k + i)"
    by simp
  then show ?thesis
    using slot_nat [OF a] by (metis mod_mult_self1_is_0)
qed

lemma word_byte: "unat (a :: addr) mod 4 = 0 \<Longrightarrow> k < 4 \<Longrightarrow> unat (a + of_nat k) = unat a + k"
proof -
  assume a: "unat a mod 4 = 0" "k < 4"
  have "unat a + 4 \<le> 4294967296"
    using a(1) unat_uint_less [of a] by presburger
  then show ?thesis
    using a(2) unat_add_uint [of a "of_nat k"] unat_of_nat_uint [of k] by simp
qed

lemma word_bytes_apart:
  assumes "unat (a :: addr) mod 4 = 0" "unat b mod 4 = 0" "a \<noteq> b" "k < 4" "l < 4"
  shows "a + of_nat k \<noteq> b + of_nat l"
proof
  assume e: "a + of_nat k = b + of_nat l"
  have "unat a + k = unat b + l"
    using word_byte [OF assms(1,4)] word_byte [OF assms(2,5)] e by simp
  then have "unat a = unat b"
    using assms(1,2,4,5) by presburger
  then show False
    using assms(3) by (simp add: word_unat_eq_iff)
qed

lemma ld32_st32_other:
  assumes "unat a mod 4 = 0" "unat b mod 4 = 0" "a \<noteq> b"
  shows "ld32 (st32 m a v) b = ld32 m b"
proof -
  have n: "a + of_nat k \<noteq> b + of_nat l" if "k \<in> {0, 1, 2, 3}" "l \<in> {0, 1, 2, 3}" for k l
    using word_bytes_apart [OF assms, of k l] that by auto
  have "st32 m a v (b + of_nat l) = m (b + of_nat l)" if "l \<in> {0, 1, 2, 3}" for l
    using n [of 0 l] n [of 1 l] n [of 2 l] n [of 3 l] that by (simp add: st32_def)
  from this [of 0] this [of 1] this [of 2] this [of 3] show ?thesis
    by (simp add: ld32_def)
qed

lemma pte_slot_inj: "aligned p \<Longrightarrow> aligned q \<Longrightarrow> i < 1024 \<Longrightarrow> j < 1024 \<Longrightarrow> slot p i = slot q j \<longleftrightarrow> p = q \<and> i = j"
proof
  assume a: "aligned p" "aligned q" "i < 1024" "j < 1024" and e: "slot p i = slot q j"
  obtain k l where k: "unat p = 4096 * k" "unat q = 4096 * l"
    using a by (auto simp: aligned_def elim!: dvdE)
  have "4096 * k + 4 * i = 4096 * l + 4 * j"
    using slot_nat [OF a(1,3)] slot_nat [OF a(2,4)] e k by simp
  moreover from this have "k = l"
    using a(3,4) by (cases k l rule: linorder_cases) linarith+
  ultimately have "k = l \<and> i = j"
    by simp
  then show "p = q \<and> i = j"
    using k by (simp add: word_unat_eq_iff)
qed simp

lemma ld32_st32_slot:
  "aligned p \<Longrightarrow> aligned q \<Longrightarrow> i < 1024 \<Longrightarrow> j < 1024 \<Longrightarrow>
   ld32 (st32 m (slot p i) v) (slot q j) = (if p = q \<and> i = j then v else ld32 m (slot q j))"
  using ld32_st32_other [of "slot p i" "slot q j" m v] by (auto simp: pte_slot_inj slot_mod4)

lemma slot_in_page:
  assumes "aligned p" "i < 1024" "k < 4"
  shows "in_range (slot p i + of_nat k) p 4096"
proof -
  have u: "unat (slot p i + of_nat k) = unat p + 4 * i + k"
    using word_byte [OF slot_mod4 [OF assms(1,2)] assms(3)] slot_nat [OF assms(1,2)] by simp
  obtain m where "unat p = 4096 * m"
    using assms(1) by (auto simp: aligned_def)
  then show ?thesis
    unfolding in_own_page [OF assms(1)] u using assms(2,3) by simp
qed

lemma ld32_slot_cong:
  assumes "aligned p" "i < 1024" "\<And>x. in_range x p 4096 \<Longrightarrow> m' x = m x"
  shows "ld32 m' (slot p i) = ld32 m (slot p i)"
proof -
  have "m' (slot p i + of_nat k) = m (slot p i + of_nat k)" if "k < 4" for k
    by (rule assms(3) [OF slot_in_page [OF assms(1,2) that]])
  from this [of 0] this [of 1] this [of 2] this [of 3] show ?thesis
    by (simp add: ld32_def)
qed

lemma st32_slot_frame:
  assumes "aligned p" "i < 1024" "\<not> in_range x p 4096"
  shows "st32 m (slot p i) v x = m x"
proof -
  have "x \<noteq> slot p i + of_nat k" if "k < 4" for k
    using slot_in_page [OF assms(1,2) that] assms(3) by auto
  from this [of 0] this [of 1] this [of 2] this [of 3] show ?thesis
    by (simp add: st32_def)
qed

lemma memset_page: "memset m p c PGSIZE = (\<lambda>x. if in_range x p 4096 then ucast c else m x)"
  by (simp add: memset_is_stosb stosb_eq PGSIZE_def)

lemma ld32_zero_page: "aligned p \<Longrightarrow> i < 1024 \<Longrightarrow> ld32 (memset m p 0 PGSIZE) (slot p i) = 0"
  using slot_in_page [of p i 0] slot_in_page [of p i 1] slot_in_page [of p i 2] slot_in_page [of p i 3]
  by (simp add: ld32_def memset_page)

text \<open>An entry made of an aligned address and flags.\<close>

lemma aligned_bits: "aligned a \<longleftrightarrow> a AND 0xFFF = 0"
proof -
  have "a AND 0xFFF = take_bit 12 a"
    by (simp add: take_bit_eq_mask mask_eq_exp_minus_1)
  then show ?thesis
    by (simp add: aligned_def word_unat_eq_iff unat_mod take_bit_eq_mod)
qed

lemma or_split:
  fixes a f M :: uint
  assumes "a AND M = 0" "f AND NOT M = 0"
  shows "(a OR f) AND NOT M = a" "(a OR f) AND M = f"
proof -
  have "\<not> bit (a AND M) n" "\<not> bit (f AND NOT M) n" for n
    by (simp_all add: assms)
  then have z: "bit a n \<Longrightarrow> \<not> bit M n" "bit f n \<Longrightarrow> bit M n" for n
    using bit_imp_le_length [of f n] by (auto simp: bit_and_iff bit_not_iff)
  show "(a OR f) AND NOT M = a" "(a OR f) AND M = f"
    by (rule bit_word_eqI; use z in \<open>auto simp: bit_and_iff bit_or_iff bit_not_iff\<close>)+
qed

lemma PTE_ADDR_or:
  "aligned a \<Longrightarrow> f AND NOT 0xFFF = 0 \<Longrightarrow> PTE_ADDR (a OR f) = a"
  "aligned a \<Longrightarrow> f AND NOT 0xFFF = 0 \<Longrightarrow> PTE_FLAGS (a OR f) = f"
  unfolding PTE_ADDR_def PTE_FLAGS_def aligned_bits by (rule or_split; assumption)+

lemma aligned_V2P: "aligned p \<Longrightarrow> aligned (V2P p)"
proof -
  assume "aligned p"
  moreover have "(0x80000000 :: uint) AND 0xFFF = 0"
    by simp
  ultimately show ?thesis
    by (auto simp: aligned_def V2P_def KERNBASE_def unat_sub_if' elim!: dvdE)
qed

section \<open>Address spaces\<close>

text \<open>
  The page table of a directory entry, the page table entry of an address (0 when there is no page
  table for it), and the tables of a directory.
\<close>

definition tab :: "mem \<Rightarrow> addr \<Rightarrow> nat \<Rightarrow> addr" where
  "tab m d i = P2V (PTE_ADDR (ld32 m (slot d i)))"

definition has_tab :: "mem \<Rightarrow> addr \<Rightarrow> nat \<Rightarrow> bool" where
  "has_tab m d i \<longleftrightarrow> i < 1024 \<and> present (ld32 m (slot d i))"

definition tables :: "mem \<Rightarrow> addr \<Rightarrow> addr set" where
  "tables m d = tab m d ` {i. has_tab m d i}"

definition entry :: "mem \<Rightarrow> addr \<Rightarrow> addr \<Rightarrow> uint" where
  "entry m d va = (if has_tab m d (pdx va) then ld32 m (slot (tab m d (pdx va)) (ptx va)) else 0)"

text \<open>
  A well-formed directory beside the free pages \<^verbatim>\<open>ps\<close>: it and its tables are different pages of the
  allocator and none of them is free.
\<close>

definition space :: "'a kmem_scheme \<Rightarrow> addr list \<Rightarrow> addr \<Rightarrow> bool" where
  "space s ps d \<longleftrightarrow> kpool s ps \<and> kowned s d \<and> d \<notin> set ps \<and>
     (\<forall>t \<in> tables (kmemory s) d. kowned s t \<and> t \<noteq> d \<and> t \<notin> set ps) \<and>
     inj_on (tab (kmemory s) d) {i. has_tab (kmemory s) d i}"

text \<open>Memory may change only in the pages of \<^verbatim>\<open>D\<close>.\<close>

definition only_in :: "addr set \<Rightarrow> mem \<Rightarrow> mem \<Rightarrow> bool" where
  "only_in D m m' \<longleftrightarrow> (\<forall>x. (\<forall>p \<in> D. \<not> in_range x p 4096) \<longrightarrow> m' x = m x)"

lemma only_in_refl [simp]: "only_in D m m"
  by (simp add: only_in_def)

lemma only_in_trans: "only_in D m m' \<Longrightarrow> only_in E m' m'' \<Longrightarrow> only_in (D \<union> E) m m''"
  by (simp add: only_in_def)

lemma only_in_mono: "only_in D m m' \<Longrightarrow> D \<subseteq> E \<Longrightarrow> only_in E m m'"
  by (auto simp: only_in_def)

lemma only_in_page:
  assumes "only_in D m m'" "\<forall>p \<in> D. aligned p" "aligned q" "q \<notin> D" "in_range x q 4096"
  shows "m' x = m x"
proof -
  have "\<not> in_range x p 4096" if "p \<in> D" for p
    using pages_disjoint [of q p x] assms that by blast
  then show ?thesis
    using assms(1) by (simp add: only_in_def)
qed

lemma only_in_slot:
  assumes "only_in D m m'" "\<forall>p \<in> D. aligned p" "aligned q" "q \<notin> D" "i < 1024"
  shows "ld32 m' (slot q i) = ld32 m (slot q i)"
  by (rule ld32_slot_cong [OF assms(3,5)]) (rule only_in_page [OF assms(1-4)])

lemma only_in_st32: "aligned p \<Longrightarrow> i < 1024 \<Longrightarrow> only_in {p} m (st32 m (slot p i) v)"
  by (simp add: only_in_def st32_slot_frame)

lemma only_in_memset: "only_in {p} m (memset m p c PGSIZE)"
  by (simp add: only_in_def memset_page)

lemma present_odd: "present e \<longleftrightarrow> odd e"
  by (simp add: PTE_P_def and_one_eq even_iff_mod_2_eq_zero)

lemma present_or [simp]: "(a OR f) AND PTE_P = 0 \<longleftrightarrow> a AND PTE_P = 0 \<and> f AND PTE_P = 0"
  using present_odd [of "a OR f"] present_odd [of a] present_odd [of f] by (auto simp: even_or_iff)

lemma PTE_P_not_0 [simp]: "PTE_P \<noteq> 0"
  by (simp add: PTE_P_def)

text \<open>The free list does not mind changes elsewhere.\<close>

lemma kpool_only_in:
  assumes "kpool s ps" "only_in D (kmemory s) m" "\<forall>p \<in> D. aligned p \<and> p \<notin> set ps"
  shows "kpool (s\<lparr>kmemory := m\<rparr>) ps"
proof -
  have a: "aligned p" if "p \<in> set ps" for p
    using assms(1) that kowned_aligned by (auto simp: kpool_def)
  have "\<forall>p \<in> set ps. aligned p \<and> (\<forall>x. in_range x p 4096 \<longrightarrow> m x = kmemory s x)"
    using a only_in_page [OF assms(2)] assms(3) by blast
  then have "linked m (freelist s) ps"
    using linked_frame [of "kmemory s" "freelist s" ps m] assms(1) by (auto simp: kpool_def)
  then show ?thesis
    using assms(1) by (simp add: kpool_def kowned_def lock_free_def)
qed

lemma kowned_kmemory [simp]: "kowned (s\<lparr>kmemory := m\<rparr>) = kowned s"
  by (simp add: kowned_def fun_eq_iff)

lemma tables_I: "has_tab m d i \<Longrightarrow> tab m d i \<in> tables m d"
  by (auto simp: tables_def)

text \<open>Changing an entry of a table.\<close>

lemma space_set_entry:
  fixes v :: uint
  assumes s: "space s ps d" and h: "has_tab (kmemory s) d (pdx va)"
  defines "m \<equiv> st32 (kmemory s) (slot (tab (kmemory s) d (pdx va)) (ptx va)) v"
  shows "space (s\<lparr>kmemory := m\<rparr>) ps d" "entry m d vb = (if same_page va vb then v else entry (kmemory s) d vb)"
    "tables m d = tables (kmemory s) d" "has_tab m d = has_tab (kmemory s) d"
proof -
  let ?m = "kmemory s" let ?t = "tab ?m d (pdx va)"
  have t: "kowned s ?t" "?t \<noteq> d" "?t \<notin> set ps" "aligned ?t" "aligned d"
    using s tables_I [OF h] kowned_aligned by (auto simp: space_def)
  have o: "only_in {?t} ?m m"
    unfolding m_def by (rule only_in_st32) (simp_all add: t)
  have e: "ld32 m (slot d i) = ld32 ?m (slot d i)" if "i < 1024" for i
    by (rule only_in_slot [OF o]) (use t that in auto)
  then have ht: "has_tab m d = has_tab ?m d" and tt: "\<And>i. i < 1024 \<Longrightarrow> tab m d i = tab ?m d i"
    by (auto simp: has_tab_def tab_def fun_eq_iff)
  then show "has_tab m d = has_tab (kmemory s) d" and tb: "tables m d = tables ?m d"
    by (auto simp: tables_def has_tab_def intro!: image_cong)
  have "inj_on (tab m d) {i. has_tab m d i} \<longleftrightarrow> inj_on (tab ?m d) {i. has_tab ?m d i}"
    unfolding ht by (rule inj_on_cong) (simp add: has_tab_def tt)
  moreover have "kpool (s\<lparr>kmemory := m\<rparr>) ps"
    by (rule kpool_only_in [OF _ o]) (use s t in \<open>auto simp: space_def\<close>)
  ultimately show "space (s\<lparr>kmemory := m\<rparr>) ps d"
    using s tb by (simp add: space_def)
  show "entry m d vb = (if same_page va vb then v else entry ?m d vb)"
  proof (cases "has_tab ?m d (pdx vb)")
    case True
    have b: "aligned (tab ?m d (pdx vb))"
      using s tables_I [OF True] kowned_aligned by (auto simp: space_def)
    have "tab ?m d (pdx va) = tab ?m d (pdx vb) \<longleftrightarrow> pdx va = pdx vb"
      using s h True by (auto simp: space_def inj_on_def)
    then show ?thesis
      using True ld32_st32_slot [OF t(4) b, of "ptx va" "ptx vb" ?m v, folded m_def]
      by (simp add: entry_def ht tt same_page_iff)
  next
    case False
    then show ?thesis
      using h by (auto simp: entry_def ht same_page_iff)
  qed
qed

text \<open>A new, empty table.\<close>

lemma space_new_table:
  assumes s: "space s ps d" and p: "kowned s p" "p \<noteq> d" "p \<notin> set ps" "p \<notin> tables (kmemory s) d"
    and h: "\<not> has_tab (kmemory s) d i" and i: "i < 1024"
  defines "m \<equiv> st32 (memset (kmemory s) p 0 PGSIZE) (slot d i) (V2P p OR PTE_P OR PTE_W OR PTE_U)"
  shows "space (s\<lparr>kmemory := m\<rparr>) ps d" "entry m d = entry (kmemory s) d" "has_tab m d i" "tab m d i = p"
    "tables m d = insert p (tables (kmemory s) d)" "only_in {d, p} (kmemory s) m" "has_tab m d j \<longleftrightarrow> j = i \<or> has_tab (kmemory s) d j"
proof -
  let ?m = "kmemory s" let ?z = "memset ?m p 0 PGSIZE" let ?e = "V2P p OR PTE_P OR PTE_W OR PTE_U"
  have a: "aligned p" "aligned d"
    using s p kowned_aligned by (auto simp: space_def)
  have f: "PTE_P OR PTE_W OR PTE_U = 7" "(7 :: uint) AND NOT 0xFFF = 0"
    by (simp_all add: pte_bits)
  have e: "PTE_ADDR ?e = V2P p" "present ?e"
    using PTE_ADDR_or(1) [OF aligned_V2P [OF a(1)] f(2)] f(1) by (simp add: or.assoc) simp
  show "only_in {d, p} ?m m"
    unfolding m_def using only_in_trans [OF only_in_memset only_in_st32 [OF a(2) i]] by (rule only_in_mono) auto
  have dj: "ld32 m (slot d j) = (if j = i then ?e else ld32 ?m (slot d j))" if "j < 1024" for j
    using ld32_st32_slot [OF a(2,2) i that, of ?z ?e, folded m_def] only_in_slot [OF only_in_memset _ a(2) _ that, of p ?m 0] a p(2)
    by auto
  show hi: "has_tab m d i" and ti: "tab m d i = p"
    using i e by (simp_all add: has_tab_def tab_def dj)
  have ht: "has_tab m d j \<longleftrightarrow> j = i \<or> has_tab ?m d j" for j
    using i e dj by (auto simp: has_tab_def split: if_splits)
  then show "has_tab m d j \<longleftrightarrow> j = i \<or> has_tab ?m d j" .
  have tt: "tab m d j = (if j = i then p else tab ?m d j)" if "j < 1024" for j
    using that e by (simp add: tab_def dj)
  have S: "{j. has_tab m d j} = insert i {j. has_tab ?m d j}"
    using ht by auto
  have T: "tab m d j = tab ?m d j" if "has_tab ?m d j" for j
    using that tt [of j] h by (auto simp: has_tab_def)
  then have I: "tab m d ` {j. has_tab ?m d j} = tables ?m d"
    by (auto simp: tables_def)
  then show tb: "tables m d = insert p (tables ?m d)"
    unfolding tables_def S by (simp add: ti)
  have "inj_on (tab m d) {j. has_tab ?m d j} \<longleftrightarrow> inj_on (tab ?m d) {j. has_tab ?m d j}"
    by (rule inj_on_cong) (simp add: T)
  then have "inj_on (tab m d) {j. has_tab m d j}"
    unfolding S using s p(4) h I by (simp add: ti space_def)
  moreover have "kpool (s\<lparr>kmemory := m\<rparr>) ps"
    by (rule kpool_only_in [OF _ \<open>only_in {d, p} ?m m\<close>]) (use s p a in \<open>auto simp: space_def\<close>)
  ultimately show "space (s\<lparr>kmemory := m\<rparr>) ps d"
    using s p tb by (auto simp: space_def)
  have "entry m d vb = entry ?m d vb" for vb
  proof (cases "pdx vb = i")
    case True
    have "ld32 m (slot p (ptx vb)) = 0"
      using ld32_st32_slot [OF a(2,1) i ptx_less, of ?z ?e, folded m_def] ld32_zero_page [OF a(1) ptx_less] p(2)
      by auto
    then show ?thesis
      using True h hi ti by (simp add: entry_def)
  next
    case False
    have "ld32 m (slot (tab ?m d (pdx vb)) (ptx vb)) = ld32 ?m (slot (tab ?m d (pdx vb)) (ptx vb))"
      if g: "has_tab ?m d (pdx vb)"
      by (rule only_in_slot [OF \<open>only_in {d, p} ?m m\<close>])
        (use s a p tables_I [OF g] kowned_aligned in \<open>auto simp: space_def\<close>)
    then show ?thesis
      using False by (auto simp: entry_def ht tt)
  qed
  then show "entry m d = entry ?m d"
    by (simp add: fun_eq_iff)
qed

section \<open>Walking and mapping\<close>

text \<open>
  What operations that only add to a directory do: it stays well-formed, the pages taken from the
  free list have become tables, and memory changes in the directory and its tables only.
\<close>

definition grows :: "addr \<Rightarrow> 'a kmem_scheme \<Rightarrow> addr list \<Rightarrow> 'a kmem_scheme \<Rightarrow> addr list \<Rightarrow> bool" where
  "grows d s ps s' qs \<longleftrightarrow> space s' qs d \<and> kowned s' = kowned s \<and>
     (\<exists>us. ps = us @ qs \<and> tables (kmemory s') d = tables (kmemory s) d \<union> set us) \<and>
     only_in (insert d (tables (kmemory s') d)) (kmemory s) (kmemory s')"

lemma grows_refl: "space s ps d \<Longrightarrow> grows d s ps s ps"
  by (simp add: grows_def)

lemma grows_trans:
  assumes "grows d s ps s' qs" "grows d s' qs t rs"
  shows "grows d s ps t rs"
proof -
  obtain us vs where u: "ps = us @ qs" "tables (kmemory s') d = tables (kmemory s) d \<union> set us"
      "qs = vs @ rs" "tables (kmemory t) d = tables (kmemory s') d \<union> set vs"
    using assms by (auto simp: grows_def)
  have o: "only_in (insert d (tables (kmemory s') d)) (kmemory s) (kmemory s')"
      "only_in (insert d (tables (kmemory t) d)) (kmemory s') (kmemory t)"
    using assms by (simp_all add: grows_def)
  have "only_in (insert d (tables (kmemory t) d)) (kmemory s) (kmemory t)"
    by (rule only_in_mono [OF only_in_trans [OF o]]) (use u(4) in auto)
  then show ?thesis
    using assms u by (auto simp: grows_def intro!: exI [of _ "us @ vs"])
qed

lemma slot_not_null: "kowned s p \<Longrightarrow> i < 1024 \<Longrightarrow> slot p i \<noteq> 0"
  using slot_nat [OF kowned_aligned, of s p i] kowned_range [of s p] by auto

lemma space_kalloc:
  assumes "space s (p # ps) d"
  obtains s' where "kalloc s = Inr (p, s')" "space s' ps d" "kmemory s' = kmemory s" "kowned s' = kowned s"
    "kowned s p" "p \<noteq> d" "p \<notin> set ps" "p \<notin> tables (kmemory s) d"
proof -
  have k: "kpool s (p # ps)"
    using assms by (simp add: space_def)
  obtain s' where "kalloc s = Inr (p, s')" "kpool s' ps" "kmemory s' = kmemory s" "kowned s' = kowned s"
    using ka.alloc_page [OF k] by blast
  then show ?thesis
    using that [of s'] assms ka.pool_wf [OF k] by (auto simp: space_def)
qed

lemma space_kalloc_empty:
  assumes "space s [] d"
  obtains s' where "kalloc s = Inr (0, s')" "space s' [] d" "kmemory s' = kmemory s" "kowned s' = kowned s"
proof -
  obtain s' where "kalloc s = Inr (0, s')" "kpool s' []" "kmemory s' = kmemory s" "kowned s' = kowned s"
    using ka.alloc_empty [of s] assms by (auto simp: space_def)
  then show ?thesis
    using that [of s'] assms by (auto simp: space_def)
qed

lemma walk_found:
  "has_tab (kmemory s) d (pdx va) \<Longrightarrow> walkpgdir d va al s = Inr (slot (tab (kmemory s) d (pdx va)) (ptx va), s)"
  by (simp add: walkpgdir_def pde_at_slot pte_at_slot has_tab_def tab_def)

lemma walk_none: "\<not> has_tab (kmemory s) d (pdx va) \<Longrightarrow> walkpgdir d va False s = Inr (0, s)"
  by (simp add: walkpgdir_def pde_at_slot has_tab_def)

lemma walk_ok:
  assumes s: "space s ps d"
  obtains r t qs where "walkpgdir d va True s = Inr (r, t)" "grows d s ps t qs" "entry (kmemory t) d = entry (kmemory s) d"
    "r = 0 \<longrightarrow> qs = [] \<and> \<not> has_tab (kmemory t) d (pdx va)"
    "r \<noteq> 0 \<longrightarrow> has_tab (kmemory t) d (pdx va) \<and> r = slot (tab (kmemory t) d (pdx va)) (ptx va)"
    "\<forall>i. has_tab (kmemory t) d i \<longrightarrow> has_tab (kmemory s) d i \<or> i = pdx va"
proof (cases "has_tab (kmemory s) d (pdx va)")
  case True
  have "slot (tab (kmemory s) d (pdx va)) (ptx va) \<noteq> 0"
    using s tables_I [OF True] slot_not_null [of s _ "ptx va"] by (auto simp: space_def)
  then show ?thesis
    using that [OF walk_found [OF True] grows_refl [OF s]] True by simp
next
  case False
  then have a: "walkpgdir d va True s = bindE (kalloc s) (\<lambda>(pgtab, s).
      if pgtab = 0 then Inr (0, s)
      else Inr (slot pgtab (ptx va), s\<lparr>kmemory := st32 (memset (kmemory s) pgtab 0 PGSIZE) (slot d (pdx va)) (V2P pgtab OR PTE_P OR PTE_W OR PTE_U)\<rparr>))"
    unfolding walkpgdir_def pde_at_slot pte_at_slot Let_def by (simp add: has_tab_def cong: if_cong)
  show ?thesis
  proof (cases ps)
    case Nil
    obtain t where t: "kalloc s = Inr (0, t)" "space t [] d" "kmemory t = kmemory s" "kowned t = kowned s"
      using space_kalloc_empty s Nil by blast
    show ?thesis
      by (rule that [of 0 t "[]"]) (use a t Nil False in \<open>auto simp: grows_def\<close>)
  next
    case (Cons p qs)
    obtain t where t: "kalloc s = Inr (p, t)" "space t qs d" "kmemory t = kmemory s" "kowned t = kowned s"
        "kowned s p" "p \<noteq> d" "p \<notin> set qs" "p \<notin> tables (kmemory s) d"
      using space_kalloc s Cons by metis
    let ?m = "st32 (memset (kmemory s) p 0 PGSIZE) (slot d (pdx va)) (V2P p OR PTE_P OR PTE_W OR PTE_U)"
    note N = space_new_table [OF t(2), of p "pdx va", unfolded t(3,4), OF t(5-8) False pdx_less]
    have w: "walkpgdir d va True s = Inr (slot p (ptx va), t\<lparr>kmemory := ?m\<rparr>)"
      using a t kowned_not_null [OF t(5)] by simp
    have g: "grows d s ps (t\<lparr>kmemory := ?m\<rparr>) qs"
      using N(1) N(5) only_in_mono [OF N(6), of "insert d (tables ?m d)"] t(4) Cons
      by (auto simp: grows_def intro!: exI [of _ "[p]"])
    show ?thesis
      by (rule that [OF w g]) (use N slot_not_null [OF t(5) ptx_less] in simp_all)
  qed
qed

abbreviation pg :: "addr \<Rightarrow> nat" where "pg a \<equiv> unat a div 4096"

text \<open>A map with \<^verbatim>\<open>j\<close> pages from \<^verbatim>\<open>a\<close> on mapped to the pages from \<^verbatim>\<open>pa\<close> on.\<close>

definition map_range :: "(addr \<Rightarrow> uint) \<Rightarrow> addr \<Rightarrow> nat \<Rightarrow> uint \<Rightarrow> uint \<Rightarrow> addr \<Rightarrow> uint" where
  "map_range e a j pa perm va =
     (if pg a \<le> pg va \<and> pg va < pg a + j then (pa + of_nat ((pg va - pg a) * 4096)) OR perm OR PTE_P else e va)"

lemma map_range_0 [simp]: "map_range e a 0 pa perm = e"
  by (auto simp: map_range_def fun_eq_iff)

lemma map_range_Suc:
  assumes "pg (a + PGSIZE) = Suc (pg a)"
  shows "map_range (\<lambda>vb. if same_page a vb then pa OR perm OR PTE_P else e vb) (a + PGSIZE) j (pa + PGSIZE) perm
    = map_range e a (Suc j) pa perm"
proof
  fix va
  have E: "pa + PGSIZE + of_nat ((pg va - Suc (pg a)) * 4096) = pa + of_nat ((pg va - pg a) * 4096)" if le: "Suc (pg a) \<le> pg va"
  proof -
    obtain k where k: "pg va = Suc (pg a) + k"
      using le_Suc_ex [OF le] by blast
    then have "pg va - pg a = Suc k" "pg va - Suc (pg a) = k"
      by simp_all
    then show ?thesis
      by (simp add: PGSIZE_def)
  qed
  show "map_range (\<lambda>vb. if same_page a vb then pa OR perm OR PTE_P else e vb) (a + PGSIZE) j (pa + PGSIZE) perm va
    = map_range e a (Suc j) pa perm va"
  proof (cases "Suc (pg a) \<le> pg va")
    case True
    then show ?thesis
      unfolding map_range_def assms same_page_def E [OF True] by auto
  qed (auto simp: map_range_def assms same_page_def)
qed

lemma pg_add: "unat a + 4096 * k < 4294967296 \<Longrightarrow> pg (a + of_nat (4096 * k)) = pg a + k"
  using unat_add_uint [of a "of_nat (4096 * k)"] unat_of_nat_uint [of "4096 * k"] by simp

lemma grows_set_entry:
  assumes g: "grows d s ps t qs" and h: "has_tab (kmemory t) d (pdx va)"
  shows "grows d s ps (t\<lparr>kmemory := st32 (kmemory t) (slot (tab (kmemory t) d (pdx va)) (ptx va)) v\<rparr>) qs"
proof -
  have s: "space t qs d"
    using g by (simp add: grows_def)
  have a: "aligned (tab (kmemory t) d (pdx va))"
    using s tables_I [OF h] kowned_aligned by (auto simp: space_def)
  have o: "only_in (insert d (tables (kmemory t) d)) (kmemory t) (st32 (kmemory t) (slot (tab (kmemory t) d (pdx va)) (ptx va)) v)"
    by (rule only_in_mono [OF only_in_st32 [OF a ptx_less]]) (simp add: tables_I [OF h])
  have "grows d t qs (t\<lparr>kmemory := st32 (kmemory t) (slot (tab (kmemory t) d (pdx va)) (ptx va)) v\<rparr>) qs"
    unfolding grows_def using space_set_entry(1,3) [OF s h, of v] o by simp
  then show ?thesis
    by (rule grows_trans [OF g])
qed

lemma mappages_step:
  assumes s: "space s ps d" and e: "\<not> present (entry (kmemory s) d a)"
  obtains (full) t where "mappages_loop n d a pa perm s = Inr (- 1, t)" "grows d s ps t []" "entry (kmemory t) d = entry (kmemory s) d"
      "\<forall>i. has_tab (kmemory t) d i \<longrightarrow> has_tab (kmemory s) d i \<or> i = pdx a" "\<not> has_tab (kmemory t) d (pdx a)"
  | (mapped) t qs where "mappages_loop n d a pa perm s =
        (case n of 0 \<Rightarrow> Inr (0, t) | Suc n \<Rightarrow> mappages_loop n d (a + PGSIZE) (pa + PGSIZE) perm t)"
      "grows d s ps t qs" "entry (kmemory t) d = (\<lambda>vb. if same_page a vb then pa OR perm OR PTE_P else entry (kmemory s) d vb)"
      "\<forall>i. has_tab (kmemory t) d i \<longrightarrow> has_tab (kmemory s) d i \<or> i = pdx a"
proof -
  obtain r t qs where w: "walkpgdir d a True s = Inr (r, t)" "grows d s ps t qs" "entry (kmemory t) d = entry (kmemory s) d"
      "r = 0 \<longrightarrow> qs = [] \<and> \<not> has_tab (kmemory t) d (pdx a)"
      "r \<noteq> 0 \<longrightarrow> has_tab (kmemory t) d (pdx a) \<and> r = slot (tab (kmemory t) d (pdx a)) (ptx a)"
      "\<forall>i. has_tab (kmemory t) d i \<longrightarrow> has_tab (kmemory s) d i \<or> i = pdx a"
    by (rule walk_ok [OF s])
  show ?thesis
  proof (cases "r = 0")
    case True
    show ?thesis
      by (rule full [of t]) (use w True in \<open>simp_all add: mappages_loop.simps [of n d a pa perm s]\<close>)
  next
    case False
    then have h: "has_tab (kmemory t) d (pdx a)" and r: "r = slot (tab (kmemory t) d (pdx a)) (ptx a)"
      using w(5) by auto
    have p: "\<not> present (ld32 (kmemory t) r)"
      using e h r by (simp add: w(3) [symmetric] entry_def)
    let ?u = "t\<lparr>kmemory := st32 (kmemory t) r (pa OR perm OR PTE_P)\<rparr>"
    have u: "mappages_loop n d a pa perm s =
        (case n of 0 \<Rightarrow> Inr (0, ?u) | Suc n \<Rightarrow> mappages_loop n d (a + PGSIZE) (pa + PGSIZE) perm ?u)"
      using w(1) False p by (simp add: mappages_loop.simps [of n d a pa perm s] Let_def)
    have st: "space t qs d"
      using w(2) by (simp add: grows_def)
    show ?thesis
    proof (rule mapped [OF u])
      show "grows d s ps ?u qs"
        unfolding r by (rule grows_set_entry [OF w(2) h])
      show "\<forall>i. has_tab (kmemory ?u) d i \<longrightarrow> has_tab (kmemory s) d i \<or> i = pdx a"
        unfolding r using space_set_entry(4) [OF st h, of "pa OR perm OR PTE_P"] w(6) by simp
      show "entry (kmemory ?u) d = (\<lambda>vb. if same_page a vb then pa OR perm OR PTE_P else entry (kmemory s) d vb)"
        unfolding r using space_set_entry(2) [OF st h, of "pa OR perm OR PTE_P"] w(3) by (simp add: fun_eq_iff)
    qed
  qed
qed

lemma map_range_1: "map_range e a (Suc 0) pa perm = (\<lambda>vb. if same_page a vb then pa OR perm OR PTE_P else e vb)"
  by (auto simp: map_range_def same_page_def fun_eq_iff)

text \<open>The directory entries a range of pages needs, from page \<^verbatim>\<open>g\<close> to page \<^verbatim>\<open>l\<close>, and whether all of them have a table.\<close>

lemma pdx_pg: "pdx va = pg va div 1024"
  by (simp add: pdx_nat div_mult2_eq [symmetric])

definition tabs_added :: "mem \<Rightarrow> mem \<Rightarrow> addr \<Rightarrow> nat \<Rightarrow> nat \<Rightarrow> bool" where
  "tabs_added m m' d g l \<longleftrightarrow> (\<forall>i. has_tab m' d i \<longrightarrow> has_tab m d i \<or> g div 1024 \<le> i \<and> i \<le> l div 1024)"

definition tab_missing :: "mem \<Rightarrow> addr \<Rightarrow> nat \<Rightarrow> nat \<Rightarrow> bool" where
  "tab_missing m d g l \<longleftrightarrow> (\<exists>h. g \<le> h \<and> h \<le> l \<and> \<not> has_tab m d (h div 1024))"

lemma tabs_added_one: "\<forall>i. has_tab m' d i \<longrightarrow> has_tab m d i \<or> i = pdx a \<Longrightarrow> pg a \<le> l \<Longrightarrow> tabs_added m m' d (pg a) l"
  by (auto simp: tabs_added_def pdx_pg intro: div_le_mono)

lemma tabs_added_trans: "tabs_added m m' d g l \<Longrightarrow> tabs_added m' m'' d (Suc g) l \<Longrightarrow> tabs_added m m'' d g l"
  unfolding tabs_added_def using div_le_mono [of g "Suc g" 1024] by (meson le_SucI order.refl order_trans)

lemma mappages_loop_ok:
  assumes "space s ps d" "unat a + 4096 * n < 4294967296"
    "\<forall>k \<le> n. \<not> present (entry (kmemory s) d (a + of_nat (4096 * k)))"
  shows "\<exists>r t qs j. mappages_loop n d a pa perm s = Inr (r, t) \<and> grows d s ps t qs \<and>
    entry (kmemory t) d = map_range (entry (kmemory s) d) a j pa perm \<and>
    (r = 0 \<and> j = Suc n \<or> r = - 1 \<and> j \<le> n \<and> qs = [] \<and> tab_missing (kmemory t) d (pg a) (pg a + n)) \<and>
    tabs_added (kmemory s) (kmemory t) d (pg a) (pg a + n)"
  using assms
proof (induction n arbitrary: a pa s ps)
  case (0 a pa s ps)
  then have e: "\<not> present (entry (kmemory s) d a)"
    by simp
  from 0(1) e show ?case
  proof (cases rule: mappages_step [where n = 0 and pa = pa and perm = perm])
    case (full t)
    then show ?thesis
      by (intro exI [of _ "- 1"] exI [of _ t] exI [of _ "[]"] exI [of _ 0])
        (auto simp: tabs_added_one tab_missing_def pdx_pg)
  next
    case (mapped t qs)
    then show ?thesis
      by (intro exI [of _ 0] exI [of _ t] exI [of _ qs] exI [of _ "Suc 0"]) (simp add: map_range_1 tabs_added_one)
  qed
next
  case (Suc n a pa s ps)
  have e: "\<not> present (entry (kmemory s) d a)"
    using spec [OF Suc.prems(3), of 0] by simp
  from Suc.prems(1) e show ?case
  proof (cases rule: mappages_step [where n = "Suc n" and pa = pa and perm = perm])
    case (full t)
    then show ?thesis
      by (intro exI [of _ "- 1"] exI [of _ t] exI [of _ "[]"] exI [of _ 0])
        (auto simp: tabs_added_one tab_missing_def pdx_pg)
  next
    case (mapped t qs)
    have a1: "pg (a + PGSIZE) = Suc (pg a)" "unat (a + PGSIZE) = unat a + 4096"
      using Suc.prems(2) pg_add [of a 1] unat_add_uint [of a PGSIZE] by (simp_all add: PGSIZE_def)
    have ab: "\<forall>k \<le> n. \<not> present (entry (kmemory t) d (a + PGSIZE + of_nat (4096 * k)))"
    proof (intro allI impI)
      fix k assume k: "k \<le> n"
      have x: "a + PGSIZE + of_nat (4096 * k) = a + of_nat (4096 * Suc k)"
        by (simp add: PGSIZE_def)
      have "pg (a + of_nat (4096 * Suc k)) = pg a + Suc k"
        by (rule pg_add) (use k Suc.prems(2) in simp)
      then have "\<not> same_page a (a + of_nat (4096 * Suc k))"
        unfolding same_page_def by simp
      then show "\<not> present (entry (kmemory t) d (a + PGSIZE + of_nat (4096 * k)))"
        unfolding x mapped(3) using spec [OF Suc.prems(3), of "Suc k"] k by simp
    qed
    have t: "space t qs d" "unat (a + PGSIZE) + 4096 * n < 4294967296"
      using mapped(2) Suc.prems(2) by (simp_all add: grows_def a1)
    obtain r u rs j where u: "mappages_loop n d (a + PGSIZE) (pa + PGSIZE) perm t = Inr (r, u)" "grows d t qs u rs"
        "entry (kmemory u) d = map_range (entry (kmemory t) d) (a + PGSIZE) j (pa + PGSIZE) perm"
        "r = 0 \<and> j = Suc n \<or> r = - 1 \<and> j \<le> n \<and> rs = [] \<and> tab_missing (kmemory u) d (Suc (pg a)) (Suc (pg a) + n)"
        "tabs_added (kmemory t) (kmemory u) d (Suc (pg a)) (Suc (pg a) + n)"
      using Suc.IH [OF t ab, of "pa + PGSIZE"] unfolding a1(1) by blast
    have tb: "tabs_added (kmemory s) (kmemory u) d (pg a) (pg a + Suc n)"
      using tabs_added_trans [OF tabs_added_one [OF mapped(4), of "pg a + Suc n"]] u(5) by simp
    have tm: "tab_missing (kmemory u) d (pg a) (pg a + Suc n)" if "tab_missing (kmemory u) d (Suc (pg a)) (Suc (pg a) + n)"
      using that by (auto simp: tab_missing_def intro: Suc_leD)
    have "entry (kmemory u) d = map_range (entry (kmemory s) d) a (Suc j) pa perm"
      unfolding u(3) mapped(3) by (rule map_range_Suc [OF a1(1)])
    then show ?thesis
      using mapped(1) u(1,4) grows_trans [OF mapped(2) u(2)] tb tm
      by (intro exI [of _ r] exI [of _ u] exI [of _ rs] exI [of _ "Suc j"]) auto
  qed
qed

lemma pg_last:
  assumes "unat va + unat sz \<le> 4294967296" "0 < sz"
  shows "unat (va + sz - 1) = unat va + unat sz - 1" "pg va \<le> pg (va + sz - 1)"
proof -
  have p: "0 < unat sz"
    using assms(2) by (simp add: word_less_nat_alt)
  have "1 \<le> sz"
    using p by (simp add: word_le_nat_alt)
  then have "unat (sz - 1) = unat sz - 1"
    using unat_sub_uint [of 1 sz] by simp
  then have "unat (va + (sz - 1)) = unat va + (unat sz - 1)"
    using unat_add_uint [of va "sz - 1"] assms(1) p by linarith
  then show e: "unat (va + sz - 1) = unat va + unat sz - 1"
    using p by (simp add: add_diff_eq)
  show "pg va \<le> pg (va + sz - 1)"
    unfolding e using p by (intro div_le_mono) linarith
qed

lemma mappages_full:
  assumes s: "space s ps d" and z: "0 < sz" "unat va + unat sz \<le> 4294967296"
    and e: "\<forall>vb. pg va \<le> pg vb \<and> pg vb \<le> pg (va + sz - 1) \<longrightarrow> \<not> present (entry (kmemory s) d vb)"
  obtains r t qs j where "mappages d va sz pa perm s = Inr (r, t)" "grows d s ps t qs"
    "entry (kmemory t) d = map_range (entry (kmemory s) d) va j pa perm"
    "r = 0 \<and> j = Suc (pg (va + sz - 1) - pg va) \<or>
     r = - 1 \<and> j \<le> pg (va + sz - 1) - pg va \<and> qs = [] \<and> tab_missing (kmemory t) d (pg va) (pg (va + sz - 1))"
    "tabs_added (kmemory s) (kmemory t) d (pg va) (pg (va + sz - 1))"
proof -
  let ?a = "PGROUNDDOWN va" let ?l = "PGROUNDDOWN (va + sz - 1)" let ?n = "pg (va + sz - 1) - pg va"
  have pa: "unat ?a = pg va * 4096" "unat ?l = pg (va + sz - 1) * 4096" "pg ?a = pg va"
    by (simp_all add: unat_PGROUNDDOWN)
  have le: "pg va \<le> pg (va + sz - 1)"
    by (rule pg_last(2) [OF z(2,1)])
  have "?a \<le> ?l"
    using le by (simp add: word_le_nat_alt pa)
  then have "unat (?l - ?a) = pg (va + sz - 1) * 4096 - pg va * 4096"
    using unat_sub_uint [of ?a ?l] pa by simp
  then have n: "unat (?l - ?a) div 4096 = ?n"
    by (simp add: diff_mult_distrib [symmetric])
  have b: "unat ?a + 4096 * ?n < 4294967296"
    using le unat_uint_less [of ?l] by (simp only: pa)
  have "\<forall>k \<le> ?n. \<not> present (entry (kmemory s) d (?a + of_nat (4096 * k)))"
  proof (intro allI impI)
    fix k assume k: "k \<le> ?n"
    have "pg (?a + of_nat (4096 * k)) = pg va + k"
      using pg_add [of ?a k] b k pa(3) by linarith
    then show "\<not> present (entry (kmemory s) d (?a + of_nat (4096 * k)))"
      using e le k by simp
  qed
  from mappages_loop_ok [OF s b this, of pa perm]
  obtain r t qs j where "mappages_loop ?n d ?a pa perm s = Inr (r, t)" "grows d s ps t qs"
      "entry (kmemory t) d = map_range (entry (kmemory s) d) ?a j pa perm"
      "r = 0 \<and> j = Suc ?n \<or> r = - 1 \<and> j \<le> ?n \<and> qs = [] \<and> tab_missing (kmemory t) d (pg ?a) (pg ?a + ?n)"
      "tabs_added (kmemory s) (kmemory t) d (pg ?a) (pg ?a + ?n)"
    by blast
  moreover have "map_range f ?a = map_range f va" for f
    by (simp add: map_range_def fun_eq_iff pa(3))
  ultimately show ?thesis
    using that [of r t qs j] le by (simp add: mappages_def Let_def n pa(3))
qed

lemma mappages_ok:
  assumes s: "space s ps d" and z: "0 < sz" "unat va + unat sz \<le> 4294967296"
    and e: "\<forall>vb. pg va \<le> pg vb \<and> pg vb \<le> pg (va + sz - 1) \<longrightarrow> \<not> present (entry (kmemory s) d vb)"
  obtains r t qs j where "mappages d va sz pa perm s = Inr (r, t)" "grows d s ps t qs"
    "entry (kmemory t) d = map_range (entry (kmemory s) d) va j pa perm"
    "r = 0 \<and> j = Suc (pg (va + sz - 1) - pg va) \<or> r = - 1 \<and> j \<le> pg (va + sz - 1) - pg va \<and> qs = []"
  by (rule mappages_full [OF assms, of pa perm]) blast

text \<open>The tables \<^verbatim>\<open>mappages\<close> adds are those of the range, and when it fails one of them is still missing.\<close>

lemma mappages_tabs:
  assumes s: "space s ps d" and z: "0 < sz" "unat va + unat sz \<le> 4294967296"
    and e: "\<forall>vb. pg va \<le> pg vb \<and> pg vb \<le> pg (va + sz - 1) \<longrightarrow> \<not> present (entry (kmemory s) d vb)"
    and m: "mappages d va sz pa perm s = Inr (r, t)"
  shows "tabs_added (kmemory s) (kmemory t) d (pg va) (pg (va + sz - 1))"
    "r \<noteq> 0 \<Longrightarrow> tab_missing (kmemory t) d (pg va) (pg (va + sz - 1))"
  by (rule mappages_full [OF s z e, of pa perm], use m in auto)+

text \<open>
  C25: \<^verbatim>\<open>mappages\<close> on a well-formed directory with none of the pages of the range mapped: it never panics
  and gives 0 with exactly the pages from that of \<^verbatim>\<open>va\<close> to that of \<^verbatim>\<open>va + size - 1\<close> mapped to consecutive
  pages from \<^verbatim>\<open>pa\<close> with the permissions asked for, or -1 with a beginning of the range mapped and the free list
  used up.  Every other translation is as before, the directory stays well-formed, the pages taken
  from the free list have become page tables, and no other page of memory changes.  When the first
  page is mapped already it panics.
\<close>

theorem mappages_maps:
  assumes "space s ps d" "0 < sz" "unat va + unat sz \<le> 4294967296"
  shows "((\<forall>vb. pg va \<le> pg vb \<and> pg vb \<le> pg (va + sz - 1) \<longrightarrow> \<not> present (entry (kmemory s) d vb)) \<longrightarrow>
     (\<exists>r t qs j. mappages d va sz pa perm s = Inr (r, t) \<and> grows d s ps t qs \<and>
        entry (kmemory t) d = map_range (entry (kmemory s) d) va j pa perm \<and>
        (r = 0 \<and> j = Suc (pg (va + sz - 1) - pg va) \<or> r = - 1 \<and> j \<le> pg (va + sz - 1) - pg va \<and> qs = []))) \<and>
    (present (entry (kmemory s) d va) \<longrightarrow> mappages d va sz pa perm s = Inl (Panic ''remap''))"
proof (intro conjI impI)
  assume e: "\<forall>vb. pg va \<le> pg vb \<and> pg vb \<le> pg (va + sz - 1) \<longrightarrow> \<not> present (entry (kmemory s) d vb)"
  show "\<exists>r t qs j. mappages d va sz pa perm s = Inr (r, t) \<and> grows d s ps t qs \<and>
        entry (kmemory t) d = map_range (entry (kmemory s) d) va j pa perm \<and>
        (r = 0 \<and> j = Suc (pg (va + sz - 1) - pg va) \<or> r = - 1 \<and> j \<le> pg (va + sz - 1) - pg va \<and> qs = [])"
    by (rule mappages_ok [OF assms e]) blast
next
  assume p: "present (entry (kmemory s) d va)"
  have i: "pdx (PGROUNDDOWN va) = pdx va" "ptx (PGROUNDDOWN va) = ptx va"
    using same_page_iff [of "PGROUNDDOWN va" va] by (simp_all add: same_page_def unat_PGROUNDDOWN)
  have h: "has_tab (kmemory s) d (pdx (PGROUNDDOWN va))"
    using p by (simp add: entry_def i split: if_splits)
  have z: "slot (tab (kmemory s) d (pdx va)) (ptx va) \<noteq> 0"
    using assms(1) tables_I [OF h] slot_not_null [of s _ "ptx va"] by (auto simp: space_def i)
  have l: "present (ld32 (kmemory s) (slot (tab (kmemory s) d (pdx va)) (ptx va)))"
    using p h by (simp add: entry_def i)
  show "mappages d va sz pa perm s = Inl (Panic ''remap'')"
    unfolding mappages_def Let_def mappages_loop.simps [of _ d "PGROUNDDOWN va"] walk_found [OF h]
    using z l by (simp add: i)
qed


section \<open>A sample state\<close>

text \<open>The pages \<^verbatim>\<open>ps\<close> on the free list, every other byte of memory zero.\<close>

fun chain :: "addr list \<Rightarrow> mem" where
  "chain [] = (\<lambda>_. 0)"
| "chain (p # ps) = st32 (chain ps) p (case ps of [] \<Rightarrow> 0 | q # _ \<Rightarrow> q)"

definition vm_boot :: "addr list \<Rightarrow> vmst" where
  "vm_boot ps = \<lparr>klock = initlock ''kmem'', use_lock = True, freelist = (case ps of [] \<Rightarrow> 0 | p # _ \<Rightarrow> p), kmemory = chain ps,
     kcpu = \<lparr>ncli = 0, intena = False, fl_if = True\<rparr>, kme = 0, kend = 0x80110000,
     kdata = 0x80108000, kpgdir = 0, cr3 = 0, esp0 = 0\<rparr>"

lemma free_chain_frame: "\<forall>p \<in> set ps. aligned p \<and> \<not> in_range x p 4096 \<Longrightarrow> chain ps x = 0"
  by (induction ps) (auto simp: st32_frame)

lemma chain_linked: "distinct ps \<Longrightarrow> \<forall>p \<in> set ps. aligned p \<Longrightarrow> linked (chain ps) (case ps of [] \<Rightarrow> 0 | p # _ \<Rightarrow> p) ps"
proof (induction ps)
  case (Cons p ps)
  have "\<forall>q \<in> set ps. aligned q \<and> (\<forall>x. in_range x q 4096 \<longrightarrow> st32 (chain ps) p v x = chain ps x)" for v
  proof (intro ballI conjI allI impI)
    fix q x assume q: "q \<in> set ps" "in_range x q 4096"
    then have "\<not> in_range x p 4096"
      using pages_disjoint [of q p x] Cons.prems by auto
    then show "st32 (chain ps) p v x = chain ps x"
      using Cons.prems by (simp add: st32_frame)
  qed (use Cons.prems in auto)
  then show ?case
    using Cons linked_frame [of "chain ps" "case ps of [] \<Rightarrow> 0 | p # _ \<Rightarrow> p" ps] by simp
qed simp

lemma vm_boot_pool:
  assumes "distinct ps" "\<forall>p \<in> set ps. p mod 4096 = 0 \<and> 0x80110000 \<le> p \<and> p < 0x8E000000"
  shows "kpool (vm_boot ps) ps" "kowned (vm_boot ps) p \<longleftrightarrow> p mod 4096 = 0 \<and> 0x80110000 \<le> p \<and> p < 0x8E000000"
proof -
  have "0x80110000 \<le> p \<and> V2P p < PHYSTOP \<longleftrightarrow> 0x80110000 \<le> p \<and> p < 0x8E000000" for p
    unfolding V2P_below_PHYSTOP by (auto simp: word_le_nat_alt word_less_nat_alt)
  then show o: "kowned (vm_boot ps) p \<longleftrightarrow> p mod 4096 = 0 \<and> 0x80110000 \<le> p \<and> p < 0x8E000000" for p
    unfolding kowned_def PGSIZE_def vm_boot_def by simp
  have w: "\<forall>p \<in> set ps. kowned (vm_boot ps) p"
    unfolding o by (rule assms(2))
  then have "\<forall>p \<in> set ps. aligned p"
    using kowned_aligned by blast
  then have "linked (kmemory (vm_boot ps)) (freelist (vm_boot ps)) ps"
    using chain_linked [OF assms(1)] by (simp add: vm_boot_def)
  moreover have "lock_free (vm_boot ps)"
    by (simp add: lock_free_def vm_boot_def initlock_def cpu_ok_def)
  ultimately show "kpool (vm_boot ps) ps"
    unfolding kpool_def using assms(1) w by simp
qed

lemma vm_boot_space:
  assumes "distinct ps" "\<forall>p \<in> set ps. p mod 4096 = 0 \<and> 0x80110000 \<le> p \<and> p < 0x8E000000"
    "d mod 4096 = 0" "0x80110000 \<le> d" "d < 0x8E000000" "d \<notin> set ps"
  shows "space (vm_boot ps) ps d" "entry (kmemory (vm_boot ps)) d va = 0" "tables (kmemory (vm_boot ps)) d = {}"
proof -
  note B = vm_boot_pool [OF assms(1,2)]
  have d: "kowned (vm_boot ps) d"
    unfolding B(2) using assms(3-5) by simp
  then have a: "aligned d"
    by (rule kowned_aligned)
  have al: "\<forall>p \<in> set ps. aligned p"
    using B(1) kowned_aligned by (auto simp: kpool_def)
  have "ld32 (chain ps) (slot d i) = 0" if "i < 1024" for i
  proof -
    have "chain ps (slot d i + of_nat k) = 0" if "k < 4" for k
      using pages_disjoint [OF a _ _ slot_in_page [OF a \<open>i < 1024\<close> that]] al assms(6) by (intro free_chain_frame ballI conjI) auto
    from this [of 0] this [of 1] this [of 2] this [of 3] show ?thesis
      by (simp add: ld32_def)
  qed
  then have h: "\<not> has_tab (kmemory (vm_boot ps)) d i" for i
    by (auto simp: has_tab_def vm_boot_def)
  then show t: "tables (kmemory (vm_boot ps)) d = {}" and "entry (kmemory (vm_boot ps)) d va = 0"
    by (auto simp: tables_def entry_def)
  then show "space (vm_boot ps) ps d"
    using B(1) d h assms(6) by (simp add: space_def)
qed

theorem mappages_maps_witness:
  "\<exists>r t qs. mappages 0x80400000 0x1800 PGSIZE 0x5000 PTE_W (vm_boot [0x80401000]) = Inr (r, t) \<and>
     grows 0x80400000 (vm_boot [0x80401000]) [0x80401000] t qs"
proof -
  let ?s = "vm_boot [0x80401000]"
  have s: "space ?s [0x80401000] 0x80400000" "entry (kmemory ?s) 0x80400000 va = 0" for va
    using vm_boot_space(1,2) [where ps = "[0x80401000]" and d = "0x80400000"] by simp_all
  have "0 < PGSIZE" "unat (0x1800 :: addr) + unat PGSIZE \<le> 4294967296"
    by (simp_all add: PGSIZE_def)
  from mappages_maps [OF s(1) this, of "0x5000" PTE_W, THEN conjunct1, unfolded s(2)] show ?thesis
    by (auto simp: s(2))
qed

end
