(* ===== verification/Vm_user.thy ===== *)
theory Vm_user
  imports Vm_spaces
begin

text \<open>
  The user half of an address space (\<^verbatim>\<open>vm.c\<close>): its pages are owned by the allocator and by nobody else;
  \<^verbatim>\<open>deallocuvm\<close>, \<^verbatim>\<open>freevm\<close> and \<^verbatim>\<open>allocuvm\<close> keep that, on success and when memory runs out.
\<close>

unbundle bit_operations_syntax

section \<open>User memory of an address space\<close>

text \<open>The page that backs an address, the pages that back user memory, and all pages of an address space.\<close>

definition upage :: "mem \<Rightarrow> addr \<Rightarrow> addr \<Rightarrow> addr" where
  "upage m d va = P2V (PTE_ADDR (entry m d va))"

abbreviation mapped_user :: "mem \<Rightarrow> addr \<Rightarrow> addr \<Rightarrow> bool" where
  "mapped_user m d va \<equiv> va < KERNBASE \<and> present (entry m d va)"

definition upages :: "mem \<Rightarrow> addr \<Rightarrow> addr set" where
  "upages m d = upage m d ` {va. mapped_user m d va}"

definition pages :: "mem \<Rightarrow> addr \<Rightarrow> addr set" where
  "pages m d = insert d (tables m d \<union> upages m d)"

text \<open>
  User pages belong to the allocator, back one page of user memory each, and are neither free nor
  directory or table.  The page at \<^verbatim>\<open>KERNBASE\<close> itself is never the allocator's.
\<close>

definition uspace :: "'a kmem_scheme \<Rightarrow> addr list \<Rightarrow> addr \<Rightarrow> bool" where
  "uspace s ps d \<longleftrightarrow> space s ps d \<and> \<not> kowned s KERNBASE \<and>
     (\<forall>p \<in> upages (kmemory s) d. kowned s p \<and> p \<noteq> d \<and> p \<notin> tables (kmemory s) d \<and> p \<notin> set ps) \<and>
     (\<forall>va vb. mapped_user (kmemory s) d va \<and> mapped_user (kmemory s) d vb \<and>
        upage (kmemory s) d va = upage (kmemory s) d vb \<longrightarrow> same_page va vb)"

lemma upages_I: "mapped_user m d va \<Longrightarrow> upage m d va \<in> upages m d"
  by (auto simp: upages_def)

lemma uspace_pages:
  assumes "uspace s ps d" "p \<in> pages (kmemory s) d"
  shows "kowned s p" "aligned p" "p \<notin> set ps"
  using assms kowned_aligned by (auto simp: uspace_def space_def pages_def)

lemma same_page_entry: "same_page va vb \<Longrightarrow> entry m d va = entry m d vb"
  by (simp add: entry_def same_page_iff)

lemma user_pg: "va < KERNBASE \<longleftrightarrow> pg va < 524288"
  by (simp add: word_less_nat_alt KERNBASE_def div_less_iff_less_mult)

lemma same_page_user: "same_page va vb \<Longrightarrow> va < KERNBASE \<longleftrightarrow> vb < KERNBASE"
  by (simp add: same_page_def user_pg)

text \<open>Changes outside a directory and its tables do not matter to it.\<close>

lemma dir_only_in:
  assumes s: "space s ps d" and o: "only_in D (kmemory s) m" "\<forall>p \<in> D. aligned p \<and> p \<noteq> d \<and> p \<notin> tables (kmemory s) d"
  shows "has_tab m d = has_tab (kmemory s) d" "tables m d = tables (kmemory s) d" "entry m d = entry (kmemory s) d"
    "inj_on (tab m d) {i. has_tab m d i}"
proof -
  let ?m = "kmemory s"
  have a: "aligned d" "\<forall>p \<in> D. aligned p" "d \<notin> D"
    using s o(2) kowned_aligned by (auto simp: space_def)
  have e: "ld32 m (slot d i) = ld32 ?m (slot d i)" if "i < 1024" for i
    by (rule only_in_slot [OF o(1) a(2,1,3) that])
  then show h: "has_tab m d = has_tab ?m d"
    by (auto simp: has_tab_def fun_eq_iff)
  have t: "tab m d i = tab ?m d i" if "i < 1024" for i
    by (simp add: tab_def e [OF that])
  then show "tables m d = tables ?m d"
    unfolding tables_def h by (intro image_cong) (auto simp: has_tab_def)
  have "inj_on (tab m d) {i. has_tab m d i} \<longleftrightarrow> inj_on (tab ?m d) {i. has_tab ?m d i}"
    unfolding h by (rule inj_on_cong) (simp add: has_tab_def t)
  then show "inj_on (tab m d) {i. has_tab m d i}"
    using s by (simp add: space_def)
  have "ld32 m (slot (tab ?m d (pdx va)) (ptx va)) = ld32 ?m (slot (tab ?m d (pdx va)) (ptx va))" if g: "has_tab ?m d (pdx va)" for va
    by (rule only_in_slot [OF o(1) a(2)]) (use s o(2) tables_I [OF g] kowned_aligned in \<open>auto simp: space_def\<close>)
  then show "entry m d = entry ?m d"
    by (auto simp: entry_def fun_eq_iff h t)
qed

lemma space_move:
  assumes s: "space s ps d" and o: "only_in D (kmemory s) (kmemory t)" "\<forall>p \<in> D. aligned p \<and> p \<noteq> d \<and> p \<notin> tables (kmemory s) d"
    and k: "kpool t qs" "kowned t = kowned s" "set qs \<inter> insert d (tables (kmemory s) d) = {}"
  shows "space t qs d"
  using s k dir_only_in [OF s o] by (auto simp: space_def)

lemma upages_cong: "entry m' d = entry m d \<Longrightarrow> upage m' d = upage m d \<and> upages m' d = upages m d"
  by (simp add: upages_def upage_def fun_eq_iff)

lemma uspace_move:
  assumes s: "uspace s ps d" and o: "only_in D (kmemory s) (kmemory t)" "\<forall>p \<in> D. aligned p \<and> p \<notin> insert d (tables (kmemory s) d)"
    and k: "kpool t qs" "kowned t = kowned s" "set qs \<inter> pages (kmemory s) d = {}"
  shows "uspace t qs d" "entry (kmemory t) d = entry (kmemory s) d" "pages (kmemory t) d = pages (kmemory s) d"
    "tables (kmemory t) d = tables (kmemory s) d"
proof -
  have sp: "space s ps d"
    using s by (simp add: uspace_def)
  have o': "\<forall>p \<in> D. aligned p \<and> p \<noteq> d \<and> p \<notin> tables (kmemory s) d"
    using o(2) by simp
  note M = dir_only_in [OF sp o(1) o']
  show "entry (kmemory t) d = entry (kmemory s) d" "tables (kmemory t) d = tables (kmemory s) d"
    by (rule M)+
  show "pages (kmemory t) d = pages (kmemory s) d"
    using M(2) upages_cong [OF M(3)] by (simp add: pages_def)
  have "space t qs d"
    using space_move [OF sp o(1) o' k(1,2)] k(3) by (auto simp: pages_def)
  then show "uspace t qs d"
    using s k M(2,3) upages_cong [OF M(3)] by (auto simp: uspace_def pages_def)
qed

section \<open>Giving user memory back\<close>

lemma space_kfree:
  assumes s: "space s ps d" and p: "kowned s p" "p \<notin> set ps" "p \<noteq> d" "p \<notin> tables (kmemory s) d"
  obtains t where "kfree p s = Inr t" "space t (p # ps) d" "kowned t = kowned s" "only_in {p} (kmemory s) (kmemory t)"
    "entry (kmemory t) d = entry (kmemory s) d" "has_tab (kmemory t) d = has_tab (kmemory s) d"
    "tables (kmemory t) d = tables (kmemory s) d"
proof -
  obtain t where t: "kfree p s = Inr t" "kpool t (p # ps)" "kowned t = kowned s"
      "\<forall>x. \<not> in_range x p 4096 \<longrightarrow> kmemory t x = kmemory s x"
    using ka.dealloc_page [of s ps p] s p by (auto simp: space_def)
  have o: "only_in {p} (kmemory s) (kmemory t)" "\<forall>q \<in> {p}. aligned q \<and> q \<noteq> d \<and> q \<notin> tables (kmemory s) d"
    using t(4) p kowned_aligned by (auto simp: only_in_def)
  have "space t (p # ps) d"
    by (rule space_move [OF s o t(2,3)]) (use s p in \<open>auto simp: space_def\<close>)
  then show ?thesis
    using that [of t] t(1,3) o(1) dir_only_in [OF s o] by simp
qed

lemma free_page:
  assumes s: "uspace s ps d" and v: "mapped_user (kmemory s) d va"
  obtains t where "bindE (kfree (upage (kmemory s) d va) s)
      (\<lambda>u. Inr (u\<lparr>kmemory := st32 (kmemory u) (slot (tab (kmemory s) d (pdx va)) (ptx va)) 0\<rparr>)) = Inr t"
    "uspace t (upage (kmemory s) d va # ps) d" "kowned t = kowned s" "tables (kmemory t) d = tables (kmemory s) d"
    "entry (kmemory t) d = (\<lambda>vb. if same_page va vb then 0 else entry (kmemory s) d vb)"
    "only_in (insert (upage (kmemory s) d va) (tables (kmemory s) d)) (kmemory s) (kmemory t)"
proof -
  let ?m = "kmemory s" let ?p = "upage ?m d va"
  have sp: "space s ps d" and p: "kowned s ?p" "?p \<notin> set ps" "?p \<noteq> d" "?p \<notin> tables ?m d"
    using s upages_I [OF v] by (auto simp: uspace_def)
  obtain u where u: "kfree ?p s = Inr u" "space u (?p # ps) d" "kowned u = kowned s" "only_in {?p} ?m (kmemory u)"
      "entry (kmemory u) d = entry ?m d" "has_tab (kmemory u) d = has_tab ?m d" "tables (kmemory u) d = tables ?m d"
    by (rule space_kfree [OF sp p])
  have h: "has_tab ?m d (pdx va)"
    using v by (auto simp: entry_def split: if_splits)
  have al: "aligned d" "aligned ?p"
    using sp p(1) kowned_aligned by (auto simp: space_def)
  have tt: "tab (kmemory u) d (pdx va) = tab ?m d (pdx va)"
    using only_in_slot [OF u(4) _ al(1) _ pdx_less, of va] al p(3) by (simp add: tab_def)
  have hu: "has_tab (kmemory u) d (pdx va)"
    using h u(6) by simp
  let ?n = "st32 (kmemory u) (slot (tab ?m d (pdx va)) (ptx va)) 0"
  let ?t = "u\<lparr>kmemory := ?n\<rparr>"
  note S = space_set_entry [OF u(2) hu, where v = 0, unfolded tt]
  have e: "entry ?n d = (\<lambda>vb. if same_page va vb then 0 else entry ?m d vb)"
    using S(2) u(5) by (simp add: fun_eq_iff)
  have mu: "mapped_user ?n d vb \<longleftrightarrow> mapped_user ?m d vb \<and> \<not> same_page va vb" "mapped_user ?n d vb \<Longrightarrow> upage ?n d vb = upage ?m d vb" for vb
    by (auto simp: e upage_def)
  have tg: "tables ?n d = tables ?m d"
    using S(3) u(7) by simp
  have "q \<in> upages ?m d \<and> q \<noteq> ?p" if "q \<in> upages ?n d" for q
  proof -
    obtain vb where b: "mapped_user ?n d vb" "q = upage ?n d vb"
      using \<open>q \<in> upages ?n d\<close> by (auto simp: upages_def)
    then have b': "mapped_user ?m d vb" "\<not> same_page va vb" "q = upage ?m d vb"
      using mu(1) [of vb] mu(2) [of vb] by auto
    have "upage ?m d va = upage ?m d vb \<longrightarrow> same_page va vb"
      using s v b'(1) unfolding uspace_def by blast
    then show ?thesis
      using b' upages_I [OF b'(1)] by auto
  qed
  moreover have "same_page va' vb" if "mapped_user ?n d va'" "mapped_user ?n d vb" "upage ?n d va' = upage ?n d vb" for va' vb
    using s that mu(1) [of va'] mu(1) [of vb] mu(2) [of va'] mu(2) [of vb] unfolding uspace_def by metis
  ultimately have "uspace ?t (?p # ps) d"
    using s S(1) u(3) p tg by (auto simp: uspace_def)
  moreover have "only_in (insert ?p (tables ?m d)) ?m ?n"
  proof -
    have "aligned (tab ?m d (pdx va))"
      using sp tables_I [OF h] kowned_aligned by (auto simp: space_def)
    from only_in_mono [OF only_in_trans [OF u(4) only_in_st32 [OF this ptx_less]]] show ?thesis
      using tables_I [OF h] by auto
  qed
  ultimately show ?thesis
    using that [of ?t] u(1,3) e tg by simp
qed

text \<open>The entries after the pages from number \<^verbatim>\<open>lo\<close> up to \<^verbatim>\<open>hi\<close> are given back, and what else that means.\<close>

definition cleared :: "(addr \<Rightarrow> uint) \<Rightarrow> nat \<Rightarrow> nat \<Rightarrow> addr \<Rightarrow> uint" where
  "cleared e lo hi vb = (if lo \<le> pg vb \<and> pg vb < hi \<and> present (e vb) then 0 else e vb)"

definition mapped_between :: "mem \<Rightarrow> addr \<Rightarrow> nat \<Rightarrow> nat \<Rightarrow> addr set" where
  "mapped_between m d lo hi = {vb. lo \<le> pg vb \<and> pg vb < hi \<and> present (entry m d vb)}"

definition dealloced :: "'a kmem_scheme \<Rightarrow> addr list \<Rightarrow> addr \<Rightarrow> nat \<Rightarrow> nat \<Rightarrow> 'a kmem_scheme \<Rightarrow> addr list \<Rightarrow> bool" where
  "dealloced s ps d lo hi t fs \<longleftrightarrow> uspace t (fs @ ps) d \<and> kowned t = kowned s \<and>
     tables (kmemory t) d = tables (kmemory s) d \<and> entry (kmemory t) d = cleared (entry (kmemory s) d) lo hi \<and>
     set fs = upage (kmemory s) d ` mapped_between (kmemory s) d lo hi \<and>
     only_in (set fs \<union> tables (kmemory s) d) (kmemory s) (kmemory t)"

lemma dealloced_none: "uspace s ps d \<Longrightarrow> hi \<le> lo \<Longrightarrow> dealloced s ps d lo hi s []"
  by (auto simp: dealloced_def cleared_def mapped_between_def fun_eq_iff)

lemma dealloced_skip:
  assumes "dealloced s ps d lo' hi t fs" "lo \<le> lo'" "\<forall>vb. lo \<le> pg vb \<and> pg vb < lo' \<longrightarrow> \<not> present (entry (kmemory s) d vb)"
  shows "dealloced s ps d lo hi t fs"
proof -
  have M: "mapped_between (kmemory s) d lo' hi = mapped_between (kmemory s) d lo hi"
    using assms(2,3) by (auto simp: mapped_between_def)
  have C: "cleared (entry (kmemory s) d) lo' hi = cleared (entry (kmemory s) d) lo hi"
    using assms(2,3) by (auto simp: cleared_def fun_eq_iff)
  show ?thesis
    using assms(1) unfolding dealloced_def M C .
qed

lemma dealloced_free:
  assumes u: "kowned u = kowned s" "tables (kmemory u) d = tables (kmemory s) d"
    "entry (kmemory u) d = (\<lambda>vb. if same_page va vb then 0 else entry (kmemory s) d vb)"
    "only_in (insert p (tables (kmemory s) d)) (kmemory s) (kmemory u)"
    and p: "p = upage (kmemory s) d va" "present (entry (kmemory s) d va)" "pg va < hi"
    and t: "dealloced u (p # ps) d (Suc (pg va)) hi t fs"
  shows "dealloced s ps d (pg va) hi t (fs @ [p])"
proof -
  let ?m = "kmemory s"
  have e: "entry (kmemory u) d vb = entry ?m d vb" if "Suc (pg va) \<le> pg vb" for vb
    using that by (simp add: u(3) same_page_def)
  have "mapped_between (kmemory u) d (Suc (pg va)) hi = mapped_between ?m d (Suc (pg va)) hi"
    by (auto simp: mapped_between_def e)
  moreover have "upage (kmemory u) d vb = upage ?m d vb" if "vb \<in> mapped_between ?m d (Suc (pg va)) hi" for vb
    using that by (simp add: mapped_between_def upage_def e)
  ultimately have f: "set fs = upage ?m d ` mapped_between ?m d (Suc (pg va)) hi"
    using t by (simp add: dealloced_def)
  have sp: "entry ?m d vb = entry ?m d va" if "pg vb = pg va" for vb
    by (rule same_page_entry) (simp add: same_page_def that)
  have "upage ?m d ` mapped_between ?m d (pg va) hi = insert p (upage ?m d ` mapped_between ?m d (Suc (pg va)) hi)"
  proof -
    have "upage ?m d vb = p" if "pg vb = pg va" for vb
      by (simp add: upage_def p(1) sp [OF that])
    moreover have "va \<in> mapped_between ?m d (pg va) hi"
      using p(2,3) by (simp add: mapped_between_def)
    moreover have "vb \<in> mapped_between ?m d (pg va) hi \<longleftrightarrow> pg vb = pg va \<and> present (entry ?m d vb) \<or> vb \<in> mapped_between ?m d (Suc (pg va)) hi" for vb
      using p(3) by (auto simp: mapped_between_def)
    ultimately show ?thesis
      by (auto simp: image_iff)
  qed
  then have fs: "set (fs @ [p]) = upage ?m d ` mapped_between ?m d (pg va) hi"
    by (simp add: f)
  have C: "cleared (entry (kmemory u) d) (Suc (pg va)) hi = cleared (entry ?m d) (pg va) hi"
  proof
    fix vb
    show "cleared (entry (kmemory u) d) (Suc (pg va)) hi vb = cleared (entry ?m d) (pg va) hi vb"
    proof (cases "pg vb = pg va")
      case True
      then show ?thesis
        using p(2,3) by (simp add: cleared_def u(3) same_page_def sp [OF True])
    next
      case False
      then have "entry (kmemory u) d vb = entry ?m d vb" "Suc (pg va) \<le> pg vb \<longleftrightarrow> pg va \<le> pg vb"
        by (auto simp: u(3) same_page_def)
      then show ?thesis
        by (simp add: cleared_def)
    qed
  qed
  have O: "only_in (set (fs @ [p]) \<union> tables ?m d) ?m (kmemory t)"
    by (rule only_in_mono [OF only_in_trans [OF u(4)], of "set fs \<union> tables (kmemory u) d"])
      (use t u(2) in \<open>auto simp: dealloced_def\<close>)
  have "uspace t ((fs @ [p]) @ ps) d" "kowned t = kowned s" "tables (kmemory t) d = tables ?m d"
      "entry (kmemory t) d = cleared (entry ?m d) (pg va) hi"
    using t u(1,2) C by (simp_all add: dealloced_def)
  then show ?thesis
    unfolding dealloced_def using fs O by blast
qed

lemma aligned_pg: "aligned a \<Longrightarrow> unat a = 4096 * pg a"
  by (auto simp: aligned_def elim!: dvdE)

lemma PGADDR_next:
  assumes "pdx a < 1023"
  shows "unat (PGADDR (PDX a + 1) 0 0) = Suc (pdx a) * 4194304"
proof -
  have "PGADDR (PDX a + 1) 0 0 = of_nat (Suc (pdx a) * 4194304)"
    by (simp add: PGADDR_def push_bit_eq_mult algebra_simps)
  moreover have "Suc (pdx a) * 4194304 < 4294967296"
    unfolding mult_Suc using assms by linarith
  ultimately show ?thesis
    using unat_of_nat_uint by presburger
qed

definition npages :: "uint \<Rightarrow> nat" where
  "npages sz = (unat sz + 4095) div 4096"

lemma aligned_less: "aligned a \<Longrightarrow> a < sz \<longleftrightarrow> pg a < npages sz"
  using aligned_pg [of a] by (simp add: word_less_nat_alt npages_def) linarith

lemma dealloc_loop_ok:
  assumes "uspace s ps d" "aligned a" "sz \<le> KERNBASE"
  shows "\<exists>t fs. deallocuvm_loop d sz a s = Inr t \<and> dealloced s ps d (pg a) (npages sz) t fs"
  using assms
proof (induction "unat sz - unat a" arbitrary: a s ps rule: less_induct)
  case less
  note al = less.prems(2)
  show ?case
  proof (cases "a < sz")
    case False
    then show ?thesis
      using dealloced_none [OF less.prems(1), of "npages sz" "pg a"] aligned_less [OF al, of sz]
      by (auto simp: deallocuvm_loop.simps [of d sz a])
  next
    case True
    have u: "a < KERNBASE" "pg a < 524288" "pg a < npages sz"
      using True less.prems(3) aligned_less [OF al, of sz] user_pg [of a] by auto
    have sp: "space s ps d"
      using less.prems(1) by (simp add: uspace_def)
    show ?thesis
    proof (cases "has_tab (kmemory s) d (pdx a)")
      case False
      let ?b = "PGADDR (PDX a + 1) 0 0"
      have b: "unat ?b = Suc (pdx a) * 4194304" "pg ?b = Suc (pdx a) * 1024"
        using PGADDR_next [of a] u(2) pdx_pg [of a] by auto
      have ab: "\<not> ?b \<le> a" "aligned ?b" "pg a \<le> pg ?b"
        using b by (auto simp: word_le_nat_alt aligned_def pdx_nat)
      have "\<not> present (entry (kmemory s) d vb)" if v: "pg a \<le> pg vb \<and> pg vb < pg ?b" for vb
      proof -
        have "pg vb div 1024 < Suc (pdx a)"
          using v less_mult_imp_div_less [of "pg vb" "Suc (pdx a)" 1024] unfolding b(2) by blast
        moreover have "pg a div 1024 \<le> pg vb div 1024"
          by (rule div_le_mono [OF conjunct1 [OF v]])
        ultimately have "pdx vb = pdx a"
          unfolding pdx_pg by linarith
        then show ?thesis
          using False by (simp add: entry_def)
      qed
      moreover have l: "unat sz - unat ?b < unat sz - unat a"
        using ab(1) True by (simp add: word_less_nat_alt word_le_nat_alt)
      obtain t fs where t: "deallocuvm_loop d sz ?b s = Inr t" "dealloced s ps d (pg ?b) (npages sz) t fs"
        using less.hyps [OF l less.prems(1) ab(2) less.prems(3)] by blast
      ultimately have "dealloced s ps d (pg a) (npages sz) t fs"
        using dealloced_skip [OF t(2) ab(3)] by blast
      then show ?thesis
        using True t(1) ab(1) walk_none [OF False] by (auto simp: deallocuvm_loop.simps [of d sz a s] Let_def)
    next
      case h: True
      let ?pte = "slot (tab (kmemory s) d (pdx a)) (ptx a)"
      have z: "?pte \<noteq> 0" "ld32 (kmemory s) ?pte = entry (kmemory s) d a"
        using sp tables_I [OF h] slot_not_null [of s _ "ptx a"] h by (auto simp: space_def entry_def)
      have b: "unat (a + PGSIZE) = unat a + 4096" "pg (a + PGSIZE) = Suc (pg a)"
        using unat_add_uint [of a PGSIZE] u(1) by (auto simp: PGSIZE_def word_less_nat_alt KERNBASE_def)
      then have ab: "\<not> a + PGSIZE \<le> a" "unat sz - unat (a + PGSIZE) < unat sz - unat a" "aligned (a + PGSIZE)"
        using True aligned_add_PGSIZE [OF al] by (auto simp: word_le_nat_alt word_less_nat_alt)
      show ?thesis
      proof (cases "present (entry (kmemory s) d a)")
        case False
        obtain t fs where t: "deallocuvm_loop d sz (a + PGSIZE) s = Inr t" "dealloced s ps d (Suc (pg a)) (npages sz) t fs"
          using less.hyps [OF ab(2) less.prems(1) ab(3) less.prems(3)] b(2) by auto
        have "\<not> present (entry (kmemory s) d vb)" if "pg vb = pg a" for vb
          using False same_page_entry [of vb a "kmemory s" d] that by (simp add: same_page_def)
        then have "dealloced s ps d (pg a) (npages sz) t fs"
          using dealloced_skip [OF t(2), of "pg a"] by auto
        then show ?thesis
          using True t(1) ab(1) walk_found [OF h] z False by (auto simp: deallocuvm_loop.simps [of d sz a s] Let_def)
      next
        case p: True
        have v: "mapped_user (kmemory s) d a"
          using p u(1) by simp
        obtain w where w: "bindE (kfree (upage (kmemory s) d a) s) (\<lambda>u. Inr (u\<lparr>kmemory := st32 (kmemory u) ?pte 0\<rparr>)) = Inr w"
            "uspace w (upage (kmemory s) d a # ps) d" "kowned w = kowned s" "tables (kmemory w) d = tables (kmemory s) d"
            "entry (kmemory w) d = (\<lambda>vb. if same_page a vb then 0 else entry (kmemory s) d vb)"
            "only_in (insert (upage (kmemory s) d a) (tables (kmemory s) d)) (kmemory s) (kmemory w)"
          by (rule free_page [OF less.prems(1) v])
        obtain t fs where t: "deallocuvm_loop d sz (a + PGSIZE) w = Inr t"
            "dealloced w (upage (kmemory s) d a # ps) d (Suc (pg a)) (npages sz) t fs"
          using less.hyps [OF ab(2) w(2) ab(3) less.prems(3)] b(2) by auto
        have "dealloced s ps d (pg a) (npages sz) t (fs @ [upage (kmemory s) d a])"
          by (rule dealloced_free [OF w(3-6) refl p u(3) t(2)])
        moreover have "PTE_ADDR (entry (kmemory s) d a) \<noteq> 0"
          using less.prems(1) upages_I [OF v] by (auto simp: uspace_def upage_def P2V_def)
        then have "deallocuvm_loop d sz a s = Inr t"
          using True t(1) ab(1) walk_found [OF h] z p w(1)
          by (simp add: deallocuvm_loop.simps [of d sz a s] Let_def upage_def)
        ultimately show ?thesis
          by blast
      qed
    qed
  qed
qed

lemma PGROUNDUP_pg: "sz \<le> KERNBASE \<Longrightarrow> pg (PGROUNDUP sz) = npages sz"
  using unat_PGROUNDUP [of sz] by (simp add: npages_def word_le_nat_alt KERNBASE_def)

lemma npages_mono: "a \<le> b \<Longrightarrow> npages a \<le> npages b"
  by (simp add: npages_def word_le_nat_alt div_le_mono)

lemma deallocuvm_ok:
  assumes "uspace s ps d" "oldsz \<le> KERNBASE" "newsz < oldsz"
  obtains t fs where "deallocuvm d oldsz newsz s = Inr (newsz, t)" "dealloced s ps d (npages newsz) (npages oldsz) t fs"
proof -
  have "newsz \<le> KERNBASE"
    using assms(2,3) by simp
  then obtain t fs where f: "deallocuvm_loop d oldsz (PGROUNDUP newsz) s = Inr t" "dealloced s ps d (npages newsz) (npages oldsz) t fs"
    using dealloc_loop_ok [OF assms(1) aligned_PGROUNDUP assms(2), of newsz] PGROUNDUP_pg [of newsz] by auto
  have "deallocuvm d oldsz newsz s = Inr (newsz, t)"
    using f(1) not_le [THEN iffD2, OF assms(3)] by (simp add: deallocuvm_def)
  then show ?thesis
    using f(2) by (rule that)
qed

text \<open>Once user memory is gone, freeing the tables and the directory.\<close>

lemma free_tables:
  fixes s :: "'a kmem_scheme"
  assumes s: "space s ps d"
  shows "\<exists>t. foldE (freevm_entry d) [0..<1024] s = Inr t \<and> kowned t = kowned s \<and>
    (\<exists>qs. kpool t qs \<and> set qs = set ps \<union> tables (kmemory s) d) \<and> only_in (tables (kmemory s) d) (kmemory s) (kmemory t)"
proof -
  let ?m = "kmemory s"
  let ?T = "\<lambda>k. tab ?m d ` {i. i < k \<and> has_tab ?m d i}"
  define P where "P = (\<lambda>k (t :: 'a kmem_scheme). kowned t = kowned s \<and> (\<exists>qs. kpool t qs \<and> set qs = set ps \<union> ?T k) \<and> only_in (?T k) ?m (kmemory t))"
  have full: "?T 1024 = tables ?m d"
    by (auto simp: tables_def has_tab_def)
  have sub: "?T k \<subseteq> tables ?m d" for k
    by (auto simp: tables_def)
  have al: "\<forall>p \<in> tables ?m d. aligned p" "aligned d" "d \<notin> tables ?m d"
    using s kowned_aligned by (auto simp: space_def)
  have "P 0 s"
    using s by (auto simp: P_def space_def)
  moreover have "\<exists>u. freevm_entry d k t = Inr u \<and> P (Suc k) u" if k: "k < 1024" and t: "P k t" for k t
  proof -
    obtain qs where q: "kowned t = kowned s" "kpool t qs" "set qs = set ps \<union> ?T k" "only_in (?T k) ?m (kmemory t)"
      using t by (auto simp: P_def)
    have l: "ld32 (kmemory t) (slot d k) = ld32 ?m (slot d k)"
      by (rule only_in_slot [OF q(4) _ al(2) _ k]) (use al sub [of k] in blast)+
    have S: "?T (Suc k) = (if has_tab ?m d k then insert (tab ?m d k) (?T k) else ?T k)"
      by (auto simp: less_Suc_eq image_iff)
    show ?thesis
    proof (cases "has_tab ?m d k")
      case False
      then show ?thesis
        using t k S l by (simp add: freevm_entry_def P_def has_tab_def slot_def)
    next
      case True
      have n: "tab ?m d k \<notin> ?T k"
        using s True unfolding space_def inj_on_def by blast
      have o: "kowned t (tab ?m d k)" "tab ?m d k \<notin> set qs"
        using s tables_I [OF True] n q(1,3) by (auto simp: space_def)
      obtain u where u: "kfree (tab ?m d k) t = Inr u" "kpool u (tab ?m d k # qs)" "kowned u = kowned t"
          "\<forall>x. \<not> in_range x (tab ?m d k) 4096 \<longrightarrow> kmemory u x = kmemory t x"
        using ka.dealloc_page [OF q(2) o] by blast
      have f: "freevm_entry d k t = kfree (tab ?m d k) t"
        using True l by (simp add: freevm_entry_def Let_def has_tab_def tab_def slot_def)
      have "only_in {tab ?m d k} (kmemory t) (kmemory u)"
        using u(4) by (simp add: only_in_def)
      then have "only_in (?T (Suc k)) ?m (kmemory u)"
        using only_in_mono [OF only_in_trans [OF q(4)], of "{tab ?m d k}" "kmemory u" "?T (Suc k)"] True by (auto simp: S)
      moreover have "set (tab ?m d k # qs) = set ps \<union> ?T (Suc k)"
        using True q(3) by (auto simp: S)
      ultimately have "P (Suc k) u"
        unfolding P_def using u(2,3) q(1) by metis
      then show ?thesis
        using f u(1) by simp
    qed
  qed
  ultimately obtain t where "foldE (freevm_entry d) [0..<1024] s = Inr t" "P 1024 t"
    using foldE_upt [of P s 1024 "freevm_entry d"] by blast
  then show ?thesis
    unfolding P_def full by blast
qed

lemma freevm_ok:
  assumes s: "uspace s ps d"
  obtains t qs where "freevm d s = Inr t" "kpool t qs" "kowned t = kowned s" "set qs = set ps \<union> pages (kmemory s) d"
    "only_in (pages (kmemory s) d) (kmemory s) (kmemory t)"
proof -
  let ?m = "kmemory s"
  have K: "KERNBASE \<le> KERNBASE" "0 < KERNBASE" "npages 0 = 0" "npages KERNBASE = 524288" "unat NPDENTRIES = 1024"
    by (simp_all add: KERNBASE_def npages_def NPDENTRIES_def)
  obtain u fs where u: "deallocuvm d KERNBASE 0 s = Inr (0, u)" "dealloced s ps d 0 524288 u fs"
    using deallocuvm_ok [OF s K(1,2)] unfolding K(3,4) by blast
  have fs: "set fs = upages ?m d" and us: "space u (fs @ ps) d" and ut: "tables (kmemory u) d = tables ?m d" "kowned u = kowned s"
      and uo: "only_in (set fs \<union> tables ?m d) ?m (kmemory u)"
    using u(2) by (auto simp: dealloced_def uspace_def upages_def mapped_between_def user_pg)
  obtain t qs where t: "foldE (freevm_entry d) [0..<1024] u = Inr t" "kowned t = kowned u"
      "kpool t qs" "set qs = set (fs @ ps) \<union> tables ?m d" "only_in (tables ?m d) (kmemory u) (kmemory t)"
    using free_tables [OF us] unfolding ut by blast
  have d: "kowned s d" "d \<notin> set qs" "d \<noteq> 0"
    using s us t(4) fs kowned_not_null [of s d] by (auto simp: uspace_def space_def)
  obtain w where w: "kfree d t = Inr w" "kpool w (d # qs)" "kowned w = kowned t"
      "\<forall>x. \<not> in_range x d 4096 \<longrightarrow> kmemory w x = kmemory t x"
    using ka.dealloc_page [OF t(3), of d] d t(2) ut(2) by auto
  have wo: "only_in {d} (kmemory t) (kmemory w)"
    using w(4) by (simp add: only_in_def)
  have "only_in (pages ?m d) ?m (kmemory w)"
    by (rule only_in_mono [OF only_in_trans [OF only_in_trans [OF uo t(5)] wo]]) (use fs in \<open>auto simp: pages_def\<close>)
  moreover have "freevm d s = Inr w"
    using d(3) u(1) t(1) w(1) by (simp add: freevm_def K(5))
  ultimately show ?thesis
    using that [of w "d # qs"] w(2,3) t(2,4) ut(2) fs by (auto simp: pages_def)
qed

section \<open>Adding user memory\<close>

lemma take_page:
  assumes s: "uspace s (p # ps) d"
  obtains u where "kalloc s = Inr (p, u)" "kmemory u = kmemory s" "kowned u = kowned s" "p \<noteq> 0" "kowned s p"
    "p \<notin> pages (kmemory s) d" "p \<notin> set ps" "kpool u ps"
    "\<forall>m. only_in {p} (kmemory s) m \<longrightarrow> uspace (u\<lparr>kmemory := m\<rparr>) ps d \<and> entry m d = entry (kmemory s) d \<and>
       tables m d = tables (kmemory s) d \<and> pages m d = pages (kmemory s) d"
proof -
  have sp: "space s (p # ps) d"
    using s by (simp add: uspace_def)
  obtain u where u: "kalloc s = Inr (p, u)" "space u ps d" "kmemory u = kmemory s" "kowned u = kowned s"
      "kowned s p" "p \<noteq> d" "p \<notin> set ps" "p \<notin> tables (kmemory s) d"
    by (rule space_kalloc [OF sp])
  have us: "uspace u ps d" and kp: "kpool u ps"
    using s u by (auto simp: uspace_def space_def)
  have np: "p \<notin> pages (kmemory s) d"
    using s u(6,8) by (auto simp: pages_def uspace_def)
  have a: "aligned p"
    by (rule kowned_aligned [OF u(5)])
  have "uspace (u\<lparr>kmemory := m\<rparr>) ps d \<and> entry m d = entry (kmemory s) d \<and> tables m d = tables (kmemory s) d \<and>
      pages m d = pages (kmemory s) d" if o: "only_in {p} (kmemory s) m" for m
  proof -
    let ?t = "u\<lparr>kmemory := m\<rparr>"
    have o1: "only_in {p} (kmemory u) (kmemory ?t)" "\<forall>q \<in> {p}. aligned q \<and> q \<notin> insert d (tables (kmemory u) d)"
      using o a u(3,6,8) by auto
    have k: "kpool ?t ps"
      by (rule kpool_only_in [OF kp]) (use o1 a u(7) in auto)
    have dj: "set ps \<inter> pages (kmemory u) d = {}"
      using uspace_pages(3) [OF us] by blast
    show ?thesis
      using uspace_move [OF us o1 k _ dj] by (simp add: u(3))
  qed
  then show ?thesis
    using that [OF u(1,3,4) kowned_not_null [OF u(5)] u(5) np u(7) kp] by blast
qed

lemma map_one:
  assumes s: "space s ps d" and a: "aligned va" and e: "\<not> present (entry (kmemory s) d va)"
  obtains r t qs where "mappages d va PGSIZE pa perm s = Inr (r, t)" "grows d s ps t qs"
    "r = 0 \<and> entry (kmemory t) d = (\<lambda>vb. if same_page va vb then pa OR perm OR PTE_P else entry (kmemory s) d vb) \<or>
     r = - 1 \<and> qs = [] \<and> entry (kmemory t) d = entry (kmemory s) d"
proof -
  have z: "0 < PGSIZE" "unat va + unat PGSIZE \<le> 4294967296"
    using aligned_room [OF a] by (simp_all add: PGSIZE_def)
  have "unat (va + PGSIZE - 1) = unat va + 4095"
    using pg_last(1) [OF z(2,1)] by (simp add: PGSIZE_def)
  then have l: "pg (va + PGSIZE - 1) = pg va"
    using a by (auto simp: aligned_def elim!: dvdE)
  have "\<forall>vb. pg va \<le> pg vb \<and> pg vb \<le> pg (va + PGSIZE - 1) \<longrightarrow> \<not> present (entry (kmemory s) d vb)"
  proof (intro allI impI)
    fix vb assume "pg va \<le> pg vb \<and> pg vb \<le> pg (va + PGSIZE - 1)"
    then have "same_page va vb"
      unfolding l same_page_def by simp
    then show "\<not> present (entry (kmemory s) d vb)"
      using e same_page_entry by metis
  qed
  then obtain r t qs j where m: "mappages d va PGSIZE pa perm s = Inr (r, t)" "grows d s ps t qs"
      "entry (kmemory t) d = map_range (entry (kmemory s) d) va j pa perm"
      "r = 0 \<and> j = Suc (pg (va + PGSIZE - 1) - pg va) \<or> r = - 1 \<and> j \<le> pg (va + PGSIZE - 1) - pg va \<and> qs = []"
    by (rule mappages_ok [OF s z])
  show ?thesis
    by (rule that [OF m(1,2)]) (use m(3,4) in \<open>auto simp: l map_range_1\<close>)
qed

lemma uspace_grow_same:
  assumes s: "uspace s ps d" and g: "grows d s ps t qs" and e: "entry (kmemory t) d = entry (kmemory s) d"
  shows "uspace t qs d" "upages (kmemory t) d = upages (kmemory s) d"
  using s g upages_cong [OF e] by (auto simp: uspace_def grows_def e)

lemma uspace_grow_add:
  assumes s: "uspace s ps d" and g: "grows d s ps t qs" and p: "kowned s p" "p \<notin> set ps" "p \<notin> pages (kmemory s) d"
    and v: "va < KERNBASE" "\<not> present (entry (kmemory s) d va)"
    and e: "entry (kmemory t) d = (\<lambda>vb. if same_page va vb then x else entry (kmemory s) d vb)" "present x" "P2V (PTE_ADDR x) = p"
  shows "uspace t qs d" "upages (kmemory t) d = insert p (upages (kmemory s) d)"
proof -
  let ?m = "kmemory s" let ?n = "kmemory t"
  have mu: "mapped_user ?n d vb \<longleftrightarrow> same_page va vb \<or> mapped_user ?m d vb"
      "upage ?n d vb = (if same_page va vb then p else upage ?m d vb)" for vb
    using e v(1) same_page_user [of va vb] by (auto simp: upage_def)
  have nm: "\<not> same_page va vb" if "mapped_user ?m d vb" for vb
    using that v(2) same_page_entry [of va vb ?m d] by auto
  show up: "upages ?n d = insert p (upages ?m d)"
  proof -
    have "same_page va va"
      by (simp add: same_page_def)
    then show ?thesis
      using mu nm by (force simp: upages_def)
  qed
  have "same_page x y" if "mapped_user ?n d x" "mapped_user ?n d y" "upage ?n d x = upage ?n d y" for x y
  proof -
    have "upage ?m d z \<noteq> p" if "mapped_user ?m d z" for z
      using p(3) upages_I [OF that] by (auto simp: pages_def)
    then show ?thesis
      using that s unfolding mu uspace_def by (cases "same_page va x"; cases "same_page va y") (auto simp: same_page_def)
  qed
  moreover have "q \<noteq> d \<and> q \<notin> tables ?n d \<and> q \<notin> set qs \<and> kowned t q" if "q \<in> insert p (upages ?m d)" for q
    using that s g p by (auto simp: uspace_def grows_def pages_def)
  ultimately show "uspace t qs d"
    using s g unfolding uspace_def up by (auto simp: grows_def)
qed

text \<open>
  User memory has grown by the pages from number \<^verbatim>\<open>lo\<close> up to \<^verbatim>\<open>hi\<close>: each is backed by a page of its own
  that was free before, is writable from user mode and holds zeros; nothing else is mapped differently.
\<close>

definition grown :: "'a kmem_scheme \<Rightarrow> addr list \<Rightarrow> addr \<Rightarrow> nat \<Rightarrow> nat \<Rightarrow> 'a kmem_scheme \<Rightarrow> addr list \<Rightarrow> bool" where
  "grown s ps d lo hi t qs \<longleftrightarrow> uspace t qs d \<and> kowned t = kowned s \<and>
     (\<exists>us. ps = us @ qs \<and> pages (kmemory t) d = pages (kmemory s) d \<union> set us \<and>
        only_in (insert d (tables (kmemory t) d \<union> set us)) (kmemory s) (kmemory t)) \<and>
     (\<forall>vb. if lo \<le> pg vb \<and> pg vb < hi
        then PTE_FLAGS (entry (kmemory t) d vb) = PTE_P OR PTE_W OR PTE_U \<and> upage (kmemory t) d vb \<in> set ps \<and>
          (\<forall>x. in_range x (upage (kmemory t) d vb) 4096 \<longrightarrow> kmemory t x = 0)
        else entry (kmemory t) d vb = entry (kmemory s) d vb)"

lemma grown_none: "uspace s ps d \<Longrightarrow> hi \<le> lo \<Longrightarrow> grown s ps d lo hi s ps"
  by (auto simp: grown_def)

lemma flags_present: "PTE_FLAGS e = PTE_P OR PTE_W OR PTE_U \<Longrightarrow> present e"
proof -
  assume "PTE_FLAGS e = PTE_P OR PTE_W OR PTE_U"
  then have "(e AND 0xFFF) AND 1 = 7 AND 1"
    by (simp add: PTE_FLAGS_def pte_bits)
  then have "e AND (0xFFF AND 1) = 1"
    unfolding and.assoc by simp
  then show ?thesis
    by (simp add: PTE_P_def)
qed

lemma user_entry:
  assumes "kowned s p"
  shows "PTE_ADDR (V2P p OR (PTE_W OR PTE_U) OR PTE_P) = V2P p" "PTE_FLAGS (V2P p OR (PTE_W OR PTE_U) OR PTE_P) = PTE_P OR PTE_W OR PTE_U"
    "present (V2P p OR (PTE_W OR PTE_U) OR PTE_P)"
proof -
  have f: "PTE_P OR PTE_W OR PTE_U = 7" "PTE_W OR PTE_U OR PTE_P = 7" "(7 :: uint) AND NOT 0xFFF = 0"
    by (simp_all add: pte_bits)
  show "PTE_ADDR (V2P p OR (PTE_W OR PTE_U) OR PTE_P) = V2P p" "PTE_FLAGS (V2P p OR (PTE_W OR PTE_U) OR PTE_P) = PTE_P OR PTE_W OR PTE_U"
    using PTE_ADDR_or [OF aligned_V2P [OF kowned_aligned [OF assms]] f(3)] unfolding f(1) by (simp_all add: f(2) or.assoc)
  show "present (V2P p OR (PTE_W OR PTE_U) OR PTE_P)"
    by simp
qed

text \<open>One more page, with the possible outcomes of \<^verbatim>\<open>mappages\<close>.\<close>

lemma place_page:
  assumes s: "uspace s ps d" and p: "kowned s p" "p \<notin> set ps" "p \<notin> pages (kmemory s) d"
    and v: "aligned va" "va < KERNBASE" "\<not> present (entry (kmemory s) d va)"
    and f: "PTE_ADDR (V2P p OR perm OR PTE_P) = V2P p"
  obtains r t qs us where "mappages d va PGSIZE (V2P p) perm s = Inr (r, t)" "uspace t qs d" "kowned t = kowned s"
    "ps = us @ qs" "tables (kmemory t) d = tables (kmemory s) d \<union> set us"
    "only_in (insert d (tables (kmemory t) d)) (kmemory s) (kmemory t)"
    "r = 0 \<and> entry (kmemory t) d = (\<lambda>vb. if same_page va vb then V2P p OR perm OR PTE_P else entry (kmemory s) d vb) \<and>
       upages (kmemory t) d = insert p (upages (kmemory s) d) \<or>
     r = - 1 \<and> qs = [] \<and> entry (kmemory t) d = entry (kmemory s) d \<and> upages (kmemory t) d = upages (kmemory s) d"
proof -
  have sp: "space s ps d"
    using s by (simp add: uspace_def)
  obtain r t qs where m: "mappages d va PGSIZE (V2P p) perm s = Inr (r, t)" "grows d s ps t qs"
    "r = 0 \<and> entry (kmemory t) d = (\<lambda>vb. if same_page va vb then V2P p OR perm OR PTE_P else entry (kmemory s) d vb) \<or>
     r = - 1 \<and> qs = [] \<and> entry (kmemory t) d = entry (kmemory s) d"
    by (rule map_one [OF sp v(1,3)])
  obtain us where us: "ps = us @ qs" "tables (kmemory t) d = tables (kmemory s) d \<union> set us" "kowned t = kowned s"
      "only_in (insert d (tables (kmemory t) d)) (kmemory s) (kmemory t)"
    using m(2) by (auto simp: grows_def)
  have q: "P2V (PTE_ADDR (V2P p OR perm OR PTE_P)) = p" "present (V2P p OR perm OR PTE_P)"
    by (simp_all add: f)
  show ?thesis
  proof (cases "r = 0")
    case True
    then have e: "entry (kmemory t) d = (\<lambda>vb. if same_page va vb then V2P p OR perm OR PTE_P else entry (kmemory s) d vb)"
      using m(3) by auto
    note U = uspace_grow_add [OF s m(2) p v(2,3) e q(2,1)]
    show ?thesis
      by (rule that [OF m(1) U(1) us(3,1,2,4)]) (use True e U(2) in simp)
  next
    case False
    then have e: "r = - 1" "qs = []" "entry (kmemory t) d = entry (kmemory s) d"
      using m(3) by auto
    note U = uspace_grow_same [OF s m(2) e(3)]
    show ?thesis
      by (rule that [OF m(1) U(1) us(3,1,2,4)]) (use e U(2) in simp)
  qed
qed

text \<open>
  Growing has got as far as page number \<^verbatim>\<open>k\<close>, with the pages \<^verbatim>\<open>X\<close> in hand; and growing has been undone:
  the same translations are in force as before, and every page is free, in hand or part of the address
  space.
\<close>

definition partial :: "'a kmem_scheme \<Rightarrow> addr list \<Rightarrow> addr \<Rightarrow> nat \<Rightarrow> nat \<Rightarrow> addr set \<Rightarrow> 'a kmem_scheme \<Rightarrow> addr list \<Rightarrow> bool" where
  "partial s ps d lo k X t qs \<longleftrightarrow> uspace t qs d \<and> kowned t = kowned s \<and>
     set qs \<union> X \<union> pages (kmemory t) d = set ps \<union> pages (kmemory s) d \<and>
     (\<forall>vb. if lo \<le> pg vb \<and> pg vb < k then present (entry (kmemory t) d vb) \<and> upage (kmemory t) d vb \<in> set ps
        else entry (kmemory t) d vb = entry (kmemory s) d vb) \<and>
     only_in (insert d (tables (kmemory t) d \<union> set ps)) (kmemory s) (kmemory t)"

definition undone :: "'a kmem_scheme \<Rightarrow> addr list \<Rightarrow> addr \<Rightarrow> addr set \<Rightarrow> 'a kmem_scheme \<Rightarrow> addr list \<Rightarrow> bool" where
  "undone s ps d X t qs \<longleftrightarrow> uspace t qs d \<and> kowned t = kowned s \<and>
     set qs \<union> X \<union> pages (kmemory t) d = set ps \<union> pages (kmemory s) d \<and>
     (\<forall>vb. if present (entry (kmemory s) d vb) then entry (kmemory t) d vb = entry (kmemory s) d vb
        else \<not> present (entry (kmemory t) d vb)) \<and>
     only_in (insert d (tables (kmemory t) d \<union> set ps)) (kmemory s) (kmemory t)"

lemma grown_partial:
  assumes "grown s ps d lo k t qs"
  shows "partial s ps d lo k {} t qs"
proof -
  obtain us where us: "ps = us @ qs" "pages (kmemory t) d = pages (kmemory s) d \<union> set us"
      "only_in (insert d (tables (kmemory t) d \<union> set us)) (kmemory s) (kmemory t)"
    using assms by (auto simp: grown_def)
  have "only_in (insert d (tables (kmemory t) d \<union> set ps)) (kmemory s) (kmemory t)"
    by (rule only_in_mono [OF us(3)]) (use us(1) in auto)
  moreover have "\<forall>vb. if lo \<le> pg vb \<and> pg vb < k then present (entry (kmemory t) d vb) \<and> upage (kmemory t) d vb \<in> set ps
        else entry (kmemory t) d vb = entry (kmemory s) d vb"
  proof
    fix vb
    show "if lo \<le> pg vb \<and> pg vb < k then present (entry (kmemory t) d vb) \<and> upage (kmemory t) d vb \<in> set ps
        else entry (kmemory t) d vb = entry (kmemory s) d vb"
      using assms flags_present [of "entry (kmemory t) d vb"] unfolding grown_def by presburger
  qed
  moreover have "uspace t qs d" "kowned t = kowned s" "set qs \<union> {} \<union> pages (kmemory t) d = set ps \<union> pages (kmemory s) d"
    using assms us(1,2) by (auto simp: grown_def)
  ultimately show ?thesis
    unfolding partial_def by blast
qed

lemma dealloced_pages:
  assumes "dealloced s ps d lo hi t fs" "hi \<le> 524288"
  shows "set fs \<union> pages (kmemory t) d = pages (kmemory s) d"
proof -
  let ?m = "kmemory s" let ?n = "kmemory t"
  have e: "entry ?n d = cleared (entry ?m d) lo hi" and f: "set fs = upage ?m d ` mapped_between ?m d lo hi"
      and tb: "tables ?n d = tables ?m d"
    using assms(1) by (simp_all add: dealloced_def)
  have mu: "mapped_user ?m d vb \<longleftrightarrow> mapped_user ?n d vb \<or> vb \<in> mapped_between ?m d lo hi" for vb
    using assms(2) by (auto simp: e cleared_def mapped_between_def user_pg)
  have "upage ?n d vb = upage ?m d vb" if "mapped_user ?n d vb" for vb
    using that by (auto simp: upage_def e cleared_def split: if_splits)
  then have "upages ?n d = upage ?m d ` {vb. mapped_user ?n d vb}"
    by (simp add: upages_def)
  then have "upages ?m d = upages ?n d \<union> set fs"
    unfolding f upages_def [of ?m] mu by (simp add: Collect_disj_eq image_Un)
  then show ?thesis
    by (auto simp: pages_def tb)
qed

lemma partial_undo:
  assumes p: "partial s ps d lo k X t qs" and k: "k \<le> hi" "hi \<le> 524288"
    and a: "\<forall>vb. lo \<le> pg vb \<and> pg vb < hi \<longrightarrow> \<not> present (entry (kmemory s) d vb)"
    and u: "dealloced t qs d lo hi u fs"
  shows "undone s ps d X u (fs @ qs)"
proof -
  let ?m = "kmemory s" let ?n = "kmemory t" let ?o = "kmemory u"
  have u': "uspace u (fs @ qs) d" "kowned u = kowned t" "tables ?o d = tables ?n d" "entry ?o d = cleared (entry ?n d) lo hi"
      "set fs = upage ?n d ` mapped_between ?n d lo hi" "only_in (set fs \<union> tables ?n d) ?n ?o"
    using u unfolding dealloced_def by blast+
  have p': "if lo \<le> pg vb \<and> pg vb < k then present (entry ?n d vb) \<and> upage ?n d vb \<in> set ps
      else entry ?n d vb = entry ?m d vb" for vb
    using p unfolding partial_def by blast
  have fs: "set fs \<subseteq> set ps"
  proof
    fix q assume "q \<in> set fs"
    then obtain vb where vb: "q = upage ?n d vb" "lo \<le> pg vb" "pg vb < hi" "present (entry ?n d vb)"
      by (auto simp: u'(5) mapped_between_def)
    then show "q \<in> set ps"
      using p' [of vb] a by (auto split: if_splits)
  qed
  have e: "if present (entry ?m d vb) then entry ?o d vb = entry ?m d vb else \<not> present (entry ?o d vb)" for vb
    using p' [of vb] a k(1) by (cases "lo \<le> pg vb \<and> pg vb < hi") (auto simp: u'(4) cleared_def split: if_splits)
  have "only_in (insert d (tables ?n d \<union> set ps)) ?m ?n"
    using p unfolding partial_def by blast
  from only_in_trans [OF this u'(6)] have o: "only_in (insert d (tables ?o d \<union> set ps)) ?m ?o"
    by (rule only_in_mono) (use fs u'(3) in auto)
  have "set (fs @ qs) \<union> X \<union> pages ?o d = set ps \<union> pages ?m d" "kowned u = kowned s"
    using dealloced_pages [OF u k(2)] u'(2) p by (auto simp: partial_def)
  then show ?thesis
    using u'(1) e o unfolding undone_def by blast
qed

lemma undone_kfree:
  assumes t: "undone s ps d {p} t qs" and p: "kowned s p" "p \<notin> set qs" "p \<notin> pages (kmemory t) d" "p \<in> set ps"
  shows "\<exists>w. kfree p t = Inr w \<and> undone s ps d {} w (p # qs)"
proof -
  have us: "uspace t qs d" and kw: "kowned t = kowned s"
    using t by (simp_all add: undone_def)
  have pool: "kpool t qs"
    using us by (simp add: uspace_def space_def)
  obtain w where w: "kfree p t = Inr w" "kpool w (p # qs)" "kowned w = kowned t"
      "\<forall>x. \<not> in_range x p 4096 \<longrightarrow> kmemory w x = kmemory t x"
    using ka.dealloc_page [OF pool, of p] p(1,2) kw by auto
  have o: "only_in {p} (kmemory t) (kmemory w)" "\<forall>q \<in> {p}. aligned q \<and> q \<notin> insert d (tables (kmemory t) d)"
    using w(4) kowned_aligned [OF p(1)] p(3) by (auto simp: only_in_def pages_def)
  have dj: "set (p # qs) \<inter> pages (kmemory t) d = {}"
    using uspace_pages(3) [OF us] p(3) by auto
  note M = uspace_move [OF us o w(2,3) dj]
  have "only_in (insert d (tables (kmemory t) d \<union> set ps)) (kmemory s) (kmemory t)"
    using t unfolding undone_def by blast
  from only_in_trans [OF this o(1)] have "only_in (insert d (tables (kmemory w) d \<union> set ps)) (kmemory s) (kmemory w)"
    by (rule only_in_mono) (use M(4) p(4) in auto)
  then have "undone s ps d {} w (p # qs)"
    using t M w(3) kw unfolding undone_def by (simp only: M) auto
  then show ?thesis
    using w(1) by blast
qed

lemma pg_of_nat: "k < 1048576 \<Longrightarrow> pg (of_nat (4096 * k)) = k" "k < 1048576 \<Longrightarrow> aligned (of_nat (4096 * k))"
  using unat_of_nat_uint [of "4096 * k"] by (simp_all add: aligned_def)

lemma page_kept:
  assumes "only_in D m m'" "\<forall>q \<in> D. aligned q" "aligned p" "p \<notin> D" "\<forall>x. in_range x p 4096 \<longrightarrow> m x = c"
  shows "\<forall>x. in_range x p 4096 \<longrightarrow> m' x = c"
  using only_in_page [OF assms(1-4)] assms(5) by simp

lemma grown_extend:
  assumes g: "grown s ps d lo k t (p # qs)" and k: "lo \<le> k" "k < 524288" and p: "p \<notin> pages (kmemory t) d"
    and w: "uspace w rs d" "kowned w = kowned t" "qs = vs @ rs" "tables (kmemory w) d = tables (kmemory t) d \<union> set vs"
      "upages (kmemory w) d = insert p (upages (kmemory t) d)" "only_in (insert p (insert d (tables (kmemory w) d))) (kmemory t) (kmemory w)"
      "\<forall>x. in_range x p 4096 \<longrightarrow> kmemory w x = 0"
      "entry (kmemory w) d = (\<lambda>vb. if pg vb = k then e else entry (kmemory t) d vb)"
    and e: "PTE_FLAGS e = PTE_P OR PTE_W OR PTE_U" "P2V (PTE_ADDR e) = p"
  shows "grown s ps d lo (Suc k) w rs"
proof -
  let ?m = "kmemory s" let ?n = "kmemory t" let ?o = "kmemory w"
  obtain us where us: "ps = us @ p # qs" "pages ?n d = pages ?m d \<union> set us" "only_in (insert d (tables ?n d \<union> set us)) ?m ?n"
      and kw: "kowned t = kowned s"
    using g by (auto simp: grown_def)
  have ge: "if lo \<le> pg vb \<and> pg vb < k
        then PTE_FLAGS (entry ?n d vb) = PTE_P OR PTE_W OR PTE_U \<and> upage ?n d vb \<in> set ps \<and>
          (\<forall>x. in_range x (upage ?n d vb) 4096 \<longrightarrow> ?n x = 0)
        else entry ?n d vb = entry ?m d vb" for vb
    using g unfolding grown_def by blast
  have pgs: "pages ?o d = pages ?m d \<union> set (us @ p # vs)"
    using us(2) w(4,5) by (auto simp: pages_def)
  have o: "only_in (insert d (tables ?o d \<union> set (us @ p # vs))) ?m ?o"
    by (rule only_in_mono [OF only_in_trans [OF us(3) w(6)]]) (use w(4) in auto)
  have al: "\<forall>q \<in> insert p (insert d (tables ?o d)). aligned q"
    using uspace_pages(2) [OF w(1)] w(5) by (auto simp: pages_def)
  have "if lo \<le> pg vb \<and> pg vb < Suc k
        then PTE_FLAGS (entry ?o d vb) = PTE_P OR PTE_W OR PTE_U \<and> upage ?o d vb \<in> set ps \<and>
          (\<forall>x. in_range x (upage ?o d vb) 4096 \<longrightarrow> ?o x = 0)
        else entry ?o d vb = entry ?m d vb" for vb
  proof (cases "pg vb = k")
    case True
    then show ?thesis
      using k(1) e w(7,8) us(1) by (simp add: upage_def)
  next
    case False
    then have eq: "entry ?o d vb = entry ?n d vb" "upage ?o d vb = upage ?n d vb"
      by (simp_all add: w(8) upage_def)
    show ?thesis
    proof (cases "lo \<le> pg vb \<and> pg vb < k")
      case True
      then have t: "PTE_FLAGS (entry ?n d vb) = PTE_P OR PTE_W OR PTE_U" "upage ?n d vb \<in> set ps"
          "\<forall>x. in_range x (upage ?n d vb) 4096 \<longrightarrow> ?n x = 0"
        using ge [of vb] by auto
      have "mapped_user ?n d vb"
        using True k(2) flags_present [OF t(1)] by (simp add: user_pg)
      from upages_I [OF this] have q: "upage ?n d vb \<in> upages ?o d" "upage ?n d vb \<noteq> p"
        using p w(5) by (auto simp: pages_def)
      then have "aligned (upage ?n d vb)" "upage ?n d vb \<notin> insert p (insert d (tables ?o d))"
        using w(1) kowned_aligned by (auto simp: uspace_def)
      from page_kept [OF w(6) al this t(3)] show ?thesis
        using True t(1,2) by (simp add: eq)
    next
      case f: False
      then show ?thesis
        using ge [of vb] False eq by auto
    qed
  qed
  moreover have "kowned w = kowned s" "ps = (us @ p # vs) @ rs"
    using w(2,3) kw us(1) by simp_all
  ultimately show ?thesis
    using w(1) pgs o unfolding grown_def by blast
qed

lemma grow_step:
  assumes g: "grown s ps d lo k t (p # qs)" and k: "lo \<le> k" "k < 524288"
    and a: "\<not> present (entry (kmemory s) d (of_nat (4096 * k)))" and u: "kalloc t = Inr (p, u)"
  defines "u' \<equiv> u\<lparr>kmemory := memset (kmemory u) p 0 PGSIZE\<rparr>"
  obtains r w rs where "mappages d (of_nat (4096 * k)) PGSIZE (V2P p) (PTE_W OR PTE_U) u' = Inr (r, w)"
    "r = 0 \<and> grown s ps d lo (Suc k) w rs \<or>
     r = - 1 \<and> partial s ps d lo k {p} w rs \<and> kowned s p \<and> p \<notin> set rs \<and> p \<notin> pages (kmemory w) d \<and> p \<in> set ps"
proof -
  let ?va = "of_nat (4096 * k) :: addr" let ?e = "V2P p OR (PTE_W OR PTE_U) OR PTE_P"
  have va: "pg ?va = k" "aligned ?va" "?va < KERNBASE"
    using k(2) pg_of_nat [of k] by (simp_all add: user_pg del: of_nat_mult)
  obtain us where us: "ps = us @ p # qs" "pages (kmemory t) d = pages (kmemory s) d \<union> set us"
      "only_in (insert d (tables (kmemory t) d \<union> set us)) (kmemory s) (kmemory t)"
      and st: "uspace t (p # qs) d" and kw: "kowned t = kowned s"
    using g by (auto simp: grown_def)
  have ge: "if lo \<le> pg vb \<and> pg vb < k
        then PTE_FLAGS (entry (kmemory t) d vb) = PTE_P OR PTE_W OR PTE_U \<and> upage (kmemory t) d vb \<in> set ps \<and>
          (\<forall>x. in_range x (upage (kmemory t) d vb) 4096 \<longrightarrow> kmemory t x = 0)
        else entry (kmemory t) d vb = entry (kmemory s) d vb" for vb
    using g unfolding grown_def by blast
  obtain v where v: "kalloc t = Inr (p, v)" "kmemory v = kmemory t" "kowned v = kowned t" "p \<noteq> 0" "kowned t p"
      "p \<notin> pages (kmemory t) d" "p \<notin> set qs" "kpool v qs"
      "\<forall>m. only_in {p} (kmemory t) m \<longrightarrow> uspace (v\<lparr>kmemory := m\<rparr>) qs d \<and> entry m d = entry (kmemory t) d \<and>
         tables m d = tables (kmemory t) d \<and> pages m d = pages (kmemory t) d"
    by (rule take_page [OF st])
  have uv: "u = v"
    using u v(1) by simp
  let ?m = "memset (kmemory t) p 0 PGSIZE"
  have u'm: "kmemory u' = ?m" "kowned u' = kowned s"
    by (simp_all add: u'_def uv v(2,3) kw)
  have m: "uspace u' qs d" "entry ?m d = entry (kmemory t) d" "tables ?m d = tables (kmemory t) d"
      "pages ?m d = pages (kmemory t) d"
    using v(9) [rule_format, OF only_in_memset [of p "kmemory t" 0]] by (simp_all add: u'_def uv v(2))
  have ab: "\<not> present (entry (kmemory u') d ?va)" "kowned u' p" "p \<notin> pages (kmemory u') d"
    using ge [of ?va] a va(1) v(5,6) kw by (auto simp: u'm m simp del: of_nat_mult)
  obtain r w rs vs where w: "mappages d ?va PGSIZE (V2P p) (PTE_W OR PTE_U) u' = Inr (r, w)" "uspace w rs d" "kowned w = kowned u'"
    "qs = vs @ rs" "tables (kmemory w) d = tables (kmemory u') d \<union> set vs"
    "only_in (insert d (tables (kmemory w) d)) (kmemory u') (kmemory w)"
    "r = 0 \<and> entry (kmemory w) d = (\<lambda>vb. if same_page ?va vb then ?e else entry (kmemory u') d vb) \<and>
       upages (kmemory w) d = insert p (upages (kmemory u') d) \<or>
     r = - 1 \<and> rs = [] \<and> entry (kmemory w) d = entry (kmemory u') d \<and> upages (kmemory w) d = upages (kmemory u') d"
    by (rule place_page [OF m(1) ab(2) v(7) ab(3) va(2,3) ab(1) user_entry(1) [OF ab(2)]])
  let ?o = "kmemory w"
  have sp: "same_page ?va vb \<longleftrightarrow> pg vb = k" for vb
    using va(1) by (auto simp: same_page_def)
  have pw: "only_in (insert p (insert d (tables ?o d))) (kmemory t) ?o"
    by (rule only_in_mono [OF only_in_trans [OF only_in_memset w(6) [unfolded u'm(1)]]]) auto
  show ?thesis
  proof (cases "r = 0")
    case True
    then have e: "entry ?o d = (\<lambda>vb. if pg vb = k then ?e else entry (kmemory t) d vb)" "upages ?o d = insert p (upages (kmemory t) d)"
      using w(7) [unfolded sp u'm(1) m(2)] upages_cong [OF m(2)] by auto
    have np: "p \<notin> insert d (tables ?o d)" and al: "\<forall>q \<in> insert d (tables ?o d). aligned q"
      using w(2) e(2) uspace_pages(2) [OF w(2)] by (auto simp: uspace_def pages_def)
    have z: "\<forall>x. in_range x p 4096 \<longrightarrow> ?o x = 0"
      by (rule page_kept [OF w(6) al kowned_aligned [OF v(5)] np]) (simp add: u'm(1) memset_page)
    have "grown s ps d lo (Suc k) w rs"
      by (rule grown_extend [OF g k v(6) w(2) _ w(4) _ e(2) pw z e(1) user_entry(2) [OF ab(2)]])
        (simp_all add: w(3,5) u'm kw m(3) user_entry(1) [OF ab(2)])
    then show ?thesis
      using that [OF w(1)] True by blast
  next
    case False
    then have e: "r = - 1" "rs = []" "entry ?o d = entry (kmemory t) d" "upages ?o d = upages (kmemory t) d"
      using w(7) [unfolded u'm(1) m(2)] upages_cong [OF m(2)] by auto
    have tw: "tables ?o d = tables (kmemory t) d \<union> set qs"
      using w(4,5) e(2) by (simp add: u'm(1) m(3))
    have o: "only_in (insert d (tables ?o d \<union> set ps)) (kmemory s) ?o"
      by (rule only_in_mono [OF only_in_trans [OF us(3) pw]]) (use us(1) tw in auto)
    have "if lo \<le> pg vb \<and> pg vb < k then present (entry ?o d vb) \<and> upage ?o d vb \<in> set ps
        else entry ?o d vb = entry (kmemory s) d vb" for vb
      using grown_partial [OF g] upages_cong [OF e(3)] unfolding partial_def e(3) by simp
    moreover have "set rs \<union> {p} \<union> pages ?o d = set ps \<union> pages (kmemory s) d" "p \<notin> pages ?o d"
      using us(1,2) tw e(2,4) v(6,7) by (auto simp: pages_def)
    ultimately have "partial s ps d lo k {p} w rs" "p \<notin> pages ?o d"
      using w(2,3) u'm(2) o unfolding partial_def by auto
    then show ?thesis
      using that [OF w(1), of rs] e(1,2) v(5) kw us(1) by simp
  qed
qed

lemma npages_user: "sz \<le> KERNBASE \<Longrightarrow> npages sz \<le> 524288"
  using npages_mono [of sz KERNBASE] by (simp add: npages_def KERNBASE_def)

lemma undo_ok:
  assumes p: "partial s ps d (npages oldsz) k X t qs" and k: "npages oldsz \<le> k" "k < npages newsz" and n: "newsz < KERNBASE"
    and a: "\<forall>vb. npages oldsz \<le> pg vb \<and> pg vb < npages newsz \<longrightarrow> \<not> present (entry (kmemory s) d vb)"
  obtains u fs where "deallocuvm d newsz oldsz t = Inr (oldsz, u)" "undone s ps d X u (fs @ qs)"
    "set fs \<union> pages (kmemory u) d = pages (kmemory t) d"
proof -
  have us: "uspace t qs d" and n': "newsz \<le> KERNBASE" "oldsz < newsz"
    using p n k npages_mono [of newsz oldsz] by (auto simp: partial_def not_less [symmetric])
  obtain u fs where u: "deallocuvm d newsz oldsz t = Inr (oldsz, u)" "dealloced t qs d (npages oldsz) (npages newsz) u fs"
    by (rule deallocuvm_ok [OF us n'])
  have "undone s ps d X u (fs @ qs)"
    by (rule partial_undo [OF p less_imp_le [OF k(2)] npages_user [OF n'(1)] a u(2)])
  then show ?thesis
    using that [OF u(1)] dealloced_pages [OF u(2) npages_user [OF n'(1)]] by blast
qed

lemma alloc_loop_ok:
  assumes "grown s ps d (npages oldsz) k t qs" "npages oldsz \<le> k" "k \<le> npages newsz" and n: "newsz < KERNBASE"
    and a: "\<forall>vb. npages oldsz \<le> pg vb \<and> pg vb < npages newsz \<longrightarrow> \<not> present (entry (kmemory s) d vb)"
  shows "\<exists>r w rs. allocuvm_loop d oldsz newsz (4096 * k) t = Inr (r, w) \<and>
    (r = newsz \<and> grown s ps d (npages oldsz) (npages newsz) w rs \<or> r = 0 \<and> undone s ps d {} w rs)"
  using assms(1-3)
proof (induction "npages newsz - k" arbitrary: k t qs)
  case 0
  then have k: "k = npages newsz" "\<not> 4096 * k < unat newsz"
    by (simp_all add: npages_def)
  then have "allocuvm_loop d oldsz newsz (4096 * k) t = Inr (newsz, t)"
    by (subst allocuvm_loop.simps) simp
  then show ?case
    using 0(2) k(1) by blast
next
  case (Suc j)
  have k: "k < npages newsz" "k < 524288"
    using Suc.hyps(2) npages_user [OF less_imp_le [OF n]] by linarith+
  have l: "4096 * k < unat newsz"
    using k(1) by (simp add: npages_def)
  have us: "uspace t qs d"
    using Suc.prems(1) by (simp add: grown_def)
  show ?case
  proof (cases qs)
    case Nil
    obtain u where u: "kalloc t = Inr (0, u)" "space u [] d" "kmemory u = kmemory t" "kowned u = kowned t"
      using space_kalloc_empty [of t d] us Nil by (auto simp: uspace_def)
    have "partial s ps d (npages oldsz) k {} u []"
      using grown_partial [OF Suc.prems(1)] us u Nil unfolding partial_def uspace_def by simp
    then obtain w fs where w: "deallocuvm d newsz oldsz u = Inr (oldsz, w)" "undone s ps d {} w (fs @ [])"
      by (rule undo_ok [OF _ Suc.prems(2) k(1) n a])
    have "allocuvm_loop d oldsz newsz (4096 * k) t = Inr (0, w)"
      unfolding allocuvm_loop.simps [of d oldsz newsz "4096 * k" t] using u(1) l w(1) by simp
    then show ?thesis
      using w(2) by blast
  next
    case (Cons p rs)
    have pool: "kpool t (p # rs)"
      using us Cons by (simp add: uspace_def space_def)
    then have "p \<noteq> 0"
      using ka.pool_wf [OF pool] ka.owned_not_null by auto
    then obtain u where u: "kalloc t = Inr (p, u)" "p \<noteq> 0"
      using ka.alloc_page [OF pool] by blast
    have pk: "pg (of_nat (4096 * k)) = k"
      using pg_of_nat [of k] k(2) by simp
    have ab: "\<not> present (entry (kmemory s) d (of_nat (4096 * k)))"
      using a pk k(1) Suc.prems(2) by simp
    obtain r w vs where w: "mappages d (of_nat (4096 * k)) PGSIZE (V2P p) (PTE_W OR PTE_U)
          (u\<lparr>kmemory := memset (kmemory u) p 0 PGSIZE\<rparr>) = Inr (r, w)"
        "r = 0 \<and> grown s ps d (npages oldsz) (Suc k) w vs \<or>
         r = - 1 \<and> partial s ps d (npages oldsz) k {p} w vs \<and> kowned s p \<and> p \<notin> set vs \<and> p \<notin> pages (kmemory w) d \<and> p \<in> set ps"
      by (rule grow_step [OF Suc.prems(1) [unfolded Cons] Suc.prems(2) k(2) ab u(1)])
    have L: "allocuvm_loop d oldsz newsz (4096 * k) t = (if r < 0 then bindE (deallocuvm d newsz oldsz w)
        (\<lambda>(_, s). bindE (kfree p s) (\<lambda>s. Inr (0, s))) else allocuvm_loop d oldsz newsz (4096 * k + 4096) w)"
      unfolding allocuvm_loop.simps [of d oldsz newsz "4096 * k" t] using u l w(1) by simp
    show ?thesis
    proof (cases "r = 0")
      case True
      then have g: "grown s ps d (npages oldsz) (Suc k) w vs"
        using w(2) by auto
      have "j = npages newsz - Suc k" "npages oldsz \<le> Suc k" "Suc k \<le> npages newsz"
        using Suc.hyps(2) Suc.prems(2) k(1) by auto
      from Suc.hyps(1) [OF this(1) g this(2,3)] show ?thesis
        unfolding L using True by (simp add: add.commute)
    next
      case False
      then have f: "r = - 1" "partial s ps d (npages oldsz) k {p} w vs" "kowned s p" "p \<notin> set vs" "p \<notin> pages (kmemory w) d" "p \<in> set ps"
        using w(2) by auto
      obtain x fs where x: "deallocuvm d newsz oldsz w = Inr (oldsz, x)" "undone s ps d {p} x (fs @ vs)"
          "set fs \<union> pages (kmemory x) d = pages (kmemory w) d"
        by (rule undo_ok [OF f(2) Suc.prems(2) k(1) n a])
      have np: "p \<notin> set (fs @ vs)" "p \<notin> pages (kmemory x) d"
        using f(4,5) x(3) by auto
      obtain y where "kfree p x = Inr y" "undone s ps d {} y (p # fs @ vs)"
        using undone_kfree [OF x(2) f(3) np f(6)] by blast
      then show ?thesis
        unfolding L using x(1) f(1) by auto
    qed
  qed
qed

text \<open>
  C26: Growing user memory.  On a well-formed address space whose pages between the two sizes are not
  mapped, \<^verbatim>\<open>allocuvm\<close> with a new size below \<^verbatim>\<open>KERNBASE\<close> never panics.  It gives the new size with every page in
  between backed by a page of its own from the free list, zeroed, writable and accessible to the user,
  and nothing else mapped differently; or it gives 0 and has undone everything: the translations are
  those from before and no page is lost, tables that were added staying with the address space.  A new
  size in kernel space gives 0 and a smaller one the old size, without any change.
\<close>

theorem allocuvm_grows:
  assumes s: "uspace s ps d"
    and a: "\<forall>vb. npages oldsz \<le> pg vb \<and> pg vb < npages newsz \<longrightarrow> \<not> present (entry (kmemory s) d vb)"
  shows "if newsz \<ge> KERNBASE then allocuvm d oldsz newsz s = Inr (0, s)
    else if newsz < oldsz then allocuvm d oldsz newsz s = Inr (oldsz, s)
    else \<exists>r t qs. allocuvm d oldsz newsz s = Inr (r, t) \<and>
      (r = newsz \<and> grown s ps d (npages oldsz) (npages newsz) t qs \<or> r = 0 \<and> undone s ps d {} t qs)"
proof (cases "newsz \<ge> KERNBASE \<or> newsz < oldsz")
  case True
  then show ?thesis
    by (auto simp: allocuvm_def)
next
  case False
  then have n: "newsz < KERNBASE" "oldsz \<le> newsz" "oldsz \<le> KERNBASE"
    by auto
  have st: "unat (PGROUNDUP oldsz) = 4096 * npages oldsz"
    using aligned_pg [OF aligned_PGROUNDUP, of oldsz] PGROUNDUP_pg [OF n(3)] by simp
  have "grown s ps d (npages oldsz) (npages oldsz) s ps"
    by (rule grown_none [OF s order_refl])
  from alloc_loop_ok [OF this order_refl npages_mono [OF n(2)] n(1) a] show ?thesis
    using False unfolding allocuvm_def de_Morgan_disj by (simp only: st if_False)
qed


lemma vm_boot_uspace:
  assumes "distinct ps" "\<forall>p \<in> set ps. p mod 4096 = 0 \<and> 0x80110000 \<le> p \<and> p < 0x8E000000"
    "d mod 4096 = 0" "0x80110000 \<le> d" "d < 0x8E000000" "d \<notin> set ps"
  shows "uspace (vm_boot ps) ps d" "upages (kmemory (vm_boot ps)) d = {}"
proof -
  note S = vm_boot_space [OF assms]
  show u: "upages (kmemory (vm_boot ps)) d = {}"
    by (simp add: upages_def S(2))
  have "\<not> kowned (vm_boot ps) KERNBASE"
    unfolding vm_boot_pool(2) [OF assms(1,2)] by (simp add: KERNBASE_def)
  then show "uspace (vm_boot ps) ps d"
    using S(1) u unfolding uspace_def by (simp add: S(2))
qed

theorem allocuvm_grows_witness:
  "\<exists>r t qs. allocuvm 0x80400000 0 100 (vm_boot [0x80401000, 0x80402000]) = Inr (r, t) \<and>
     (r = 100 \<and> grown (vm_boot [0x80401000, 0x80402000]) [0x80401000, 0x80402000] 0x80400000 0 1 t qs \<or>
      r = 0 \<and> undone (vm_boot [0x80401000, 0x80402000]) [0x80401000, 0x80402000] 0x80400000 {} t qs)"
proof -
  let ?s = "vm_boot [0x80401000, 0x80402000]"
  have s: "uspace ?s [0x80401000, 0x80402000] 0x80400000" "entry (kmemory ?s) 0x80400000 va = 0" for va
    using vm_boot_uspace(1) [where ps = "[0x80401000, 0x80402000]" and d = "0x80400000"]
      vm_boot_space(2) [where ps = "[0x80401000, 0x80402000]" and d = "0x80400000"] by simp_all
  have z: "npages 0 = 0" "npages 100 = 1" "\<not> KERNBASE \<le> 100" "\<not> (100 :: uint) < 0"
    by (simp_all add: npages_def KERNBASE_def)
  have "\<forall>vb. npages 0 \<le> pg vb \<and> pg vb < npages 100 \<longrightarrow> \<not> present (entry (kmemory ?s) 0x80400000 vb)"
    unfolding s(2) by simp
  from allocuvm_grows [OF s(1) this] show ?thesis
    using z by simp
qed

text \<open>
  C27: \<^verbatim>\<open>freevm\<close> of a well-formed address space succeeds and gives every page of it, user pages, page tables and the
  directory, back to the free list, each exactly once; no other page of memory changes and none is
  lost.
\<close>

theorem freevm_frees_all:
  assumes "uspace s ps d"
  shows "\<exists>t qs. freevm d s = Inr t \<and> kpool t qs \<and> distinct qs \<and> set qs = set ps \<union> pages (kmemory s) d \<and>
    only_in (pages (kmemory s) d) (kmemory s) (kmemory t)"
proof -
  obtain t qs where "freevm d s = Inr t" "kpool t qs" "set qs = set ps \<union> pages (kmemory s) d"
    "only_in (pages (kmemory s) d) (kmemory s) (kmemory t)"
    using freevm_ok [OF assms] by blast
  then show ?thesis
    using ka.pool_wf [of t qs] by blast
qed

theorem freevm_frees_all_witness:
  "\<exists>t qs. freevm 0x80400000 (vm_boot [0x80401000]) = Inr t \<and> kpool t qs \<and> set qs = {0x80400000, 0x80401000}"
proof -
  let ?s = "vm_boot [0x80401000]"
  have s: "uspace ?s [0x80401000] 0x80400000" "pages (kmemory ?s) 0x80400000 = {0x80400000}"
    using vm_boot_uspace [where ps = "[0x80401000]" and d = "0x80400000"]
      vm_boot_space(3) [where ps = "[0x80401000]" and d = "0x80400000"] by (simp_all add: pages_def)
  from freevm_frees_all [OF s(1)] show ?thesis
    unfolding s(2) by (auto simp: insert_commute)
qed

end
