(* ===== verification/Vm_fork.thy ===== *)
theory Vm_fork
  imports Vm_user
begin

text \<open>
  The kernel half of every address space and the copy of an address space for a child (\<^verbatim>\<open>setupkvm\<close> and
  \<^verbatim>\<open>copyuvm\<close> of \<^verbatim>\<open>vm.c\<close>): what the directories translate, that the copy is separate and equal, and that
  nothing is lost when memory runs out.
\<close>

unbundle bit_operations_syntax

section \<open>The kernel half\<close>

lemma uspace_no_user:
  assumes g: "space t qs d" "\<not> kowned t KERNBASE" and e: "\<forall>va < KERNBASE. \<not> present (entry (kmemory t) d va)"
  shows "uspace t qs d" "upages (kmemory t) d = {}" "pages (kmemory t) d = insert d (tables (kmemory t) d)"
proof -
  show u: "upages (kmemory t) d = {}"
    using e by (auto simp: upages_def)
  then show "uspace t qs d" "pages (kmemory t) d = insert d (tables (kmemory t) d)"
    using g e by (auto simp: uspace_def pages_def)
qed

text \<open>A range of the table \<^verbatim>\<open>kmap\<close>, the map with all ranges of a list, and lists of ranges in order.\<close>

fun map_kmap :: "(addr \<Rightarrow> uint) \<Rightarrow> (addr \<times> uint \<times> uint \<times> uint) list \<Rightarrow> addr \<Rightarrow> uint" where
  "map_kmap e [] = e"
| "map_kmap e ((virt, ps, pe, perm) # ks) = map_kmap (map_range e virt (Suc (pg (virt + (pe - ps) - 1) - pg virt)) ps perm) ks"

fun in_order :: "nat \<Rightarrow> (addr \<times> uint \<times> uint \<times> uint) list \<Rightarrow> bool" where
  "in_order n [] \<longleftrightarrow> True"
| "in_order n ((virt, ps, pe, perm) # ks) \<longleftrightarrow> n \<le> pg virt \<and> 0 < pe - ps \<and> unat virt + unat (pe - ps) \<le> 4294967296 \<and>
     in_order (Suc (pg (virt + (pe - ps) - 1))) ks"

text \<open>The directory entries of the kernel half: 56 for physical memory and 8 for the devices.\<close>

definition ktabs :: "nat set" where
  "ktabs = {512..567} \<union> {1016..1023}"

definition in_ktabs :: "(addr \<times> uint \<times> uint \<times> uint) list \<Rightarrow> bool" where
  "in_ktabs ks \<longleftrightarrow> (\<forall>(virt, ps, pe, perm) \<in> set ks. {pg virt div 1024..pg (virt + (pe - ps) - 1) div 1024} \<subseteq> ktabs)"

lemma ktabs_card: "finite ktabs" "card ktabs = 64"
  by (simp_all add: ktabs_def card_Un_disjoint)

text \<open>How many pages a directory takes, with tables at the indices in \<^verbatim>\<open>I\<close> and \<^verbatim>\<open>k\<close> user pages.\<close>

lemma card_tables: "\<forall>i. has_tab m d i \<longrightarrow> i \<in> I \<Longrightarrow> finite I \<Longrightarrow> card (tables m d) \<le> card I"
  unfolding tables_def by (rule surj_card_le [where f = "tab m d"]) auto

lemma card_pages_le:
  assumes "\<forall>i. has_tab m d i \<longrightarrow> i \<in> I" "finite I" "\<forall>va. mapped_user m d va \<longrightarrow> pg va < k"
  shows "card (pages m d) \<le> 1 + card I + k"
proof -
  have "upages m d \<subseteq> (\<lambda>g. upage m d (of_nat (4096 * g))) ` {..<k}"
  proof
    fix q assume "q \<in> upages m d"
    then obtain va where va: "mapped_user m d va" "q = upage m d va"
      by (auto simp: upages_def)
    have "same_page va (of_nat (4096 * pg va))"
      using pg_of_nat [of "pg va"] va(1) by (simp add: same_page_def user_pg del: of_nat_mult)
    then have "q = upage m d (of_nat (4096 * pg va))"
      using same_page_entry [of va "of_nat (4096 * pg va)" m d] va(2) by (simp add: upage_def)
    then show "q \<in> (\<lambda>g. upage m d (of_nat (4096 * g))) ` {..<k}"
      using assms(3) va(1) by blast
  qed
  then have "card (upages m d) \<le> k"
    using surj_card_le [of "{..<k}" "upages m d"] by simp
  moreover have "card (pages m d) \<le> Suc (card (tables m d \<union> upages m d))"
    unfolding pages_def by (rule card_insert_le_m1) simp_all
  ultimately show ?thesis
    using card_tables [OF assms(1,2)] card_Un_le [of "tables m d" "upages m d"] by linarith
qed

lemma card_pages_ge:
  assumes s: "uspace s ps d" and i: "\<forall>i \<in> I. has_tab (kmemory s) d i" and g: "\<forall>g < n. mapped_user (kmemory s) d (of_nat (4096 * g))" "n \<le> 524288"
  shows "1 + card I + n \<le> card (pages (kmemory s) d)"
proof -
  let ?m = "kmemory s"
  have "card I \<le> card {i. has_tab ?m d i}"
    by (rule card_mono) (use i in \<open>auto simp: has_tab_def\<close>)
  also have "\<dots> = card (tables ?m d)"
    using s unfolding tables_def uspace_def space_def by (simp add: card_image)
  finally have t: "card I \<le> card (tables ?m d)" .
  have "inj_on (\<lambda>g. upage ?m d (of_nat (4096 * g))) {..<n}"
  proof (rule inj_onI)
    fix x y assume x: "x \<in> {..<n}" and y: "y \<in> {..<n}" and e: "upage ?m d (of_nat (4096 * x)) = upage ?m d (of_nat (4096 * y))"
    have "mapped_user ?m d (of_nat (4096 * x))" "mapped_user ?m d (of_nat (4096 * y))"
      using g(1) x y by blast+
    then have "same_page (of_nat (4096 * x)) (of_nat (4096 * y))"
      using s e unfolding uspace_def by blast
    then show "x = y"
      using pg_of_nat [of x] pg_of_nat [of y] x y g(2) by (simp add: same_page_def del: of_nat_mult)
  qed
  then have "n = card ((\<lambda>g. upage ?m d (of_nat (4096 * g))) ` {..<n})"
    by (simp add: card_image)
  also have "\<dots> \<le> card (upages ?m d)"
    by (rule card_mono) (use g(1) upages_I in auto)
  finally have u: "n \<le> card (upages ?m d)" .
  have "d \<notin> tables ?m d \<union> upages ?m d" "tables ?m d \<inter> upages ?m d = {}"
    using s by (auto simp: uspace_def space_def)
  then have "card (pages ?m d) = Suc (card (tables ?m d) + card (upages ?m d))"
    by (simp add: pages_def card_Un_disjoint)
  then show ?thesis
    using t u by simp
qed

lemma map_range_below: "pg vb < pg a \<Longrightarrow> map_range e a j pa perm vb = e vb"
  by (simp add: map_range_def)

lemma setupkvm_loop_ok:
  assumes "space s ps d" "\<not> kowned s KERNBASE" "\<forall>vb. pg vb < 524288 \<or> n \<le> pg vb \<longrightarrow> \<not> present (entry (kmemory s) d vb)"
    "in_order n ks" "524288 \<le> n" "in_ktabs ks" "\<forall>i. has_tab (kmemory s) d i \<longrightarrow> i \<in> ktabs"
  shows "\<exists>r t qs. setupkvm_loop d ks s = Inr (r, t) \<and>
    (r = d \<and> grows d s ps t qs \<and> entry (kmemory t) d = map_kmap (entry (kmemory s) d) ks \<and> (\<forall>i. has_tab (kmemory t) d i \<longrightarrow> i \<in> ktabs) \<or>
     r = 0 \<and> card (set ps \<union> pages (kmemory s) d) < 65 \<and> kowned t = kowned s \<and> kpool t qs \<and> set qs = set ps \<union> pages (kmemory s) d \<and>
       only_in (set ps \<union> pages (kmemory s) d) (kmemory s) (kmemory t))"
  using assms
proof (induction ks arbitrary: n s ps)
  case Nil
  then show ?case
    using grows_refl [OF Nil(1)] Nil(7) by auto
next
  case (Cons k ks)
  obtain virt pst pe perm where k: "k = (virt, pst, pe, perm)"
    by (cases k)
  let ?sz = "pe - pst" let ?l = "pg (virt + (pe - pst) - 1)"
  have o: "n \<le> pg virt" "0 < ?sz" "unat virt + unat ?sz \<le> 4294967296" "in_order (Suc ?l) ks" "524288 \<le> pg virt"
    using Cons.prems(4,5) by (auto simp: k)
  have le: "pg virt \<le> ?l"
    by (rule pg_last(2) [OF o(3,2)])
  have ab: "\<forall>vb. pg virt \<le> pg vb \<and> pg vb \<le> ?l \<longrightarrow> \<not> present (entry (kmemory s) d vb)"
    using Cons.prems(3) o(1) by auto
  then obtain r t qs j where m: "mappages d virt ?sz pst perm s = Inr (r, t)" "grows d s ps t qs"
      "entry (kmemory t) d = map_range (entry (kmemory s) d) virt j pst perm"
      "r = 0 \<and> j = Suc (?l - pg virt) \<or> r = - 1 \<and> j \<le> ?l - pg virt \<and> qs = []"
    by (rule mappages_ok [OF Cons.prems(1) o(2,3)])
  have t: "space t qs d" "kowned t = kowned s"
    using m(2) by (simp_all add: grows_def)
  note T = mappages_tabs [OF Cons.prems(1) o(2,3) ab m(1)]
  have ik: "{pg virt div 1024..?l div 1024} \<subseteq> ktabs" "in_ktabs ks"
    using Cons.prems(6) by (simp_all add: in_ktabs_def k)
  have kt: "\<forall>i. has_tab (kmemory t) d i \<longrightarrow> i \<in> ktabs"
    using T(1) Cons.prems(7) ik(1) unfolding tabs_added_def by fastforce
  have user: "\<forall>va < KERNBASE. \<not> present (entry (kmemory t) d va)" "\<forall>va < KERNBASE. \<not> present (entry (kmemory s) d va)"
    using Cons.prems(3) o(5) by (auto simp: m(3) map_range_below user_pg)
  have ks: "\<not> kowned t KERNBASE" "\<not> kowned s KERNBASE"
    using t(2) Cons.prems(2) by simp_all
  note U = uspace_no_user [OF t(1) ks(1) user(1)] and V = uspace_no_user [OF Cons.prems(1) ks(2) user(2)]
  have P: "set qs \<union> pages (kmemory t) d = set ps \<union> pages (kmemory s) d"
    using m(2) U(3) V(3) by (auto simp: grows_def)
  have O: "only_in (set ps \<union> pages (kmemory s) d) (kmemory s) (kmemory t)"
    using m(2) P U(3) by (auto simp: grows_def elim!: only_in_mono)
  show ?case
  proof (cases "r = 0")
    case True
    then have j: "j = Suc (?l - pg virt)"
      using m(4) by auto
    have "\<forall>vb. pg vb < 524288 \<or> Suc ?l \<le> pg vb \<longrightarrow> \<not> present (entry (kmemory t) d vb)"
    proof (intro allI impI)
      fix vb assume "pg vb < 524288 \<or> Suc ?l \<le> pg vb"
      then show "\<not> present (entry (kmemory t) d vb)"
        unfolding m(3) map_range_def using Cons.prems(3) o(1,5) le j by auto
    qed
    moreover have "524288 \<le> Suc ?l"
      using le o(5) by simp
    ultimately obtain r' u rs where u: "setupkvm_loop d ks t = Inr (r', u)"
        "r' = d \<and> grows d t qs u rs \<and> entry (kmemory u) d = map_kmap (entry (kmemory t) d) ks \<and> (\<forall>i. has_tab (kmemory u) d i \<longrightarrow> i \<in> ktabs) \<or>
         r' = 0 \<and> card (set qs \<union> pages (kmemory t) d) < 65 \<and> kowned u = kowned t \<and> kpool u rs \<and> set rs = set qs \<union> pages (kmemory t) d \<and>
           only_in (set qs \<union> pages (kmemory t) d) (kmemory t) (kmemory u)"
      using Cons.IH [OF t(1) ks(1) _ o(4) _ ik(2) kt] by blast
    have L: "setupkvm_loop d (k # ks) s = Inr (r', u)"
      using m(1) True u(1) by (simp add: k)
    from u(2) show ?thesis
    proof
      assume d: "r' = d \<and> grows d t qs u rs \<and> entry (kmemory u) d = map_kmap (entry (kmemory t) d) ks \<and> (\<forall>i. has_tab (kmemory u) d i \<longrightarrow> i \<in> ktabs)"
      then have "entry (kmemory u) d = map_kmap (entry (kmemory s) d) (k # ks)"
        by (simp add: k m(3) j)
      then show ?thesis
        using L d grows_trans [OF m(2)] by blast
    next
      assume f: "r' = 0 \<and> card (set qs \<union> pages (kmemory t) d) < 65 \<and> kowned u = kowned t \<and> kpool u rs \<and> set rs = set qs \<union> pages (kmemory t) d \<and>
           only_in (set qs \<union> pages (kmemory t) d) (kmemory t) (kmemory u)"
      then have "only_in (set ps \<union> pages (kmemory s) d) (kmemory s) (kmemory u)"
        using only_in_trans [OF O, of "set qs \<union> pages (kmemory t) d" "kmemory u"] unfolding P by simp
      then show ?thesis
        using L f unfolding P t(2) by blast
    qed
  next
    case False
    then have r: "r = - 1" "qs = []"
      using m(4) by auto
    obtain u rs where u: "freevm d t = Inr u" "kpool u rs" "kowned u = kowned t" "set rs = set [] \<union> pages (kmemory t) d"
        "only_in (pages (kmemory t) d) (kmemory t) (kmemory u)"
      by (rule freevm_ok [OF U(1) [unfolded r(2)]])
    have P': "pages (kmemory t) d = set ps \<union> pages (kmemory s) d"
      using P r(2) by simp
    obtain h where h': "pg virt \<le> h" "h \<le> ?l" and h2: "\<not> has_tab (kmemory t) d (h div 1024)"
      using T(2) [OF False] unfolding tab_missing_def by blast
    have h: "h div 1024 \<in> ktabs" "\<not> has_tab (kmemory t) d (h div 1024)"
      using subsetD [OF ik(1), of "h div 1024"] div_le_mono [OF h'(1), of 1024] div_le_mono [OF h'(2), of 1024] h2 by simp_all
    have "card (pages (kmemory t) d) \<le> 1 + card (ktabs - {h div 1024}) + 0"
      by (rule card_pages_le) (use kt h(2) ktabs_card(1) user(1) in auto)
    then have c: "card (set ps \<union> pages (kmemory s) d) < 65"
      using h(1) unfolding P' by (simp add: ktabs_card)
    have "only_in (set ps \<union> pages (kmemory s) d) (kmemory s) (kmemory u)"
      using only_in_trans [OF O u(5)] unfolding P' by simp
    moreover have "setupkvm_loop d (k # ks) s = Inr (0, u)"
      using m(1) u(1) r(1) by (simp add: k)
    ultimately show ?thesis
      using u(2-4) c unfolding P' t(2) by auto
  qed
qed

text \<open>Page numbers of the kernel's ranges, for a data segment that starts page-aligned between text and \<^verbatim>\<open>PHYSTOP\<close>.\<close>

definition kdata_ok :: "addr \<Rightarrow> bool" where
  "kdata_ok dat \<longleftrightarrow> aligned dat \<and> KERNLINK < dat \<and> V2P dat < PHYSTOP"

lemma kmap_sizes:
  assumes "kdata_ok dat"
  shows "unat (V2P dat - V2P KERNLINK) = unat dat - 0x80100000" "unat (PHYSTOP - V2P dat) = 0x8E000000 - unat dat"
    "0x80100000 < unat dat" "unat dat < 0x8E000000" "unat dat = 4096 * pg dat"
proof -
  show l: "0x80100000 < unat dat" and h: "unat dat < 0x8E000000"
    using assms V2P_below_PHYSTOP [of dat] by (auto simp: kdata_ok_def layout_defs word_less_nat_alt)
  have v: "unat (V2P dat) = unat dat - 0x80000000"
    using l unat_sub_uint [of KERNBASE dat] by (simp add: V2P_def KERNBASE_def word_le_nat_alt)
  show "unat (V2P dat - V2P KERNLINK) = unat dat - 0x80100000"
    using l v unat_sub_uint [of "V2P KERNLINK" "V2P dat"] by (simp add: word_le_nat_alt) (simp add: V2P_def layout_defs)
  show "unat (PHYSTOP - V2P dat) = 0x8E000000 - unat dat"
    using h v l unat_sub_uint [of "V2P dat" PHYSTOP] by (simp add: word_le_nat_alt PHYSTOP_def)
  show "unat dat = 4096 * pg dat"
    using assms aligned_pg by (simp add: kdata_ok_def)
qed

text \<open>What a directory made by \<^verbatim>\<open>setupkvm\<close> says of an address.\<close>

definition kernel_entry :: "addr \<Rightarrow> addr \<Rightarrow> uint" where
  "kernel_entry dat va =
     (if KERNBASE \<le> va \<and> va < P2V PHYSTOP then V2P (PGROUNDDOWN va) OR (if KERNLINK \<le> va \<and> va < dat then 0 else PTE_W) OR PTE_P
      else if DEVSPACE \<le> va then PGROUNDDOWN va OR PTE_W OR PTE_P else 0)"

lemma range_base:
  assumes "aligned a" "pg a \<le> pg va"
  shows "a + of_nat ((pg va - pg a) * 4096) = PGROUNDDOWN va"
proof (rule word_unat_eq_iff [THEN iffD2])
  have "unat a + (pg va - pg a) * 4096 = pg va * 4096"
    using aligned_pg [OF assms(1)] assms(2) by (simp add: diff_mult_distrib)
  moreover have l: "pg va * 4096 < 4294967296"
    using unat_uint_less [of va] by linarith
  ultimately have "unat a + unat (of_nat ((pg va - pg a) * 4096) :: uint) = pg va * 4096"
    using unat_of_nat_uint [of "(pg va - pg a) * 4096"] by linarith
  then show "unat (a + of_nat ((pg va - pg a) * 4096)) = unat (PGROUNDDOWN va)"
    using unat_add_uint [of a "of_nat ((pg va - pg a) * 4096)"] l unfolding unat_PGROUNDDOWN by linarith
qed

lemma range_base_V2P:
  "aligned a \<Longrightarrow> pg a \<le> pg va \<Longrightarrow> V2P a + of_nat ((pg va - pg a) * 4096) = V2P (PGROUNDDOWN va)"
  using range_base [of a va] by (simp add: V2P_def add_diff_eq algebra_simps del: of_nat_mult)

lemma kmap_pages:
  assumes "kdata_ok dat"
  shows "pg KERNBASE = 524288" "pg KERNLINK = 524544" "524544 < pg dat" "pg dat < 581632" "pg DEVSPACE = 1040384"
    "pg (KERNBASE + (EXTMEM - 0) - 1) = 524543" "pg (KERNLINK + (V2P dat - V2P KERNLINK) - 1) = pg dat - 1"
    "pg (dat + (PHYSTOP - V2P dat) - 1) = 581631" "pg (DEVSPACE + (0 - DEVSPACE) - 1) = 1048575"
proof -
  note S = kmap_sizes [OF assms]
  show "pg KERNBASE = 524288" "pg KERNLINK = 524544" "pg DEVSPACE = 1040384" "pg (KERNBASE + (EXTMEM - 0) - 1) = 524543"
      "pg (DEVSPACE + (0 - DEVSPACE) - 1) = 1048575"
    by (simp_all add: layout_defs unsigned_minus_1_eq_mask mask_eq_exp_minus_1)
  show l: "524544 < pg dat" and h: "pg dat < 581632"
    using S(3-5) by linarith+
  have "unat KERNLINK = 2148532224"
    by (simp add: layout_defs)
  then have "unat (KERNLINK + (V2P dat - V2P KERNLINK) - 1) = unat dat - 1"
    using pg_last(1) [of KERNLINK "V2P dat - V2P KERNLINK"] S(1,3,4) by (simp add: word_less_nat_alt)
  then show "pg (KERNLINK + (V2P dat - V2P KERNLINK) - 1) = pg dat - 1"
    using S(3,5) by linarith
  have "unat (dat + (PHYSTOP - V2P dat) - 1) = 0x8DFFFFFF"
    using pg_last(1) [of dat "PHYSTOP - V2P dat"] S(2,3,4) by (simp add: word_less_nat_alt)
  then show "pg (dat + (PHYSTOP - V2P dat) - 1) = 581631"
    by simp
qed

lemma kmap_in_order:
  assumes "kdata_ok dat"
  shows "in_order 524288 (kmap dat)"
proof -
  note S = kmap_sizes [OF assms] and P = kmap_pages [OF assms]
  have "DEVSPACE + 0x2000000 = 0"
    by (simp add: DEVSPACE_def)
  then have "0 - DEVSPACE = 0x2000000"
    using minus_unique [of DEVSPACE "0x2000000"] by simp
  moreover have "unat KERNLINK = 2148532224" "0 < EXTMEM - 0" "unat KERNBASE + unat (EXTMEM - 0) \<le> 4294967296"
      "unat DEVSPACE = 4261412864"
    by (simp_all add: layout_defs)
  ultimately show ?thesis
    unfolding kmap_def in_order.simps P using S(1-4) P(3,4) by (simp add: word_less_nat_alt)
qed

lemma kmap_in_ktabs:
  assumes "kdata_ok dat"
  shows "in_ktabs (kmap dat)"
proof -
  note P = kmap_pages [OF assms]
  have "512 \<le> pg dat div 1024" "(pg dat - 1) div 1024 \<le> 567"
    using P(3,4) by (simp_all add: less_eq_div_iff_mult_less_eq div_le_mono [of "pg dat - 1" 581631 1024, simplified])
  then show ?thesis
    unfolding in_ktabs_def kmap_def ktabs_def using P by (auto simp: P)
qed

lemma pg_less_aligned: "aligned b \<Longrightarrow> va < b \<longleftrightarrow> pg va < pg b"
proof -
  assume "aligned b"
  then obtain k where k: "unat b = 4096 * k"
    by (auto simp: aligned_def elim!: dvdE)
  then show ?thesis
    unfolding word_less_nat_alt k by (auto simp: div_less_iff_less_mult mult.commute)
qed

lemma kernel_map:
  assumes "kdata_ok dat"
  shows "map_kmap (\<lambda>_. 0) (kmap dat) = kernel_entry dat"
proof
  fix va
  note P = kmap_pages [OF assms]
  have al: "aligned KERNBASE" "aligned KERNLINK" "aligned dat" "aligned DEVSPACE" "aligned (P2V PHYSTOP)" "pg (P2V PHYSTOP) = 581632"
    using assms by (simp_all add: kdata_ok_def aligned_def layout_defs P2V_def)
  have b: "0 = V2P KERNBASE"
    by (simp add: V2P_def)
  have top: "pg va < 1048576"
    using unat_uint_less [of va] by linarith
  note R = range_base_V2P [OF al(1), of va] range_base_V2P [OF al(2), of va] range_base_V2P [OF al(3), of va] range_base [OF al(4), of va]
  have c: "KERNBASE \<le> va \<longleftrightarrow> 524288 \<le> pg va" "va < P2V PHYSTOP \<longleftrightarrow> pg va < 581632" "KERNLINK \<le> va \<longleftrightarrow> 524544 \<le> pg va"
      "va < dat \<longleftrightarrow> pg va < pg dat" "DEVSPACE \<le> va \<longleftrightarrow> 1040384 \<le> pg va"
    using pg_less_aligned [OF al(1), of va] pg_less_aligned [OF al(2), of va] pg_less_aligned [OF al(3), of va]
      pg_less_aligned [OF al(4), of va] pg_less_aligned [OF al(5), of va] al(6) P by (auto simp: not_less [symmetric])
  have n: "524544 + Suc (pg dat - 1 - 524544) = pg dat" "pg dat + Suc (581631 - pg dat) = 581632"
    using P(3,4) by simp_all
  have "map_kmap (\<lambda>_. 0) (kmap dat) va =
      (if 1040384 \<le> pg va then (DEVSPACE + of_nat ((pg va - 1040384) * 4096)) OR PTE_W OR PTE_P
       else if pg dat \<le> pg va \<and> pg va < 581632 then (V2P dat + of_nat ((pg va - pg dat) * 4096)) OR PTE_W OR PTE_P
       else if 524544 \<le> pg va \<and> pg va < pg dat then (V2P KERNLINK + of_nat ((pg va - 524544) * 4096)) OR 0 OR PTE_P
       else if 524288 \<le> pg va \<and> pg va < 524544 then (0 + of_nat ((pg va - 524288) * 4096)) OR PTE_W OR PTE_P
       else 0)"
    unfolding kmap_def map_kmap.simps map_range_def P n using top by (simp del: of_nat_mult of_nat_diff)
  also have "\<dots> = kernel_entry dat va"
    unfolding kernel_entry_def c using R [unfolded P] P(3,4) unfolding b [symmetric] by (auto simp del: of_nat_mult of_nat_diff)
  finally show "map_kmap (\<lambda>_. 0) (kmap dat) va = kernel_entry dat va" .
qed

lemma fresh_dir:
  assumes "kpool s ps" "kowned s p" "p \<notin> set ps" "\<forall>x. in_range x p 4096 \<longrightarrow> kmemory s x = 0"
  shows "space s ps p" "entry (kmemory s) p = (\<lambda>_. 0)" "tables (kmemory s) p = {}"
proof -
  have a: "aligned p"
    by (rule kowned_aligned [OF assms(2)])
  have "ld32 (kmemory s) (slot p i) = 0" if "i < 1024" for i
    using assms(4) slot_in_page [OF a that, of 0] slot_in_page [OF a that, of 1] slot_in_page [OF a that, of 2]
      slot_in_page [OF a that, of 3] by (simp add: ld32_def)
  then have h: "\<not> has_tab (kmemory s) p i" for i
    by (auto simp: has_tab_def)
  then show "entry (kmemory s) p = (\<lambda>_. 0)" "tables (kmemory s) p = {}"
    by (auto simp: entry_def tables_def)
  then show "space s ps p"
    using assms h by (simp add: space_def)
qed

lemma kdata_kalloc: "lock_free s \<Longrightarrow> kalloc s = Inr (p, t) \<Longrightarrow> kdata t = kdata s"
  by (auto simp: kalloc_eq)

lemma kernel_entry_user: "va < KERNBASE \<Longrightarrow> kernel_entry dat va = 0"
  by (auto simp: kernel_entry_def layout_defs word_le_nat_alt word_less_nat_alt)

lemma setupkvm_ok:
  fixes s :: "'a vmst_scheme"
  assumes s: "kpool s ps" "\<not> kowned s KERNBASE" "kdata_ok (kdata s)"
  obtains r t qs where "setupkvm s = Inr (r, t)" "kowned t = kowned s"
    "(\<exists>us. r \<noteq> 0 \<and> ps = us @ qs \<and> uspace t qs r \<and> pages (kmemory t) r = set us \<and> only_in (set us) (kmemory s) (kmemory t) \<and>
        entry (kmemory t) r = kernel_entry (kdata s) \<and> (\<forall>i. has_tab (kmemory t) r i \<longrightarrow> i \<in> ktabs)) \<or>
     r = 0 \<and> length ps < 65 \<and> kpool t qs \<and> set qs = set ps \<and> only_in (set ps) (kmemory s) (kmemory t)"
proof (cases ps)
  case Nil
  then obtain t where "kalloc s = Inr (0, t)" "kpool t []" "kmemory t = kmemory s" "kowned t = kowned s"
    using ka.alloc_empty [of s] s(1) by blast
  then show ?thesis
    using that [of 0 t "[]"] Nil by (simp add: setupkvm_def)
next
  case (Cons p qs)
  have pw: "kowned s p" "p \<notin> set qs" "p \<noteq> 0"
    using ka.pool_wf [OF s(1)] Cons ka.owned_not_null by auto
  obtain u where u: "kalloc s = Inr (p, u)" "kpool u qs" "kmemory u = kmemory s" "kowned u = kowned s"
    using ka.alloc_page [of s p qs] s(1) Cons by auto
  have kd: "kdata u = kdata s"
    using kdata_kalloc [OF _ u(1)] s(1) by (simp add: kpool_def)
  let ?v = "u\<lparr>kmemory := memset (kmemory u) p 0 PGSIZE\<rparr>"
  have al: "aligned p"
    by (rule kowned_aligned [OF pw(1)])
  have vo: "only_in {p} (kmemory s) (kmemory ?v)"
    using only_in_memset [of p "kmemory u" 0] by (simp add: u(3))
  have vp: "kpool ?v qs"
    by (rule kpool_only_in [OF u(2), of "{p}"]) (use vo al pw(2) in \<open>simp_all add: u(3)\<close>)
  have vk: "kowned ?v = kowned s"
    by (simp add: u(4))
  note F = fresh_dir [OF vp, of p, unfolded vk, OF pw(1,2)]
  have z: "\<forall>x. in_range x p 4096 \<longrightarrow> kmemory ?v x = 0"
    by (simp add: memset_page)
  note F = F [OF z]
  have ph: "\<not> DEVSPACE < P2V PHYSTOP"
    by (simp add: P2V_def layout_defs word_less_nat_alt)
  have "setupkvm s = setupkvm_loop p (kmap (kdata s)) ?v"
    using u(1) pw(3) kd ph by (simp add: setupkvm_def Let_def)
  moreover have "\<exists>r t rs. setupkvm_loop p (kmap (kdata s)) ?v = Inr (r, t) \<and>
    (r = p \<and> grows p ?v qs t rs \<and> entry (kmemory t) p = map_kmap (entry (kmemory ?v) p) (kmap (kdata s)) \<and>
       (\<forall>i. has_tab (kmemory t) p i \<longrightarrow> i \<in> ktabs) \<or>
     r = 0 \<and> card (set qs \<union> pages (kmemory ?v) p) < 65 \<and> kowned t = kowned ?v \<and> kpool t rs \<and> set rs = set qs \<union> pages (kmemory ?v) p \<and>
       only_in (set qs \<union> pages (kmemory ?v) p) (kmemory ?v) (kmemory t))"
    by (rule setupkvm_loop_ok [OF F(1) _ _ kmap_in_order [OF s(3)] _ kmap_in_ktabs [OF s(3)]])
      (use F(2) F(3) tables_I [of "kmemory ?v" p] in \<open>auto simp: u(4) s(2)\<close>)
  ultimately obtain r t rs where r: "setupkvm s = Inr (r, t)"
    "r = p \<and> grows p ?v qs t rs \<and> entry (kmemory t) p = kernel_entry (kdata s) \<and> (\<forall>i. has_tab (kmemory t) p i \<longrightarrow> i \<in> ktabs) \<or>
     r = 0 \<and> card (set qs \<union> pages (kmemory ?v) p) < 65 \<and> kowned t = kowned ?v \<and> kpool t rs \<and> set rs = set qs \<union> pages (kmemory ?v) p \<and>
       only_in (set qs \<union> pages (kmemory ?v) p) (kmemory ?v) (kmemory t)"
    unfolding F(2) kernel_map [OF s(3)] by metis
  have vpg: "pages (kmemory ?v) p = {p}"
    unfolding pages_def upages_def F(2,3) by simp
  from r(2) show ?thesis
  proof
    assume g: "r = p \<and> grows p ?v qs t rs \<and> entry (kmemory t) p = kernel_entry (kdata s) \<and> (\<forall>i. has_tab (kmemory t) p i \<longrightarrow> i \<in> ktabs)"
    obtain us where us: "qs = us @ rs" "tables (kmemory t) p = set us" "kowned t = kowned s"
        "only_in (insert p (set us)) (kmemory ?v) (kmemory t)" "space t rs p"
      using g vk F(3) by (auto simp: grows_def)
    have nu: "\<not> kowned t KERNBASE" "\<forall>va < KERNBASE. \<not> present (entry (kmemory t) p va)"
      using us(3) s(2) g kernel_entry_user by auto
    note U = uspace_no_user [OF us(5) nu]
    have "only_in (set (p # us)) (kmemory s) (kmemory t)"
      using only_in_trans [OF vo us(4)] by simp
    then have "r \<noteq> 0 \<and> ps = (p # us) @ rs \<and> uspace t rs r \<and> pages (kmemory t) r = set (p # us) \<and>
        only_in (set (p # us)) (kmemory s) (kmemory t) \<and> entry (kmemory t) r = kernel_entry (kdata s) \<and>
        (\<forall>i. has_tab (kmemory t) r i \<longrightarrow> i \<in> ktabs)"
      using g pw(3) us(1,2) U(1,3) Cons by simp
    then show ?thesis
      using that [OF r(1) us(3), of rs] by blast
  next
    assume f: "r = 0 \<and> card (set qs \<union> pages (kmemory ?v) p) < 65 \<and> kowned t = kowned ?v \<and> kpool t rs \<and> set rs = set qs \<union> pages (kmemory ?v) p \<and>
       only_in (set qs \<union> pages (kmemory ?v) p) (kmemory ?v) (kmemory t)"
    then have "only_in (set ps) (kmemory s) (kmemory t)" "set rs = set ps" "kowned t = kowned s"
      using only_in_trans [OF vo, of "set qs \<union> {p}" "kmemory t"] vk unfolding vpg Cons by simp_all
    moreover have "length ps < 65"
      using f ka.pool_wf [OF s(1)] unfolding vpg Cons by (simp add: distinct_card)
    ultimately show ?thesis
      using that [OF r(1), of rs] f by blast
  qed
qed

lemma kernel_tabs:
  assumes e: "\<forall>va \<ge> KERNBASE. entry m d va = kernel_entry dat va" and i: "i \<in> ktabs"
  shows "has_tab m d i"
proof -
  let ?va = "of_nat (4194304 * i) :: addr"
  have n: "unat ?va = 4194304 * i"
    using i by (intro unat_of_nat_uint) (auto simp: ktabs_def)
  have x: "pdx ?va = i"
    unfolding pdx_nat n by simp
  have top: "unat (P2V PHYSTOP) = 2382364672" "unat DEVSPACE = 4261412864" "unat KERNBASE = 2147483648"
    by (simp_all add: P2V_def layout_defs)
  have "KERNBASE \<le> ?va" "?va < P2V PHYSTOP \<or> DEVSPACE \<le> ?va"
    unfolding word_le_nat_alt word_less_nat_alt n top using i by (auto simp: ktabs_def)
  then have "present (kernel_entry dat ?va)" "entry m d ?va = kernel_entry dat ?va"
    using e by (auto simp: kernel_entry_def simp del: of_nat_mult)
  then have "present (entry m d ?va)"
    by simp
  then show ?thesis
    unfolding entry_def x by (simp split: if_splits)
qed

text \<open>
  C28: \<^verbatim>\<open>setupkvm\<close> with a page-aligned data segment needs 65 pages.  With at least that many free it makes a directory, out of
  free pages only, in which the addresses from \<^verbatim>\<open>KERNBASE\<close> up to the end of physical memory translate to themselves minus
  \<^verbatim>\<open>KERNBASE\<close>, writable except for the kernel text, the device space translates to itself, nothing else is mapped
  and nothing is accessible to user code; with fewer it gives 0 with exactly the free pages it had.
\<close>

theorem setupkvm_kernel_map:
  assumes "kpool s ps" "\<not> kowned s KERNBASE" "kdata_ok (kdata s)"
  shows "\<exists>r t qs. setupkvm s = Inr (r, t) \<and>
    (if length ps < 65 then r = 0 \<and> kpool t qs \<and> set qs = set ps
     else r \<noteq> 0 \<and> uspace t qs r \<and> set ps = pages (kmemory t) r \<union> set qs \<and>
     only_in (pages (kmemory t) r) (kmemory s) (kmemory t) \<and>
     (\<forall>va. KERNBASE \<le> va \<and> va < P2V PHYSTOP \<longrightarrow>
        PTE_ADDR (entry (kmemory t) r va) = V2P (PGROUNDDOWN va) \<and>
        PTE_FLAGS (entry (kmemory t) r va) = (if KERNLINK \<le> va \<and> va < kdata s then PTE_P else PTE_W OR PTE_P)) \<and>
     (\<forall>va \<ge> DEVSPACE. entry (kmemory t) r va = PGROUNDDOWN va OR PTE_W OR PTE_P) \<and>
     (\<forall>va. va < KERNBASE \<or> P2V PHYSTOP \<le> va \<and> va < DEVSPACE \<longrightarrow> entry (kmemory t) r va = 0))"
proof -
  obtain r t qs where r: "setupkvm s = Inr (r, t)" "kowned t = kowned s"
    "(\<exists>us. r \<noteq> 0 \<and> ps = us @ qs \<and> uspace t qs r \<and> pages (kmemory t) r = set us \<and> only_in (set us) (kmemory s) (kmemory t) \<and>
        entry (kmemory t) r = kernel_entry (kdata s) \<and> (\<forall>i. has_tab (kmemory t) r i \<longrightarrow> i \<in> ktabs)) \<or>
     r = 0 \<and> length ps < 65 \<and> kpool t qs \<and> set qs = set ps \<and> only_in (set ps) (kmemory s) (kmemory t)"
    by (rule setupkvm_ok [OF assms])
  have f: "PTE_ADDR (a OR x OR PTE_P) = a" "PTE_FLAGS (a OR x OR PTE_P) = x OR PTE_P" if "aligned a" "x = 0 \<or> x = PTE_W" for a x
    using PTE_ADDR_or [OF that(1), of "x OR PTE_P"] that(2) by (auto simp: pte_bits)
  have fv: "PTE_ADDR (V2P (PGROUNDDOWN va) OR x OR PTE_P) = V2P (PGROUNDDOWN va)"
      "PTE_FLAGS (V2P (PGROUNDDOWN va) OR x OR PTE_P) = x OR PTE_P" if "x = 0 \<or> x = PTE_W" for va x
    by (rule f [OF aligned_V2P [OF aligned_PGROUNDDOWN] that])+
  have k1: "PTE_ADDR (kernel_entry dat va) = V2P (PGROUNDDOWN va)"
      "PTE_FLAGS (kernel_entry dat va) = (if KERNLINK \<le> va \<and> va < dat then PTE_P else PTE_W OR PTE_P)"
    if "KERNBASE \<le> va \<and> va < P2V PHYSTOP" for dat va
    unfolding kernel_entry_def if_P [OF that] by (simp_all add: fv)
  have top: "unat (P2V PHYSTOP) = 2382364672" "unat DEVSPACE = 4261412864" "unat KERNBASE = 2147483648"
    by (simp_all add: P2V_def layout_defs)
  have k2: "kernel_entry dat va = PGROUNDDOWN va OR PTE_W OR PTE_P" if "DEVSPACE \<le> va" for dat va
  proof -
    have "\<not> va < P2V PHYSTOP"
      using that unfolding word_less_nat_alt word_le_nat_alt top by linarith
    then show ?thesis
      using that by (simp add: kernel_entry_def)
  qed
  have k3: "kernel_entry dat va = 0" if v: "va < KERNBASE \<or> P2V PHYSTOP \<le> va \<and> va < DEVSPACE" for dat va
  proof -
    have "\<not> (KERNBASE \<le> va \<and> va < P2V PHYSTOP)" "\<not> DEVSPACE \<le> va"
      using v unfolding word_less_nat_alt word_le_nat_alt top by linarith+
    then show ?thesis
      unfolding kernel_entry_def by (simp only: if_False)
  qed
  from r(3) show ?thesis
  proof
    assume "\<exists>us. r \<noteq> 0 \<and> ps = us @ qs \<and> uspace t qs r \<and> pages (kmemory t) r = set us \<and> only_in (set us) (kmemory s) (kmemory t) \<and>
        entry (kmemory t) r = kernel_entry (kdata s) \<and> (\<forall>i. has_tab (kmemory t) r i \<longrightarrow> i \<in> ktabs)"
    then obtain us where U: "ps = us @ qs" "uspace t qs r" "pages (kmemory t) r = set us" "only_in (set us) (kmemory s) (kmemory t)"
        "entry (kmemory t) r = kernel_entry (kdata s)" "r \<noteq> 0"
      by blast
    have "1 + card ktabs + 0 \<le> card (pages (kmemory t) r)"
      by (rule card_pages_ge [OF U(2)]) (use kernel_tabs [of "kmemory t" r "kdata s"] U(5) in auto)
    then have long: "\<not> length ps < 65"
      using ka.pool_wf [OF assms(1)] distinct_card [of us] unfolding U(1,3) ktabs_card by simp
    have E: "uspace t qs r" "set ps = pages (kmemory t) r \<union> set qs" "only_in (pages (kmemory t) r) (kmemory s) (kmemory t)"
        "entry (kmemory t) r = kernel_entry (kdata s)"
      using U(2,4,5) unfolding U(1,3) by (simp_all only: set_append)
    have "\<forall>va. KERNBASE \<le> va \<and> va < P2V PHYSTOP \<longrightarrow>
        PTE_ADDR (entry (kmemory t) r va) = V2P (PGROUNDDOWN va) \<and>
        PTE_FLAGS (entry (kmemory t) r va) = (if KERNLINK \<le> va \<and> va < kdata s then PTE_P else PTE_W OR PTE_P)"
      "\<forall>va \<ge> DEVSPACE. entry (kmemory t) r va = PGROUNDDOWN va OR PTE_W OR PTE_P"
      "\<forall>va. va < KERNBASE \<or> P2V PHYSTOP \<le> va \<and> va < DEVSPACE \<longrightarrow> entry (kmemory t) r va = 0"
      unfolding E(4) using k1 k2 k3 by blast+
    then show ?thesis
      using r(1) E(1-3) long U(6) by auto
  next
    assume "r = 0 \<and> length ps < 65 \<and> kpool t qs \<and> set qs = set ps \<and> only_in (set ps) (kmemory s) (kmemory t)"
    then show ?thesis
      using r(1) by auto
  qed
qed


text \<open>Pages in a row, as free pages of a sample state.\<close>

definition row :: "nat \<Rightarrow> addr list" where
  "row n = map (\<lambda>i. 0x80410000 + of_nat (4096 * i)) [0..<n]"

lemma row_ok:
  assumes "n \<le> 1000"
  shows "distinct (row n)" "\<forall>p \<in> set (row n). p mod 4096 = 0 \<and> 0x80110000 \<le> p \<and> p < 0x8E000000" "\<forall>p \<in> set (row n). 0x80410000 \<le> p" "length (row n) = n"
proof -
  have u: "unat (0x80410000 + of_nat (4096 * i) :: addr) = 0x80410000 + 4096 * i" if "i < n" for i
    using that assms unat_of_nat_uint [of "4096 * i"] unat_add_uint [of "0x80410000" "of_nat (4096 * i)"] by simp
  have "inj_on (\<lambda>i. 0x80410000 + of_nat (4096 * i) :: addr) {0..<n}"
  proof (rule inj_onI)
    fix i j assume "i \<in> {0..<n}" "j \<in> {0..<n}" "(0x80410000 + of_nat (4096 * i) :: addr) = 0x80410000 + of_nat (4096 * j)"
    then show "i = j"
      using u [of i] u [of j] by (metis add_left_cancel atLeastLessThan_iff mult_cancel1 zero_neq_numeral)
  qed
  then show "distinct (row n)"
    by (simp add: row_def distinct_map)
  have "p mod 4096 = 0 \<and> 0x80410000 \<le> p \<and> p < 0x8E000000" if r: "p \<in> set (row n)" for p
  proof -
    obtain i where i: "i < n" "unat p = 0x80410000 + 4096 * i"
      using r u by (auto simp: row_def simp del: of_nat_mult)
    have "unat (p mod 4096) = 0"
      by (simp add: unat_mod i(2))
    then show ?thesis
      using i assms by (simp add: word_le_nat_alt word_less_nat_alt unat_eq_0)
  qed
  then show "\<forall>p \<in> set (row n). p mod 4096 = 0 \<and> 0x80110000 \<le> p \<and> p < 0x8E000000" "\<forall>p \<in> set (row n). 0x80410000 \<le> p"
    by (auto intro: order_trans [of _ "0x80410000"])
  show "length (row n) = n"
    by (simp add: row_def)
qed

theorem setupkvm_kernel_map_witness:
  "\<exists>r t. setupkvm (vm_boot (row 70)) = Inr (r, t) \<and> r \<noteq> 0 \<and> entry (kmemory t) r 0 = 0 \<and> entry (kmemory t) r DEVSPACE = DEVSPACE OR PTE_W OR PTE_P"
proof -
  let ?s = "vm_boot (row 70)"
  note R = row_ok [of 70, simplified]
  have s: "kpool ?s (row 70)" "\<not> kowned ?s KERNBASE"
    using vm_boot_pool [OF R(1,2)] by (simp_all add: KERNBASE_def)
  have k: "kdata_ok (kdata ?s)"
    by (simp add: kdata_ok_def vm_boot_def aligned_def V2P_def layout_defs word_less_nat_alt)
  have u: "0 < KERNBASE" "PGROUNDDOWN DEVSPACE = DEVSPACE"
    by (simp_all add: KERNBASE_def DEVSPACE_def PGROUNDDOWN_def PGSIZE_def)
  have n: "\<not> length (row 70) < 65"
    by (simp add: R(4))
  obtain r t where "setupkvm ?s = Inr (r, t)" "r \<noteq> 0" "\<forall>va \<ge> DEVSPACE. entry (kmemory t) r va = PGROUNDDOWN va OR PTE_W OR PTE_P"
      "\<forall>va. va < KERNBASE \<or> P2V PHYSTOP \<le> va \<and> va < DEVSPACE \<longrightarrow> entry (kmemory t) r va = 0"
    using setupkvm_kernel_map [OF s k] unfolding if_not_P [OF n] by blast
  then show ?thesis
    using u by (intro exI [of _ r] exI [of _ t]) simp
qed


section \<open>Copying an address space\<close>

text \<open>
  The user pages below number \<^verbatim>\<open>k\<close> of the address space \<^verbatim>\<open>e\<close> in state \<^verbatim>\<open>s\<close> have been copied to \<^verbatim>\<open>d\<close>: same flags, same
  contents, in pages that were free.
\<close>

definition copied :: "'a kmem_scheme \<Rightarrow> addr list \<Rightarrow> addr \<Rightarrow> addr \<Rightarrow> nat \<Rightarrow> 'a kmem_scheme \<Rightarrow> addr list \<Rightarrow> bool" where
  "copied s ps e d k t qs \<longleftrightarrow> uspace t qs d \<and> kowned t = kowned s \<and>
     (\<exists>us. ps = us @ qs \<and> pages (kmemory t) d = pages (kmemory s) d \<union> set us) \<and>
     only_in (pages (kmemory t) d) (kmemory s) (kmemory t) \<and>
     (\<forall>i. has_tab (kmemory t) d i \<longrightarrow> has_tab (kmemory s) d i \<or> 1024 * i < k) \<and>
     (\<forall>vb. if pg vb < k
        then PTE_FLAGS (entry (kmemory t) d vb) = PTE_FLAGS (entry (kmemory s) e vb) \<and>
          (\<forall>i < 4096. kmemory t (upage (kmemory t) d vb + of_nat i) = kmemory s (upage (kmemory s) e vb + of_nat i))
        else entry (kmemory t) d vb = entry (kmemory s) d vb)"

text \<open>The address space \<^verbatim>\<open>e\<close> beside free pages and another one.\<close>

definition apart :: "'a kmem_scheme \<Rightarrow> addr list \<Rightarrow> addr \<Rightarrow> addr \<Rightarrow> bool" where
  "apart s ps e d \<longleftrightarrow> uspace s ps e \<and> pages (kmemory s) e \<inter> (set ps \<union> pages (kmemory s) d) = {}"

lemma apart_keep:
  assumes a: "apart s ps e d" and o: "only_in D (kmemory s) (kmemory t)" "D \<subseteq> set ps \<union> pages (kmemory s) d" "\<forall>p \<in> D. aligned p"
    and k: "kpool t qs" "kowned t = kowned s" "set qs \<subseteq> set ps \<union> pages (kmemory s) d"
  shows "uspace t qs e" "entry (kmemory t) e = entry (kmemory s) e" "pages (kmemory t) e = pages (kmemory s) e"
    "p \<in> pages (kmemory s) e \<Longrightarrow> in_range x p 4096 \<Longrightarrow> kmemory t x = kmemory s x"
proof -
  have u: "uspace s ps e" and n: "pages (kmemory s) e \<inter> D = {}" "set qs \<inter> pages (kmemory s) e = {}"
    using a o(2) k(3) by (auto simp: apart_def)
  have "\<forall>p \<in> D. aligned p \<and> p \<notin> insert e (tables (kmemory s) e)"
    using n(1) o(3) by (auto simp: pages_def)
  note M = uspace_move [OF u o(1) this k(1,2) n(2)]
  show "uspace t qs e" "entry (kmemory t) e = entry (kmemory s) e" "pages (kmemory t) e = pages (kmemory s) e"
    by (rule M)+
  show "kmemory t x = kmemory s x" if "p \<in> pages (kmemory s) e" "in_range x p 4096"
    by (rule only_in_page [OF o(1,3) _ _ that(2)]) (use n(1) that(1) uspace_pages(2) [OF u] in auto)
qed

lemma copied_apart:
  assumes a: "apart s ps e d" and c: "copied s ps e d k t qs"
  shows "uspace t qs e" "entry (kmemory t) e = entry (kmemory s) e" "pages (kmemory t) e = pages (kmemory s) e"
    "p \<in> pages (kmemory s) e \<Longrightarrow> in_range x p 4096 \<Longrightarrow> kmemory t x = kmemory s x"
proof -
  have c': "only_in (pages (kmemory t) d) (kmemory s) (kmemory t)" "pages (kmemory t) d \<subseteq> set ps \<union> pages (kmemory s) d"
      "\<forall>p \<in> pages (kmemory t) d. aligned p" "kpool t qs" "kowned t = kowned s" "set qs \<subseteq> set ps \<union> pages (kmemory s) d"
    using c uspace_pages(2) [of t qs d] by (auto simp: copied_def uspace_def space_def)
  note K = apart_keep [OF a c']
  show "uspace t qs e" "entry (kmemory t) e = entry (kmemory s) e" "pages (kmemory t) e = pages (kmemory s) e"
    by (rule K(1-3))+
  show "p \<in> pages (kmemory s) e \<Longrightarrow> in_range x p 4096 \<Longrightarrow> kmemory t x = kmemory s x"
    by (rule K(4))
qed

lemma present_flags: "present (PTE_FLAGS e) \<longleftrightarrow> present e"
proof -
  have "PTE_FLAGS e AND PTE_P = e AND PTE_P"
    by (simp add: PTE_FLAGS_def PTE_P_def and.assoc)
  then show ?thesis
    by simp
qed

lemma offset_in_page: "i < 4096 \<Longrightarrow> in_range (p + of_nat i) p 4096"
  by (simp add: in_range_def unat_of_nat_uint)

lemma memmove_page:
  assumes "kowned s p" "kowned s q"
  shows "memmove m p q PGSIZE = (\<lambda>x. if in_range x p 4096 then m (q + (x - p)) else m x)"
proof -
  have "unat q + unat PGSIZE < 2 ^ 32" "unat p + unat PGSIZE \<le> 2 ^ 32"
    using kowned_range [OF assms(1)] kowned_range [OF assms(2)] by (simp_all add: PGSIZE_def)
  from memmove_eq [OF this] show ?thesis
    by (simp add: PGSIZE_def)
qed

lemma copied_extend:
  assumes a: "apart s ps e d" and c: "copied s ps e d k t (p # qs)" and k: "k < 524288" and p: "p \<notin> pages (kmemory t) d" "kowned t p"
    and w: "uspace w rs d" "kowned w = kowned t" "qs = vs @ rs" "tables (kmemory w) d = tables (kmemory t) d \<union> set vs"
      "upages (kmemory w) d = insert p (upages (kmemory t) d)" "only_in (insert p (insert d (tables (kmemory w) d))) (kmemory t) (kmemory w)"
      "entry (kmemory w) d = (\<lambda>vb. if pg vb = k then x else entry (kmemory t) d vb)"
    and x: "PTE_FLAGS x = PTE_FLAGS (entry (kmemory s) e (of_nat (4096 * k)))" "P2V (PTE_ADDR x) = p"
    and m: "\<forall>i < 4096. kmemory w (p + of_nat i) = kmemory s (upage (kmemory s) e (of_nat (4096 * k)) + of_nat i)"
    and pr: "\<forall>vb. pg vb < k \<longrightarrow> present (entry (kmemory s) e vb)" and ta: "tabs_added (kmemory t) (kmemory w) d k k"
  shows "copied s ps e d (Suc k) w rs"
proof -
  let ?m = "kmemory s" let ?n = "kmemory t" let ?o = "kmemory w" let ?va = "of_nat (4096 * k) :: addr"
  obtain us where us: "ps = us @ p # qs" "pages ?n d = pages ?m d \<union> set us" "only_in (pages ?n d) ?m ?n" and kw: "kowned t = kowned s"
    using c by (auto simp: copied_def)
  have ce: "if pg vb < k
        then PTE_FLAGS (entry ?n d vb) = PTE_FLAGS (entry ?m e vb) \<and>
          (\<forall>i < 4096. ?n (upage ?n d vb + of_nat i) = ?m (upage ?m e vb + of_nat i))
        else entry ?n d vb = entry ?m d vb" for vb
    using c unfolding copied_def by blast
  have pgs: "pages ?o d = pages ?m d \<union> set (us @ p # vs)"
    using us(2) w(4,5) by (auto simp: pages_def)
  have o: "only_in (pages ?o d) ?m ?o"
    by (rule only_in_mono [OF only_in_trans [OF us(3) w(6)]]) (use w(4,5) in \<open>auto simp: pages_def\<close>)
  have al: "\<forall>q \<in> insert p (insert d (tables ?o d)). aligned q"
    using uspace_pages(2) [OF w(1)] w(5) by (auto simp: pages_def)
  have va: "pg ?va = k"
    using pg_of_nat [of k] k by simp
  have "if pg vb < Suc k
        then PTE_FLAGS (entry ?o d vb) = PTE_FLAGS (entry ?m e vb) \<and>
          (\<forall>i < 4096. ?o (upage ?o d vb + of_nat i) = ?m (upage ?m e vb + of_nat i))
        else entry ?o d vb = entry ?m d vb" for vb
  proof (cases "pg vb = k")
    case True
    then have sp: "entry ?m e vb = entry ?m e ?va" "upage ?m e vb = upage ?m e ?va"
      using same_page_entry [of vb ?va ?m e] va by (simp_all add: same_page_def upage_def)
    have "upage ?o d vb = p" "entry ?o d vb = x"
      using True x(2) by (simp_all add: upage_def w(7))
    then show ?thesis
      unfolding sp using True x(1) m by simp
  next
    case False
    then have eq: "entry ?o d vb = entry ?n d vb" "upage ?o d vb = upage ?n d vb"
      by (simp_all add: w(7) upage_def)
    show ?thesis
    proof (cases "pg vb < k")
      case True
      then have t: "PTE_FLAGS (entry ?n d vb) = PTE_FLAGS (entry ?m e vb)"
          "\<forall>i < 4096. ?n (upage ?n d vb + of_nat i) = ?m (upage ?m e vb + of_nat i)"
        using ce [of vb] by auto
      have "present (entry ?n d vb)"
        using pr True present_flags [of "entry ?n d vb"] present_flags [of "entry ?m e vb"] unfolding t(1) by simp
      then have "mapped_user ?n d vb"
        using True k by (simp add: user_pg)
      from upages_I [OF this] have q: "upage ?n d vb \<in> upages ?o d" "upage ?n d vb \<noteq> p"
        using p(1) w(5) by (auto simp: pages_def)
      then have "aligned (upage ?n d vb)" "upage ?n d vb \<notin> insert p (insert d (tables ?o d))"
        using w(1) kowned_aligned by (auto simp: uspace_def)
      from only_in_page [OF w(6) al this] offset_in_page show ?thesis
        using True t by (simp add: eq)
    next
      case f: False
      then show ?thesis
        using ce [of vb] False eq by auto
    qed
  qed
  moreover have "has_tab ?m d i \<or> 1024 * i < Suc k" if "has_tab ?o d i" for i
  proof -
    have "has_tab ?n d i \<or> i = k div 1024"
      using ta that unfolding tabs_added_def by (meson order.antisym)
    moreover have "has_tab ?n d i \<longrightarrow> has_tab ?m d i \<or> 1024 * i < k"
      using c unfolding copied_def by blast
    moreover have "1024 * (k div 1024) < Suc k"
      by (simp add: less_Suc_eq_le)
    ultimately show ?thesis
      by auto
  qed
  moreover have "kowned w = kowned s" "ps = (us @ p # vs) @ rs"
    using w(2,3) kw us(1) by simp_all
  ultimately show ?thesis
    using w(1) pgs o unfolding copied_def by blast
qed

text \<open>Copying was given up and every page of \<^verbatim>\<open>d\<close> is free again.\<close>

definition gave_up :: "'a kmem_scheme \<Rightarrow> addr list \<Rightarrow> addr \<Rightarrow> 'a kmem_scheme \<Rightarrow> addr list \<Rightarrow> bool" where
  "gave_up s ps d t qs \<longleftrightarrow> kpool t qs \<and> kowned t = kowned s \<and> set qs = set ps \<union> pages (kmemory s) d \<and>
     only_in (set ps \<union> pages (kmemory s) d) (kmemory s) (kmemory t)"

lemma give_up:
  assumes t: "uspace t qs d" "kowned t = kowned s" "set qs \<union> pages (kmemory t) d = set ps \<union> pages (kmemory s) d"
    "only_in (set ps \<union> pages (kmemory s) d) (kmemory s) (kmemory t)"
  obtains w rs where "freevm d t = Inr w" "gave_up s ps d w rs"
proof -
  obtain w rs where w: "freevm d t = Inr w" "kpool w rs" "kowned w = kowned t" "set rs = set qs \<union> pages (kmemory t) d"
      "only_in (pages (kmemory t) d) (kmemory t) (kmemory w)"
    by (rule freevm_ok [OF t(1)])
  have "only_in (set ps \<union> pages (kmemory s) d) (kmemory s) (kmemory w)"
    by (rule only_in_mono [OF only_in_trans [OF t(4) w(5)]]) (use t(3) in blast)
  then show ?thesis
    using that [OF w(1)] w(2-4) t(2,3) by (simp add: gave_up_def)
qed

lemma drop_page:
  assumes t: "uspace t qs d" and p: "kowned t p" "p \<notin> set qs" "p \<notin> pages (kmemory t) d"
  obtains w where "kfree p t = Inr w" "uspace w (p # qs) d" "kowned w = kowned t" "pages (kmemory w) d = pages (kmemory t) d"
    "only_in {p} (kmemory t) (kmemory w)"
proof -
  have pool: "kpool t qs"
    using t by (simp add: uspace_def space_def)
  obtain w where w: "kfree p t = Inr w" "kpool w (p # qs)" "kowned w = kowned t"
      "\<forall>x. \<not> in_range x p 4096 \<longrightarrow> kmemory w x = kmemory t x"
    using ka.dealloc_page [OF pool p(1,2)] by blast
  have o: "only_in {p} (kmemory t) (kmemory w)" "\<forall>q \<in> {p}. aligned q \<and> q \<notin> insert d (tables (kmemory t) d)"
    using w(4) kowned_aligned [OF p(1)] p(3) by (auto simp: only_in_def pages_def)
  have dj: "set (p # qs) \<inter> pages (kmemory t) d = {}"
    using uspace_pages(3) [OF t] p(3) by auto
  note M = uspace_move [OF t o w(2,3) dj]
  show ?thesis
    by (rule that [OF w(1) M(1) w(3) M(3) o(1)])
qed

lemma copy_flags:
  assumes "kowned s p" "present x"
  shows "PTE_ADDR (V2P p OR PTE_FLAGS x OR PTE_P) = V2P p" "PTE_FLAGS (V2P p OR PTE_FLAGS x OR PTE_P) = PTE_FLAGS x"
proof -
  have a: "aligned (V2P p)"
    by (rule aligned_V2P [OF kowned_aligned [OF assms(1)]])
  have "odd (PTE_FLAGS x)"
    using assms(2) present_flags [of x] present_odd [of "PTE_FLAGS x"] by simp
  then have f: "PTE_FLAGS x OR PTE_P = PTE_FLAGS x"
    by (simp add: PTE_P_def or_one_eq)
  have z: "PTE_FLAGS x AND NOT 0xFFF = 0"
    unfolding PTE_FLAGS_def by (simp add: and.assoc)
  show "PTE_ADDR (V2P p OR PTE_FLAGS x OR PTE_P) = V2P p" "PTE_FLAGS (V2P p OR PTE_FLAGS x OR PTE_P) = PTE_FLAGS x"
    unfolding f by (rule PTE_ADDR_or [OF a z])+
qed

lemma copyuvm_loop_found:
  assumes "has_tab (kmemory t) e (pdx (of_nat i))" "uspace t qs e" "i < sz" "present (entry (kmemory t) e (of_nat i))"
  shows "copyuvm_loop d e sz i t = bindE (kalloc t) (\<lambda>(mem, s).
      if mem = 0 then bindE (freevm d s) (\<lambda>s. Inr (0, s))
      else bindE (mappages d (of_nat i) PGSIZE (V2P mem) (PTE_FLAGS (entry (kmemory t) e (of_nat i)))
          (s\<lparr>kmemory := memmove (kmemory s) mem (upage (kmemory t) e (of_nat i)) PGSIZE\<rparr>)) (\<lambda>(r, s).
        if r < 0 then bindE (kfree mem s) (\<lambda>s. bindE (freevm d s) (\<lambda>s. Inr (0, s)))
        else copyuvm_loop d e sz (i + 4096) s))"
proof -
  let ?pte = "slot (tab (kmemory t) e (pdx (of_nat i))) (ptx (of_nat i))"
  have "?pte \<noteq> 0" "ld32 (kmemory t) ?pte = entry (kmemory t) e (of_nat i)"
    using assms(1,2) tables_I [OF assms(1)] slot_not_null [of t _ "ptx (of_nat i)"] by (auto simp: uspace_def space_def entry_def)
  then show ?thesis
    unfolding copyuvm_loop.simps [of d e sz i t] upage_def using walk_found [OF assms(1)] assms(3,4) by (simp add: Let_def)
qed

text \<open>The number of pages a copy of \<^verbatim>\<open>n\<close> user pages takes: the kernel half, the pages and a table for every 1024 of them.\<close>

definition copy_need :: "nat \<Rightarrow> nat" where
  "copy_need n = 65 + n + (n + 1023) div 1024"

lemma copy_need_mono: "k \<le> n \<Longrightarrow> copy_need k \<le> copy_need n"
  unfolding copy_need_def by (intro add_mono div_le_mono) simp_all

lemma user_tabs:
  fixes k :: nat
  shows "{i. 1024 * i < k} = {..<(k + 1023) div 1024}" "\<forall>i. 1024 * i < k \<and> i \<noteq> k div 1024 \<longrightarrow> i < k div 1024"
proof -
  show "{i. 1024 * i < k} = {..<(k + 1023) div 1024}"
    by auto
  show "\<forall>i. 1024 * i < k \<and> i \<noteq> k div 1024 \<longrightarrow> i < k div 1024"
    by (metis div_le_mono le_neq_implies_less less_imp_le nonzero_mult_div_cancel_left zero_neq_numeral)
qed

text \<open>The size of a copy in the middle of the work, and when the table for the next page is missing.\<close>

lemma copied_card:
  assumes c: "copied s ps e d k t qs" and k: "\<forall>i. has_tab (kmemory s) d i \<longrightarrow> i \<in> ktabs"
    and ab: "\<forall>vb < KERNBASE. \<not> present (entry (kmemory s) d vb)"
  shows "card (pages (kmemory t) d) < copy_need (Suc k)"
    "tabs_added (kmemory t) m d k k \<Longrightarrow> \<not> has_tab m d (k div 1024) \<Longrightarrow> entry m d = entry (kmemory t) d \<Longrightarrow>
      Suc (card (pages m d)) < copy_need (Suc k)"
proof -
  have u: "\<forall>va. mapped_user (kmemory t) d va \<longrightarrow> pg va < k"
    using c ab unfolding copied_def by metis
  have h: "\<forall>i. has_tab (kmemory t) d i \<longrightarrow> i \<in> ktabs \<or> 1024 * i < k"
    using c k unfolding copied_def by blast
  have "card (pages (kmemory t) d) \<le> 1 + card (ktabs \<union> {..<(k + 1023) div 1024}) + k"
    by (rule card_pages_le) (use h u ktabs_card user_tabs(1) in auto)
  also have "\<dots> \<le> 1 + (64 + (k + 1023) div 1024) + k"
    using card_Un_le [of ktabs "{..<(k + 1023) div 1024}"] by (simp add: ktabs_card)
  also have "\<dots> < copy_need (Suc k)"
    using div_le_mono [of "k + 1023" "Suc k + 1023" 1024] by (simp add: copy_need_def)
  finally show "card (pages (kmemory t) d) < copy_need (Suc k)" .
  assume m: "tabs_added (kmemory t) m d k k" "\<not> has_tab m d (k div 1024)" "entry m d = entry (kmemory t) d"
  have "i \<in> ktabs \<or> i < k div 1024" if "has_tab m d i" for i
  proof -
    have "i \<noteq> k div 1024" "has_tab (kmemory t) d i"
      using m(1,2) that unfolding tabs_added_def by (metis order.antisym)+
    then show ?thesis
      using h user_tabs(2) by blast
  qed
  then have "card (pages m d) \<le> 1 + card (ktabs \<union> {..<k div 1024}) + k"
    by (intro card_pages_le) (use u ktabs_card m(3) in auto)
  also have "\<dots> \<le> 1 + (64 + k div 1024) + k"
    using card_Un_le [of ktabs "{..<k div 1024}"] by (simp add: ktabs_card)
  finally show "Suc (card (pages m d)) < copy_need (Suc k)"
    by (simp add: copy_need_def)
qed

lemma has_tab_only_in:
  assumes "only_in {p} m m'" "aligned d" "aligned p" "p \<noteq> d"
  shows "has_tab m' d = has_tab m d"
proof -
  have "ld32 m' (slot d i) = ld32 m (slot d i)" if "i < 1024" for i
    by (rule only_in_slot [OF assms(1)]) (use assms that in auto)
  then show ?thesis
    by (auto simp: has_tab_def fun_eq_iff)
qed

lemma copy_step:
  assumes a: "apart s ps e d" and c: "copied s ps e d k t qs" and k: "k < 524288" "4096 * k < sz"
    and pr: "\<forall>vb. pg vb \<le> k \<longrightarrow> present (entry (kmemory s) e vb)"
    and ab: "\<forall>vb < KERNBASE. \<not> present (entry (kmemory s) d vb)" and kt: "\<forall>i. has_tab (kmemory s) d i \<longrightarrow> i \<in> ktabs"
  obtains (stopped) w rs where "copyuvm_loop d e sz (4096 * k) t = Inr (0, w)" "gave_up s ps d w rs"
      "card (set ps \<union> pages (kmemory s) d) < copy_need (Suc k)"
  | (proceeds) w rs where "copyuvm_loop d e sz (4096 * k) t = copyuvm_loop d e sz (4096 * k + 4096) w" "copied s ps e d (Suc k) w rs"
proof -
  let ?va = "of_nat (4096 * k) :: addr" let ?x = "entry (kmemory s) e ?va" let ?q = "upage (kmemory s) e ?va"
  have va: "pg ?va = k" "aligned ?va" "?va < KERNBASE"
    using k(1) pg_of_nat [of k] by (simp_all add: user_pg del: of_nat_mult)
  note E = copied_apart [OF a c]
  have us: "uspace t qs d" "kowned t = kowned s" "only_in (pages (kmemory t) d) (kmemory s) (kmemory t)"
      "set qs \<union> pages (kmemory t) d = set ps \<union> pages (kmemory s) d"
    using c by (auto simp: copied_def)
  have x: "present ?x" "entry (kmemory t) e ?va = ?x" "upage (kmemory t) e ?va = ?q"
    using pr va(1) by (simp_all add: E(2) upage_def del: of_nat_mult)
  have mu: "mapped_user (kmemory s) e ?va"
    using x(1) va(3) by blast
  have q: "?q \<in> pages (kmemory s) e" "kowned s ?q"
    using upages_I [OF mu] a uspace_pages(1) [of s ps e ?q] by (auto simp: pages_def apart_def)
  have h: "has_tab (kmemory t) e (pdx ?va)"
    using x(1) unfolding x(2) [symmetric] by (auto simp: entry_def split: if_splits)
  note L = copyuvm_loop_found [OF h E(1) k(2) x(1) [folded x(2)], of d, unfolded x(2,3)]
  have abt: "\<not> present (entry (kmemory t) d ?va)"
  proof -
    have "entry (kmemory t) d ?va = entry (kmemory s) d ?va"
      using c va(1) unfolding copied_def by (metis less_irrefl)
    then show ?thesis
      using ab va(3) by simp
  qed
  note C = copied_card [OF c kt ab]
  have t0: "only_in (set ps \<union> pages (kmemory s) d) (kmemory s) (kmemory t)"
    by (rule only_in_mono [OF us(3)]) (use us(4) in blast)
  show ?thesis
  proof (cases qs)
    case Nil
    obtain u where u: "kalloc t = Inr (0, u)" "space u [] d" "kmemory u = kmemory t" "kowned u = kowned t"
      using space_kalloc_empty [of t d] us(1) Nil by (auto simp: uspace_def)
    have "uspace u [] d" "kowned u = kowned s"
      using us(1,2) u Nil unfolding uspace_def by simp_all
    moreover have "set [] \<union> pages (kmemory u) d = set ps \<union> pages (kmemory s) d"
        "only_in (set ps \<union> pages (kmemory s) d) (kmemory s) (kmemory u)"
      using us(4) Nil t0 by (simp_all add: u(3))
    ultimately obtain w rs where "freevm d u = Inr w" "gave_up s ps d w rs"
      by (rule give_up)
    moreover have "card (set ps \<union> pages (kmemory s) d) < copy_need (Suc k)"
      using C(1) us(4) Nil by simp
    ultimately show ?thesis
      using stopped [of w rs] L u(1) by simp
  next
    case (Cons p qs')
    obtain v where v: "kalloc t = Inr (p, v)" "kmemory v = kmemory t" "kowned v = kowned t" "p \<noteq> 0" "kowned t p"
        "p \<notin> pages (kmemory t) d" "p \<notin> set qs'" "kpool v qs'"
        "\<forall>m. only_in {p} (kmemory t) m \<longrightarrow> uspace (v\<lparr>kmemory := m\<rparr>) qs' d \<and> entry m d = entry (kmemory t) d \<and>
           tables m d = tables (kmemory t) d \<and> pages m d = pages (kmemory t) d"
      by (rule take_page [OF us(1) [unfolded Cons]])
    define m where "m = memmove (kmemory t) p ?q PGSIZE"
    define u where "u = v\<lparr>kmemory := m\<rparr>"
    have kp: "kowned s p" "kowned u = kowned s" "kmemory u = m"
      using v(3,5) us(2) by (simp_all add: u_def)
    have mm: "m = (\<lambda>x. if in_range x p 4096 then kmemory t (?q + (x - p)) else kmemory t x)"
      unfolding m_def by (rule memmove_page [OF kp(1) q(2)])
    have om: "only_in {p} (kmemory t) m"
      by (simp add: only_in_def mm)
    have M: "uspace u qs' d" "entry m d = entry (kmemory t) d" "tables m d = tables (kmemory t) d" "pages m d = pages (kmemory t) d"
      using v(9) [rule_format, OF om] by (simp_all add: u_def)
    have pu: "kowned u p" "p \<notin> pages (kmemory u) d" "\<not> present (entry (kmemory u) d ?va)"
      using kp v(6) abt by (simp_all add: M(2,4) del: of_nat_mult)
    have L': "copyuvm_loop d e sz (4096 * k) t = bindE (mappages d ?va PGSIZE (V2P p) (PTE_FLAGS ?x) u) (\<lambda>(r, s).
        if r < 0 then bindE (kfree p s) (\<lambda>s. bindE (freevm d s) (\<lambda>s. Inr (0, s))) else copyuvm_loop d e sz (4096 * k + 4096) s)"
      unfolding L using v(1,4) by (simp add: u_def m_def v(2))
    obtain r w rs vs where w: "mappages d ?va PGSIZE (V2P p) (PTE_FLAGS ?x) u = Inr (r, w)" "uspace w rs d" "kowned w = kowned u"
      "qs' = vs @ rs" "tables (kmemory w) d = tables (kmemory u) d \<union> set vs"
      "only_in (insert d (tables (kmemory w) d)) (kmemory u) (kmemory w)"
      "r = 0 \<and> entry (kmemory w) d = (\<lambda>vb. if same_page ?va vb then V2P p OR PTE_FLAGS ?x OR PTE_P else entry (kmemory u) d vb) \<and>
         upages (kmemory w) d = insert p (upages (kmemory u) d) \<or>
       r = - 1 \<and> rs = [] \<and> entry (kmemory w) d = entry (kmemory u) d \<and> upages (kmemory w) d = upages (kmemory u) d"
      by (rule place_page [OF M(1) pu(1) v(7) pu(2) va(2,3) pu(3) copy_flags(1) [OF pu(1) x(1)]])
    have ta: "tabs_added (kmemory t) (kmemory w) d k k" "r \<noteq> 0 \<Longrightarrow> \<not> has_tab (kmemory w) d (k div 1024)"
    proof -
      have n: "unat ?va = 4096 * k" "unat PGSIZE = 4096"
        using unat_of_nat_uint [of "4096 * k"] k(1) by (simp_all add: PGSIZE_def)
      have z: "0 < PGSIZE" "unat ?va + unat PGSIZE \<le> 4294967296"
        unfolding n using k(1) by (simp_all add: PGSIZE_def)
      have l: "pg (?va + PGSIZE - 1) = k"
        unfolding pg_last(1) [OF z(2,1)] n by simp
      have ab': "\<forall>vb. pg ?va \<le> pg vb \<and> pg vb \<le> pg (?va + PGSIZE - 1) \<longrightarrow> \<not> present (entry (kmemory u) d vb)"
      proof (intro allI impI)
        fix vb assume "pg ?va \<le> pg vb \<and> pg vb \<le> pg (?va + PGSIZE - 1)"
        then have "same_page ?va vb"
          unfolding l va(1) by (simp add: same_page_def va(1) del: of_nat_mult)
        from same_page_entry [OF this, of "kmemory u" d] pu(3) show "\<not> present (entry (kmemory u) d vb)"
          by simp
      qed
      have su: "space u qs' d"
        using M(1) by (simp add: uspace_def)
      note T = mappages_tabs [OF su z ab' w(1), unfolded l va(1)]
      have "has_tab (kmemory u) d = has_tab (kmemory t) d"
        unfolding kp(3) by (rule has_tab_only_in [OF om]) (use v(5,6) us(1) kowned_aligned in \<open>auto simp: pages_def uspace_def space_def\<close>)
      then show "tabs_added (kmemory t) (kmemory w) d k k"
        using T(1) by (simp add: tabs_added_def)
      show "r \<noteq> 0 \<Longrightarrow> \<not> has_tab (kmemory w) d (k div 1024)"
        using T(2) by (auto simp: tab_missing_def)
    qed
    have sp: "same_page ?va vb \<longleftrightarrow> pg vb = k" for vb
      using va(1) by (auto simp: same_page_def)
    have up: "upages m d = upages (kmemory t) d"
      using upages_cong [OF M(2)] by simp
    have pw: "only_in (insert p (insert d (tables (kmemory w) d))) (kmemory t) (kmemory w)"
      by (rule only_in_mono [OF only_in_trans [OF om w(6) [unfolded kp(3)]]]) auto
    have tw: "kowned w = kowned t" "tables (kmemory w) d = tables (kmemory t) d \<union> set vs"
      using w(3,5) kp us(2) by (simp_all add: M(3))
    show ?thesis
    proof (cases "r = 0")
      case True
      then have e: "entry (kmemory w) d = (\<lambda>vb. if pg vb = k then V2P p OR PTE_FLAGS ?x OR PTE_P else entry (kmemory t) d vb)"
          "upages (kmemory w) d = insert p (upages (kmemory t) d)"
        using w(7) [unfolded sp kp(3) M(2) up] by auto
      have np: "p \<notin> insert d (tables (kmemory w) d)" "aligned p" and al: "\<forall>z \<in> insert d (tables (kmemory w) d). aligned z"
        using w(2) e(2) uspace_pages(2) [OF w(2)] kowned_aligned [OF kp(1)] by (auto simp: uspace_def pages_def)
      have "kmemory w (p + of_nat i) = kmemory s (?q + of_nat i)" if "i < 4096" for i
        using only_in_page [OF w(6) al np(2,1) offset_in_page [OF that]] E(4) [OF q(1) offset_in_page [OF that]] offset_in_page [OF that]
        by (simp add: kp(3) mm)
      then have mem: "\<forall>i < 4096. kmemory w (p + of_nat i) = kmemory s (?q + of_nat i)"
        by blast
      have pa: "P2V (PTE_ADDR (V2P p OR PTE_FLAGS ?x OR PTE_P)) = p" and pr': "\<forall>vb. pg vb < k \<longrightarrow> present (entry (kmemory s) e vb)"
        unfolding copy_flags(1) [OF kp(1) x(1)] using pr by simp_all
      have "copied s ps e d (Suc k) w rs"
        by (rule copied_extend [OF a c [unfolded Cons] k(1) v(6,5) w(2) tw(1) w(4) tw(2) e(2) pw e(1)
              copy_flags(2) [OF kp(1) x(1)] pa mem pr' ta(1)])
      then show ?thesis
        using proceeds [of w rs] L' w(1) True by simp
    next
      case False
      then have e: "r = - 1" "rs = []" "upages (kmemory w) d = upages (kmemory t) d" "entry (kmemory w) d = entry (kmemory t) d"
        using w(7) [unfolded kp(3) up M(2)] by auto
      have gw: "pages (kmemory w) d = pages (kmemory t) d \<union> set qs'"
        using tw(2) e(2,3) w(4) by (auto simp: pages_def)
      have pp: "kowned w p" "p \<notin> set rs" "p \<notin> pages (kmemory w) d"
        using tw(1) v(5,6,7) e(2) by (auto simp: gw)
      obtain y where y: "kfree p w = Inr y" "uspace y (p # rs) d" "kowned y = kowned w" "pages (kmemory y) d = pages (kmemory w) d"
          "only_in {p} (kmemory w) (kmemory y)"
        by (rule drop_page [OF w(2) pp])
      have all: "set (p # rs) \<union> pages (kmemory y) d = set ps \<union> pages (kmemory s) d"
        using us(4) unfolding y(4) gw e(2) Cons by auto
      have "insert p (insert d (tables (kmemory w) d)) \<subseteq> set (p # rs) \<union> pages (kmemory y) d"
        unfolding y(4) by (auto simp: pages_def)
      then have "insert p (insert d (tables (kmemory w) d)) \<subseteq> set ps \<union> pages (kmemory s) d"
        unfolding all .
      then have "only_in (set ps \<union> pages (kmemory s) d) (kmemory s) (kmemory y)"
        by (intro only_in_mono [OF only_in_trans [OF only_in_trans [OF t0 pw] y(5)]]) blast
      then obtain z zs where "freevm d y = Inr z" "gave_up s ps d z zs"
        using give_up [OF y(2) _ all] y(3) tw(1) us(2) by metis
      moreover have "card (set ps \<union> pages (kmemory s) d) < copy_need (Suc k)"
        using C(2) [OF ta(1) ta(2) [OF False] e(4)] card_insert_le_m1 [of "Suc (card (pages (kmemory w) d))" "pages (kmemory w) d" p]
        unfolding all [symmetric] y(4) e(2) by simp
      ultimately show ?thesis
        using stopped [of z zs] L' w(1) e(1) y(1) by simp
    qed
  qed
qed

lemma copy_loop_ok:
  assumes a: "apart s ps e d" and z: "sz \<le> KERNBASE"
    and pr: "\<forall>vb. pg vb < npages sz \<longrightarrow> present (entry (kmemory s) e vb)"
    and ab: "\<forall>vb < KERNBASE. \<not> present (entry (kmemory s) d vb)" and kt: "\<forall>i. has_tab (kmemory s) d i \<longrightarrow> i \<in> ktabs"
  shows "copied s ps e d k t qs \<Longrightarrow> k \<le> npages sz \<Longrightarrow> \<exists>r w rs. copyuvm_loop d e (unat sz) (4096 * k) t = Inr (r, w) \<and>
    (r = d \<and> copied s ps e d (npages sz) w rs \<or> r = 0 \<and> gave_up s ps d w rs \<and> card (set ps \<union> pages (kmemory s) d) < copy_need (npages sz))"
proof (induction "npages sz - k" arbitrary: k t qs)
  case 0
  then have k: "k = npages sz" "\<not> 4096 * k < unat sz"
    by (simp_all add: npages_def)
  then have "copyuvm_loop d e (unat sz) (4096 * k) t = Inr (d, t)"
    by (subst copyuvm_loop.simps) simp
  then show ?case
    using 0(2) k(1) by blast
next
  case (Suc j)
  have k: "k < npages sz" "k < 524288"
    using Suc.hyps(2) npages_user [OF z] by linarith+
  have l: "4096 * k < unat sz"
    using k(1) by (simp add: npages_def)
  have p: "\<forall>vb. pg vb \<le> k \<longrightarrow> present (entry (kmemory s) e vb)"
    using pr k(1) by simp
  from a Suc.prems(1) k(2) l p ab kt show ?case
  proof (cases rule: copy_step)
    case (stopped w rs)
    then show ?thesis
      using copy_need_mono [of "Suc k" "npages sz"] k(1) by (auto intro: less_le_trans)
  next
    case (proceeds w rs)
    have "j = npages sz - Suc k" "Suc k \<le> npages sz"
      using Suc.hyps(2) k(1) by simp_all
    from Suc.hyps(1) [OF this(1) proceeds(2) this(2)] show ?thesis
      unfolding proceeds(1) by (simp add: add.commute)
  qed
qed

lemma offset_nat: "(va :: addr) AND 0xFFF = of_nat (unat va mod 4096)"
proof -
  have "va AND 0xFFF = take_bit 12 va"
    by (simp add: take_bit_eq_mask mask_eq_exp_minus_1)
  then show ?thesis
    by (simp add: word_unat_eq_iff unat_mod take_bit_eq_mod unat_of_nat_uint)
qed

lemma umem_upage: "present (entry m d va) \<Longrightarrow> umem d m va = m (upage m d va + of_nat (unat va mod 4096))"
  by (auto simp: umem_def utrans_def Let_def pde_at_slot pte_at_slot upage_def entry_def tab_def offset_nat split: if_splits)

lemma copied_umem:
  assumes c: "copied s ps e d k t qs" and pr: "present (entry (kmemory s) e va)" and k: "pg va < k"
  shows "PTE_FLAGS (entry (kmemory t) d va) = PTE_FLAGS (entry (kmemory s) e va)" "umem d (kmemory t) va = umem e (kmemory s) va"
proof -
  have t: "PTE_FLAGS (entry (kmemory t) d va) = PTE_FLAGS (entry (kmemory s) e va)"
      "\<forall>i < 4096. kmemory t (upage (kmemory t) d va + of_nat i) = kmemory s (upage (kmemory s) e va + of_nat i)"
    using c k unfolding copied_def by presburger+
  have "present (entry (kmemory t) d va)"
    using pr present_flags [of "entry (kmemory t) d va"] present_flags [of "entry (kmemory s) e va"] unfolding t(1) by simp
  then show "PTE_FLAGS (entry (kmemory t) d va) = PTE_FLAGS (entry (kmemory s) e va)" "umem d (kmemory t) va = umem e (kmemory s) va"
    using t pr by (simp_all add: umem_upage)
qed

lemma space_kept:
  assumes s: "uspace s ps e" and t: "only_in (set ps) (kmemory s) (kmemory t)" "kpool t qs" "kowned t = kowned s" "set qs \<subseteq> set ps"
  shows "uspace t qs e" "entry (kmemory t) e = entry (kmemory s) e" "pages (kmemory t) e = pages (kmemory s) e"
    "mapped_user (kmemory s) e va \<Longrightarrow> umem e (kmemory t) va = umem e (kmemory s) va"
proof -
  have dis: "pages (kmemory s) e \<inter> set ps = {}"
    using uspace_pages(3) [OF s] by blast
  have al: "\<forall>p \<in> set ps. aligned p"
    using s kowned_aligned by (auto simp: uspace_def space_def kpool_def)
  have D: "\<forall>p \<in> set ps. aligned p \<and> p \<notin> insert e (tables (kmemory s) e)" "set qs \<inter> pages (kmemory s) e = {}"
    using al dis t(4) by (auto simp: pages_def)
  note M = uspace_move [OF s t(1) D(1) t(2,3) D(2)]
  show "uspace t qs e" "entry (kmemory t) e = entry (kmemory s) e" "pages (kmemory t) e = pages (kmemory s) e"
    by (rule M)+
  assume v: "mapped_user (kmemory s) e va"
  have u: "upage (kmemory s) e va \<in> pages (kmemory s) e" "upage (kmemory t) e va = upage (kmemory s) e va"
    using upages_I [OF v] M(2) by (simp_all add: pages_def upage_def)
  have "kmemory t (upage (kmemory s) e va + of_nat (unat va mod 4096)) = kmemory s (upage (kmemory s) e va + of_nat (unat va mod 4096))"
    by (rule only_in_page [OF t(1) al uspace_pages(2) [OF s u(1)] _ offset_in_page]) (use u(1) dis in auto)
  then show "umem e (kmemory t) va = umem e (kmemory s) va"
    using v M(2) u(2) by (simp add: umem_upage)
qed

text \<open>A finished copy takes exactly the pages it needs.\<close>

lemma copy_size:
  assumes w: "uspace w rs d" and pr: "\<forall>va. pg va < n \<longrightarrow> present (entry (kmemory w) d va)" and k: "\<forall>va \<ge> KERNBASE. entry (kmemory w) d va = kernel_entry dat va"
    and n: "n \<le> 524288"
  shows "copy_need n \<le> card (pages (kmemory w) d)"
proof -
  let ?I = "ktabs \<union> {..<(n + 1023) div 1024}"
  have "(n + 1023) div 1024 \<le> 512"
    using n div_le_mono [of "n + 1023" "525311" 1024] by simp
  then have "ktabs \<inter> {..<(n + 1023) div 1024} = {}"
    by (auto simp: ktabs_def)
  then have c: "card ?I = 64 + (n + 1023) div 1024"
    by (simp add: card_Un_disjoint ktabs_card)
  have "has_tab (kmemory w) d i" if i: "i < (n + 1023) div 1024" for i
  proof -
    have l: "1024 * i < n"
      using i user_tabs(1) [of n] by blast
    then have "pg (of_nat (4096 * (1024 * i))) = 1024 * i"
      using pg_of_nat(1) [of "1024 * i"] n by linarith
    then have "present (entry (kmemory w) d (of_nat (4096 * (1024 * i))))" "pdx (of_nat (4096 * (1024 * i))) = i"
      using pr l unfolding pdx_pg by simp_all
    then show ?thesis
      by (auto simp: entry_def simp del: of_nat_mult split: if_splits)
  qed
  then have "\<forall>i \<in> ?I. has_tab (kmemory w) d i"
    using kernel_tabs [OF k] by blast
  moreover have "\<forall>g < n. mapped_user (kmemory w) d (of_nat (4096 * g))"
    using pr n pg_of_nat(1) by (auto simp: user_pg simp del: of_nat_mult)
  ultimately have "1 + card ?I + n \<le> card (pages (kmemory w) d)"
    using card_pages_ge [OF w] n by blast
  then show ?thesis
    by (simp add: c copy_need_def)
qed

lemma copy_finished:
  assumes s: "uspace s ps e" and z: "sz \<le> KERNBASE" and pr: "\<forall>va. pg va < npages sz \<longrightarrow> present (entry (kmemory s) e va)"
    and K: "entry (kmemory u) e = entry (kmemory s) e" "\<And>va. mapped_user (kmemory s) e va \<Longrightarrow> umem e (kmemory u) va = umem e (kmemory s) va"
    and o: "only_in (set ps) (kmemory s) (kmemory u)" "set qs \<subseteq> set ps" and u: "kowned u = kowned s"
    and dis: "pages (kmemory s) e \<inter> set ps = {}" and ps: "set ps = pages (kmemory u) d \<union> set qs"
    and d: "entry (kmemory u) d = kernel_entry dat" and c: "copied u qs e d (npages sz) w rs"
  shows "uspace w rs e" "uspace w rs d" "entry (kmemory w) e = entry (kmemory s) e"
    "\<forall>va. mapped_user (kmemory s) e va \<longrightarrow> umem e (kmemory w) va = umem e (kmemory s) va" "\<not> length ps < copy_need (npages sz)"
    "pages (kmemory w) d \<union> set rs = set ps" "pages (kmemory w) d \<inter> pages (kmemory w) e = {}"
    "\<forall>va. pg va < npages sz \<longrightarrow> PTE_FLAGS (entry (kmemory w) d va) = PTE_FLAGS (entry (kmemory s) e va) \<and> umem d (kmemory w) va = umem e (kmemory s) va"
    "\<forall>va. npages sz \<le> pg va \<longrightarrow> entry (kmemory w) d va = kernel_entry dat va"
proof -
  have x: "uspace w rs d" "kpool w rs" "kowned w = kowned s" "pages (kmemory w) d \<union> set rs = set ps" "only_in (pages (kmemory w) d) (kmemory u) (kmemory w)"
    using c u unfolding copied_def ps by (auto simp: uspace_def space_def)
  have rs: "set rs \<subseteq> set ps" "pages (kmemory w) d \<subseteq> set ps"
    using x(4) by blast+
  have ow: "only_in (set ps) (kmemory s) (kmemory w)"
    by (rule only_in_mono [OF only_in_trans [OF o(1) x(5)]]) (use rs(2) in blast)
  note W = space_kept [OF s ow x(2,3) rs(1)]
  have low: "PTE_FLAGS (entry (kmemory w) d va) = PTE_FLAGS (entry (kmemory s) e va) \<and> umem d (kmemory w) va = umem e (kmemory s) va"
    if v: "pg va < npages sz" for va
  proof -
    have "mapped_user (kmemory s) e va" "present (entry (kmemory u) e va)"
      using pr v npages_user [OF z] by (simp_all add: user_pg K(1))
    then show ?thesis
      using copied_umem [OF c _ v] K by simp
  qed
  have high: "entry (kmemory w) d va = kernel_entry dat va" if "npages sz \<le> pg va" for va
    using c that unfolding copied_def d by (metis not_less)
  have "copy_need (npages sz) \<le> card (pages (kmemory w) d)"
  proof (rule copy_size [OF x(1) _ _ npages_user [OF z]])
    show "\<forall>va. pg va < npages sz \<longrightarrow> present (entry (kmemory w) d va)"
      using low pr present_flags by metis
    show "\<forall>va \<ge> KERNBASE. entry (kmemory w) d va = kernel_entry dat va"
      using high npages_user [OF z] by (auto simp: user_pg not_less [symmetric])
  qed
  also have "\<dots> \<le> length ps"
    using card_mono [OF _ rs(2)] card_length [of ps] by simp
  finally show "\<not> length ps < copy_need (npages sz)"
    by simp
  show "pages (kmemory w) d \<inter> pages (kmemory w) e = {}"
    unfolding W(3) using rs(2) dis by blast
  show "uspace w rs e" "uspace w rs d" "entry (kmemory w) e = entry (kmemory s) e"
      "\<forall>va. mapped_user (kmemory s) e va \<longrightarrow> umem e (kmemory w) va = umem e (kmemory s) va" "pages (kmemory w) d \<union> set rs = set ps"
      "\<forall>va. pg va < npages sz \<longrightarrow> PTE_FLAGS (entry (kmemory w) d va) = PTE_FLAGS (entry (kmemory s) e va) \<and> umem d (kmemory w) va = umem e (kmemory s) va"
      "\<forall>va. npages sz \<le> pg va \<longrightarrow> entry (kmemory w) d va = kernel_entry dat va"
    using W x(1,4) low high by simp_all
qed

text \<open>
  C29: \<^verbatim>\<open>copyuvm\<close>, the heart of \<^verbatim>\<open>fork\<close>.  For an address space whose pages up to the size are mapped it never panics,
  and it never touches the address space it copies: translations and contents stay.  If it
  gives a directory, that is a well-formed address space of its own, made of free pages and sharing no
  page with the original; every user address below the size has the same access rights and the same
  byte behind it as in the original, addresses above the size are not mapped, and the kernel half is
  that of \<^verbatim>\<open>setupkvm\<close>.  It does so whenever there are enough free pages: 65 for the kernel half, one for each user page and
  one table for every 1024 of them.  If there are fewer it gives 0, and exactly the pages that were free are free again.
\<close>

theorem copyuvm_copies:
  assumes s: "uspace s ps e" "kdata_ok (kdata s)" and z: "sz \<le> KERNBASE"
    and pr: "\<forall>va. pg va < npages sz \<longrightarrow> present (entry (kmemory s) e va)"
  shows "\<exists>r t qs. copyuvm e sz s = Inr (r, t) \<and> uspace t qs e \<and> entry (kmemory t) e = entry (kmemory s) e \<and>
    (\<forall>va. mapped_user (kmemory s) e va \<longrightarrow> umem e (kmemory t) va = umem e (kmemory s) va) \<and>
    (if length ps < copy_need (npages sz) then r = 0 \<and> set qs = set ps
     else r \<noteq> 0 \<and> uspace t qs r \<and> pages (kmemory t) r \<union> set qs = set ps \<and> pages (kmemory t) r \<inter> pages (kmemory t) e = {} \<and>
     (\<forall>va. pg va < npages sz \<longrightarrow> PTE_FLAGS (entry (kmemory t) r va) = PTE_FLAGS (entry (kmemory s) e va) \<and>
        umem r (kmemory t) va = umem e (kmemory s) va) \<and>
     (\<forall>va. npages sz \<le> pg va \<longrightarrow> entry (kmemory t) r va = kernel_entry (kdata s) va))"
proof -
  have k: "kpool s ps" "\<not> kowned s KERNBASE"
    using s(1) by (simp_all add: uspace_def space_def)
  obtain d u qs where u: "setupkvm s = Inr (d, u)" "kowned u = kowned s"
    "(\<exists>us. d \<noteq> 0 \<and> ps = us @ qs \<and> uspace u qs d \<and> pages (kmemory u) d = set us \<and> only_in (set us) (kmemory s) (kmemory u) \<and>
        entry (kmemory u) d = kernel_entry (kdata s) \<and> (\<forall>i. has_tab (kmemory u) d i \<longrightarrow> i \<in> ktabs)) \<or>
     d = 0 \<and> length ps < 65 \<and> kpool u qs \<and> set qs = set ps \<and> only_in (set ps) (kmemory s) (kmemory u)"
    by (rule setupkvm_ok [OF k s(2)])
  from u(3) show ?thesis
  proof
    assume f: "d = 0 \<and> length ps < 65 \<and> kpool u qs \<and> set qs = set ps \<and> only_in (set ps) (kmemory s) (kmemory u)"
    then have o: "only_in (set ps) (kmemory s) (kmemory u)" "kpool u qs" "set qs \<subseteq> set ps" "set qs = set ps"
      by simp_all
    have "copyuvm e sz s = Inr (0, u)" "length ps < copy_need (npages sz)"
      using u(1) f by (simp_all add: copyuvm_def copy_need_def)
    then show ?thesis
      using space_kept [OF s(1) o(1,2) u(2) o(3)] o(4) by auto
  next
    assume "\<exists>us. d \<noteq> 0 \<and> ps = us @ qs \<and> uspace u qs d \<and> pages (kmemory u) d = set us \<and> only_in (set us) (kmemory s) (kmemory u) \<and>
        entry (kmemory u) d = kernel_entry (kdata s) \<and> (\<forall>i. has_tab (kmemory u) d i \<longrightarrow> i \<in> ktabs)"
    then obtain us where g: "d \<noteq> 0" "ps = us @ qs" "uspace u qs d" "pages (kmemory u) d = set us" "only_in (set us) (kmemory s) (kmemory u)"
        "entry (kmemory u) d = kernel_entry (kdata s)" and kt: "\<forall>i. has_tab (kmemory u) d i \<longrightarrow> i \<in> ktabs"
      by blast
    have ln: "card (set ps) = length ps"
      using ka.pool_wf [OF k(1)] by (simp add: distinct_card)
    have o: "only_in (set ps) (kmemory s) (kmemory u)" "kpool u qs" "set qs \<subseteq> set ps" "set ps = set us \<union> set qs"
      using only_in_mono [OF g(5), of "set ps"] g(2,3) by (auto simp: uspace_def space_def)
    note K = space_kept [OF s(1) o(1,2) u(2) o(3)]
    have dis: "pages (kmemory s) e \<inter> set ps = {}"
      using uspace_pages(3) [OF s(1)] by blast
    have ap: "apart u qs e d"
      unfolding apart_def g(4) K(3) using K(1) dis o(4) by blast
    have c0: "copied u qs e d 0 u qs"
      using g(3) by (simp add: copied_def)
    have pr': "\<forall>va. pg va < npages sz \<longrightarrow> present (entry (kmemory u) e va)"
        and ab: "\<forall>vb < KERNBASE. \<not> present (entry (kmemory u) d vb)"
      unfolding K(2) g(6) using pr kernel_entry_user by auto
    obtain r w rs where w: "copyuvm_loop d e (unat sz) (4096 * 0) u = Inr (r, w)"
        "r = d \<and> copied u qs e d (npages sz) w rs \<or> r = 0 \<and> gave_up u qs d w rs \<and> card (set qs \<union> pages (kmemory u) d) < copy_need (npages sz)"
      using copy_loop_ok [OF ap z pr' ab kt c0] by blast
    have cw: "copyuvm e sz s = Inr (r, w)"
      using u(1) g(1) w(1) by (simp add: copyuvm_def)
    from w(2) show ?thesis
    proof
      assume f: "r = 0 \<and> gave_up u qs d w rs \<and> card (set qs \<union> pages (kmemory u) d) < copy_need (npages sz)"
      then have x: "kpool w rs" "kowned w = kowned s" "set rs = set ps" "set rs \<subseteq> set ps" "only_in (set ps) (kmemory u) (kmemory w)"
        using u(2) unfolding gave_up_def g(4) by (auto simp: o(4) Un_commute)
      have "only_in (set ps) (kmemory s) (kmemory w)"
        using only_in_trans [OF o(1) x(5)] by simp
      moreover have "length ps < copy_need (npages sz)"
        using f ln unfolding g(4) o(4) by (simp add: Un_commute)
      ultimately show ?thesis
        using space_kept [OF s(1) _ x(1,2,4)] cw f x(3) by auto
    next
      assume "r = d \<and> copied u qs e d (npages sz) w rs"
      then have r: "r = d" and c: "copied u qs e d (npages sz) w rs"
        by simp_all
      show ?thesis
        using copy_finished [OF s(1) z pr K(2,4) o(1,3) u(2) dis o(4) [folded g(4)] g(6) c] cw r g(1) by auto
    qed
  qed
qed


text \<open>A sample address space with one user page, mapped at address 0.\<close>

definition one_page :: vmst where
  "one_page = (let m = kmemory (vm_boot (row 70));
       m1 = st32 (memset m 0x80401000 0 PGSIZE) (slot 0x80400000 0) (V2P 0x80401000 OR PTE_P OR PTE_W OR PTE_U);
       m2 = st32 m1 (slot 0x80401000 0) (V2P 0x80402000 OR (PTE_W OR PTE_U) OR PTE_P)
     in (vm_boot (row 70))\<lparr>kmemory := m2\<rparr>)"

lemma one_page_ok:
  "uspace one_page (row 70) 0x80400000" "kdata one_page = 0x80108000"
  "pg va = 0 \<Longrightarrow> present (entry (kmemory one_page) 0x80400000 va)"
proof -
  let ?d = "0x80400000 :: addr" let ?t = "0x80401000 :: addr" let ?p = "0x80402000 :: addr" let ?s = "vm_boot (row 70)"
  let ?v = "V2P ?p OR (PTE_W OR PTE_U) OR PTE_P"
  note R = row_ok [of 70, simplified]
  have n: "?d \<notin> set (row 70)" "?t \<notin> set (row 70)" "?p \<notin> set (row 70)"
    using R(3) by (auto dest!: bspec)
  note B = vm_boot_pool [OF R(1,2)] and S = vm_boot_space [OF R(1,2) _ _ _ n(1), simplified]
  have o: "kowned ?s ?t" "kowned ?s ?p" "\<not> kowned ?s KERNBASE"
    by (simp_all add: B(2) KERNBASE_def)
  have h: "\<not> has_tab (kmemory ?s) ?d 0"
    using S(3) by (auto simp: tables_def)
  define m1 where "m1 = st32 (memset (kmemory ?s) ?t 0 PGSIZE) (slot ?d 0) (V2P ?t OR PTE_P OR PTE_W OR PTE_U)"
  have N: "space (?s\<lparr>kmemory := m1\<rparr>) (row 70) ?d" "entry m1 ?d = entry (kmemory ?s) ?d" "has_tab m1 ?d 0" "tab m1 ?d 0 = ?t"
      "tables m1 ?d = {?t}"
    using space_new_table [OF S(1) o(1) _ _ _ h, folded m1_def] n(2) by (simp_all add: S(3))
  have x: "pdx 0 = 0" "ptx 0 = 0"
    by (simp_all add: pdx_nat ptx_nat)
  define m2 where "m2 = st32 m1 (slot ?t 0) ?v"
  have T: "space (?s\<lparr>kmemory := m2\<rparr>) (row 70) ?d" "\<And>va. entry m2 ?d va = (if same_page 0 va then ?v else 0)" "tables m2 ?d = {?t}"
    using space_set_entry [OF N(1), of 0 ?v] N(2-5) x by (simp_all add: m2_def S(2))
  have e: "one_page = ?s\<lparr>kmemory := m2\<rparr>"
    by (simp add: one_page_def Let_def m1_def m2_def)
  have mu: "mapped_user m2 ?d va \<longleftrightarrow> pg va = 0" "pg va = 0 \<Longrightarrow> upage m2 ?d va = ?p" for va
    using user_entry [OF o(2)] by (auto simp: T(2) same_page_def upage_def user_pg)
  have up: "upages m2 ?d = {?p}"
  proof -
    have "upages m2 ?d = (\<lambda>_. ?p) ` {va :: addr. pg va = 0}"
      unfolding upages_def mu(1) by (rule image_cong) (use mu(2) in blast)+
    also have "\<dots> = {?p}"
      by (rule image_constant [of 0]) simp
    finally show ?thesis .
  qed
  show "uspace one_page (row 70) ?d"
    unfolding e uspace_def using T(1) o mu up T(3) n by (simp add: same_page_def)
  show "kdata one_page = 0x80108000"
    by (simp add: e vm_boot_def)
  show "present (entry (kmemory one_page) ?d va)" if "pg va = 0"
    using that mu(1) [of va] by (simp add: e)
qed

theorem copyuvm_copies_witness:
  "\<exists>r t. copyuvm 0x80400000 100 one_page = Inr (r, t) \<and> r \<noteq> 0 \<and> umem 0x80400000 (kmemory t) 5 = umem 0x80400000 (kmemory one_page) 5 \<and>
     umem r (kmemory t) 5 = umem 0x80400000 (kmemory one_page) 5"
proof -
  note O = one_page_ok
  have n: "npages 100 = 1" "(100 :: uint) \<le> KERNBASE" "kdata_ok (kdata one_page)" "pg (5 :: addr) = 0"
    by (simp_all add: O(2) npages_def KERNBASE_def kdata_ok_def aligned_def V2P_def layout_defs word_less_nat_alt)
  have p: "\<forall>va. pg va < npages 100 \<longrightarrow> present (entry (kmemory one_page) 0x80400000 va)"
    using O(3) by (simp add: n(1))
  have l: "\<not> length (row 70) < copy_need (npages 100)"
    using row_ok(4) [of 70] by (simp add: n(1) copy_need_def)
  obtain r t qs where "copyuvm 0x80400000 100 one_page = Inr (r, t)"
    "\<forall>va. mapped_user (kmemory one_page) 0x80400000 va \<longrightarrow> umem 0x80400000 (kmemory t) va = umem 0x80400000 (kmemory one_page) va"
    "r \<noteq> 0" "\<forall>va. pg va < npages 100 \<longrightarrow> PTE_FLAGS (entry (kmemory t) r va) = PTE_FLAGS (entry (kmemory one_page) 0x80400000 va) \<and>
        umem r (kmemory t) va = umem 0x80400000 (kmemory one_page) va"
    using copyuvm_copies [OF O(1) n(3,2) p] unfolding if_not_P [OF l] by blast
  moreover have "mapped_user (kmemory one_page) 0x80400000 5"
    using O(3) [OF n(4)] n(4) by (simp add: user_pg)
  ultimately show ?thesis
    using n(1,4) by (metis less_one)
qed

end
