(* ===== verification/Proc_table.thy ===== *)
theory Proc_table
  imports Proc_c
begin

text \<open>
  The process table of \<^verbatim>\<open>proc.c\<close> under concurrency.  The first part says what each operation does to the table; the second
  is a step relation whose steps are the critical sections of \<^verbatim>\<open>ptable.lock\<close> on any CPU, with an invariant that ties the
  table to the CPUs and another that ties children to parents.
\<close>

section \<open>What the operations do to the process table\<close>

lemma upd_proc_sel [simp]:
  "procs (upd_proc p f s) = (procs s)[p := f (procs s ! p)]" "cpup (upd_proc p f s) = cpup s" "initproc (upd_proc p f s) = initproc s"
  "km (upd_proc p f s) = km s" "nextpid (upd_proc p f s) = nextpid s"
  by (simp_all add: upd_proc_def)

lemma filedup_sel:
  "filedup f s = Inr (g, t) \<Longrightarrow> procs t = procs s \<and> cpup t = cpup s \<and> initproc t = initproc s"
  for s :: "'a procst_scheme"
  by (auto simp: filedup_def upd_file_def split: if_splits)

lemma idup_sel:
  "idup ip s = (i, t) \<Longrightarrow> procs t = procs s \<and> cpup t = cpup s \<and> initproc t = initproc s"
  for s :: "'a procst_scheme"
  by (auto simp: idup_def upd_inode_def Let_def)

text \<open>Only one slot of the table changes, and no CPU.\<close>

definition only_slot :: "nat \<Rightarrow> 'a procst_scheme \<Rightarrow> 'a procst_scheme \<Rightarrow> bool" where
  "only_slot q s t \<longleftrightarrow> procs t = (procs s)[q := procs t ! q] \<and> cpup t = cpup s \<and> initproc t = initproc s"

lemma only_slot_upd: "only_slot q s t \<Longrightarrow> only_slot q s (upd_proc q f t)"
  unfolding only_slot_def by (metis list_update_overwrite list_update_beyond not_le nth_list_update_eq upd_proc_sel(1,2,3))

lemma only_slot_km [simp]: "only_slot q s (t\<lparr>km := m\<rparr>) = only_slot q s t"
  by (simp add: only_slot_def)

lemma only_slot_cong: "procs u = procs t \<Longrightarrow> cpup u = cpup t \<Longrightarrow> initproc u = initproc t \<Longrightarrow> only_slot q s u = only_slot q s t"
  by (simp add: only_slot_def)

lemma only_slot_length: "only_slot q s t \<Longrightarrow> length (procs t) = length (procs s)"
  unfolding only_slot_def by (metis length_list_update)

lemma only_slot_trans: "only_slot q s t \<Longrightarrow> only_slot q t u \<Longrightarrow> only_slot q s u"
  unfolding only_slot_def by (metis list_update_overwrite)

lemma fork_files:
  assumes "np < length (procs s)" "foldE (fork_file p np) [0..<n] s = Inr t"
  shows "only_slot np s t \<and> pstate (procs t ! np) = pstate (procs s ! np) \<and> parent (procs t ! np) = parent (procs s ! np) \<and>
    killed (procs t ! np) = killed (procs s ! np)"
  using assms(2)
proof (induction n arbitrary: t)
  case 0
  then show ?case
    by (simp add: only_slot_def)
next
  case (Suc n)
  obtain u where u: "foldE (fork_file p np) [0..<n] s = Inr u" "fork_file p np n u = Inr t"
    using Suc.prems by (auto simp: bindE_eq_Inr)
  note o = Suc.IH [OF u(1)]
  show ?case
  proof (cases "ofile (procs u ! p) ! n")
    case None
    then show ?thesis
      using u(2) o by (simp add: fork_file_def)
  next
    case (Some f)
    then obtain g v where v: "filedup f u = Inr (g, v)" "t = upd_proc np (ofile_update (\<lambda>fs. fs[n := Some g])) v"
      using u(2) by (auto simp: fork_file_def bindE_eq_Inr)
    have "only_slot np s v" "np < length (procs v)" "procs v = procs u"
      using filedup_sel [OF v(1)] o assms(1) unfolding only_slot_def by (metis length_list_update)+
    then show ?thesis
      using o only_slot_upd by (simp add: v(2))
  qed
qed

text \<open>\<^verbatim>\<open>allocproc\<close> and \<^verbatim>\<open>fork\<close> touch one slot, which is unused.\<close>

lemma find_upt: "find P [0..<n] = Some i \<Longrightarrow> i < n \<and> P i"
  by (auto simp: find_Some_iff)

lemma allocproc_slot:
  assumes "allocproc s = Inr (r, t)" "length (procs s) = NPROC"
  shows "r = None \<and> cpup t = cpup s \<and> initproc t = initproc s \<and> procs t = procs s \<or>
    (\<exists>p. find (\<lambda>p. pstate (procs s ! p) = UNUSED) [0..<NPROC] = Some p \<and> only_slot p s t \<and>
       parent (procs t ! p) = parent (procs s ! p) \<and> killed (procs t ! p) = killed (procs s ! p) \<and>
       (r = Some p \<and> pstate (procs t ! p) = EMBRYO \<or> r = None \<and> pstate (procs t ! p) = UNUSED))"
proof (cases "find (\<lambda>p. pstate (procs s ! p) = UNUSED) [0..<NPROC]")
  case None
  then show ?thesis
    using assms(1) by (simp add: allocproc_def)
next
  case (Some p)
  then have p: "p < NPROC"
    using find_upt [OF Some] by auto
  show ?thesis
    using assms Some p by (auto simp: allocproc_def only_slot_def Let_def bindE_eq_Inr split: if_splits)
qed

lemma fork_slot:
  assumes "fork p s = Inr (n, t)" "length (procs s) = NPROC"
  shows "n = - 1 \<and> cpup t = cpup s \<and> initproc t = initproc s \<and> procs t = procs s \<or>
    (\<exists>q. find (\<lambda>p. pstate (procs s ! p) = UNUSED) [0..<NPROC] = Some q \<and> only_slot q s t \<and> killed (procs t ! q) = killed (procs s ! q) \<and>
       (pstate (procs t ! q) = RUNNABLE \<and> parent (procs t ! q) = Some p \<or>
        n = - 1 \<and> pstate (procs t ! q) = UNUSED \<and> parent (procs t ! q) = parent (procs s ! q)))"
proof -
  obtain r u where u: "allocproc s = Inr (r, u)"
    using assms(1) by (auto simp: fork_def bindE_eq_Inr)
  note a = allocproc_slot [OF u assms(2)]
  show ?thesis
  proof (cases r)
    case None
    then show ?thesis
      using a assms(1) u by (auto simp: fork_def)
  next
    case (Some q)
    then have q: "find (\<lambda>p. pstate (procs s ! p) = UNUSED) [0..<NPROC] = Some q" "only_slot q s u"
        "killed (procs u ! q) = killed (procs s ! q)" "parent (procs u ! q) = parent (procs s ! q)"
      using a by auto
    then have l: "q < length (procs u)"
      using find_upt [OF q(1)] assms(2) unfolding only_slot_def by (metis length_list_update)
    obtain d m where d: "copyuvm (pgdir (procs u ! p)) (psz (procs u ! p)) (km u) = Inr (d, m)"
      using assms(1) u Some by (auto simp: fork_def bindE_eq_Inr)
    let ?v = "upd_proc q (pgdir_update (\<lambda>_. d)) (u\<lparr>km := m\<rparr>)"
    have v: "only_slot q s ?v" "q < length (procs ?v)"
      using q(2) l by (simp_all add: only_slot_upd)
    show ?thesis
    proof (cases "d = 0")
      case True
      then obtain m' where "n = - 1" "t = upd_proc q (\<lambda>x. x\<lparr>kstack := 0, pstate := UNUSED\<rparr>) (?v\<lparr>km := m'\<rparr>)"
        using assms(1) u Some d by (auto simp: fork_def bindE_eq_Inr Let_def)
      then show ?thesis
        using q l by (auto simp: only_slot_upd)
    next
      case False
      let ?c = "procs ?v ! p"
      let ?v' = "upd_proc q (\<lambda>x. x\<lparr>psz := psz ?c, parent := Some p, tf := (tf ?c)\<lparr>tf_eax := 0\<rparr>\<rparr>) ?v"
      obtain w where w1: "foldE (fork_file p q) [0..<NOFILE] ?v' = Inr w"
        using False assms(1) u Some d by (auto simp: fork_def bindE_eq_Inr Let_def)
      obtain i x where w: "foldE (fork_file p q) [0..<NOFILE] ?v' = Inr w" "idup (cwd ?c) w = (i, x)"
        using w1 by (cases "idup (cwd ?c) w") blast
      then have t: "t = upd_proc q (pstate_update (\<lambda>_. RUNNABLE)) (upd_proc q (\<lambda>x. x\<lparr>cwd := i, pname := pname ?c\<rparr>) x)"
        using False assms(1) u Some d by (simp add: fork_def Let_def)
      have o: "only_slot q ?v' w" and "parent (procs w ! q) = Some p" "killed (procs w ! q) = killed (procs u ! q)"
        using fork_files [OF _ w(1)] v(2) by simp_all
      moreover have "only_slot q s w"
        by (rule only_slot_trans [OF only_slot_upd [OF v(1)] o])
      moreover have "length (procs w) = length (procs ?v')"
        by (rule only_slot_length [OF o])
      ultimately have "only_slot q s x" "parent (procs x ! q) = Some p" "killed (procs x ! q) = killed (procs u ! q)" "q < length (procs x)"
        using idup_sel [OF w(2)] v(2) only_slot_cong [of x w q s] by simp_all
      then show ?thesis
        using q unfolding t by (auto intro!: only_slot_upd)
    qed
  qed
qed


section \<open>The process table under any interleaving\<close>

text \<open>CPU \<^verbatim>\<open>c\<close> executes.\<close>

definition on_cpu :: "nat \<Rightarrow> 'a procst_scheme \<Rightarrow> 'a procst_scheme" where
  "on_cpu c s = s\<lparr>km := (km s)\<lparr>kme := c\<rparr>\<rparr>"

text \<open>
  One critical section of \<^verbatim>\<open>ptable.lock\<close>, on any CPU: the scheduler picks a runnable process; the running process gives
  up the CPU in \<^verbatim>\<open>yield\<close>, \<^verbatim>\<open>sleep\<close>, \<^verbatim>\<open>wait\<close> or \<^verbatim>\<open>exit\<close>, which leads into the other half of the scheduler's turn with the lock
  still held; it comes back from \<^verbatim>\<open>sleep\<close>, reaps a child, forks; somebody wakes a channel or kills.  \<^verbatim>\<open>fork\<close> is one
  step: between its two sections the new slot is \<^verbatim>\<open>EMBRYO\<close> and nobody else's.
\<close>

inductive proc_step :: "'a procst_scheme \<Rightarrow> 'a procst_scheme \<Rightarrow> bool" where
  run: "cpup s c = None \<Longrightarrow> p < NPROC \<Longrightarrow> pstate (procs s ! p) = RUNNABLE \<Longrightarrow> sched_run p (on_cpu c s) = Inr t \<Longrightarrow> proc_step s t"
| preempt: "cpup s c = Some p \<Longrightarrow> proc_step s (sched_back (yield p (on_cpu c s)))"
| sleeps: "cpup s c = Some p \<Longrightarrow> proc_step s (sched_back (sleep_on p (ChAddr a) (on_cpu c s)))"
| woken: "cpup s c = Some p \<Longrightarrow> proc_step s (sleep_done p (on_cpu c s))"
| wait_sleeps: "cpup s c = Some p \<Longrightarrow> wait p (on_cpu c s) = Inr (WSleep, t) \<Longrightarrow> proc_step s (sched_back t)"
| wait_returns: "cpup s c = Some p \<Longrightarrow> wait p (on_cpu c s) = Inr (WRet n, t) \<Longrightarrow> proc_step s t"
| exits: "cpup s c = Some p \<Longrightarrow> p \<noteq> initproc s \<Longrightarrow> proc_step s (sched_back (exit_table p (on_cpu c s)))"
| forks: "cpup s c = Some p \<Longrightarrow> fork p (on_cpu c s) = Inr (n, t) \<Longrightarrow> proc_step s t"
| wakes: "proc_step s (wakeup ch s)"
| kills: "kill n s = (r, t) \<Longrightarrow> proc_step s t"

text \<open>The table and the CPUs agree: a process is \<^verbatim>\<open>RUNNING\<close> exactly when it is the process of one CPU.\<close>

definition cpu_inv :: "'a procst_scheme \<Rightarrow> bool" where
  "cpu_inv s \<longleftrightarrow> length (procs s) = NPROC \<and>
     (\<forall>c p. cpup s c = Some p \<longrightarrow> p < NPROC \<and> pstate (procs s ! p) = RUNNING) \<and>
     (\<forall>p<NPROC. pstate (procs s ! p) = RUNNING \<longrightarrow> (\<exists>c. cpup s c = Some p)) \<and>
     (\<forall>c c' p. cpup s c = Some p \<longrightarrow> cpup s c' = Some p \<longrightarrow> c = c')"

text \<open>A process that sleeps in \<^verbatim>\<open>wait\<close>.\<close>

definition waits :: "nat \<Rightarrow> proc \<Rightarrow> bool" where
  "waits w x \<longleftrightarrow> pstate x = SLEEPING \<and> chan x = Some (ChProc w)"

definition live :: "proc \<Rightarrow> bool" where
  "live x \<longleftrightarrow> pstate x \<in> {SLEEPING, RUNNABLE, RUNNING}"

text \<open>
  Parents and children: the first process lives; the parent of a process lives and is another process; it does not
  sleep in \<^verbatim>\<open>wait\<close> when the child is a zombie; and whoever sleeps in \<^verbatim>\<open>wait\<close> has a child.
\<close>

definition parent_ok :: "proc list \<Rightarrow> nat \<Rightarrow> bool" where
  "parent_ok ps q \<longleftrightarrow> (pstate (ps ! q) = UNUSED \<longrightarrow> parent (ps ! q) = None) \<and>
     (\<forall>w. parent (ps ! q) = Some w \<longrightarrow> w < NPROC \<and> w \<noteq> q \<and> live (ps ! w) \<and> (pstate (ps ! q) = ZOMBIE \<longrightarrow> \<not> waits w (ps ! w)))"

definition family_inv :: "nat \<Rightarrow> proc list \<Rightarrow> bool" where
  "family_inv i ps \<longleftrightarrow> length ps = NPROC \<and> i < NPROC \<and> live (ps ! i) \<and> parent (ps ! i) = None \<and>
     (\<forall>q<NPROC. parent_ok ps q) \<and> (\<forall>w<NPROC. waits w (ps ! w) \<longrightarrow> (\<exists>q<NPROC. parent (ps ! q) = Some w))"

subsection \<open>The CPUs\<close>

lemma cpu_invD:
  assumes "cpu_inv s"
  shows "cpup s c = Some p \<Longrightarrow> p < NPROC" "cpup s c = Some p \<Longrightarrow> pstate (procs s ! p) = RUNNING"
    "p < NPROC \<Longrightarrow> pstate (procs s ! p) = RUNNING \<Longrightarrow> \<exists>c. cpup s c = Some p"
    "cpup s c = Some p \<Longrightarrow> cpup s c' = Some p \<Longrightarrow> c = c'" "length (procs s) = NPROC"
  using assms unfolding cpu_inv_def by blast+

text \<open>A step that keeps who is running.\<close>

lemma cpu_inv_same:
  assumes "cpu_inv s" "cpup t = cpup s" "length (procs t) = length (procs s)"
    "\<forall>q<NPROC. pstate (procs t ! q) = RUNNING \<longleftrightarrow> pstate (procs s ! q) = RUNNING"
  shows "cpu_inv t"
  using assms unfolding cpu_inv_def by metis

text \<open>A step in which \<^verbatim>\<open>c\<close> stops running \<^verbatim>\<open>p\<close>.\<close>

lemma cpu_inv_stop:
  assumes "cpu_inv s" "cpup s c = Some p" "cpup t = (cpup s)(c := None)" "length (procs t) = length (procs s)"
    "\<forall>q<NPROC. pstate (procs t ! q) = RUNNING \<longleftrightarrow> pstate (procs s ! q) = RUNNING \<and> q \<noteq> p"
  shows "cpu_inv t"
  unfolding cpu_inv_def
proof (intro conjI allI impI)
  show "length (procs t) = NPROC"
    using assms(1,4) by (simp add: cpu_inv_def)
  fix c' q assume "cpup t c' = Some q"
  then have q: "cpup s c' = Some q" "c' \<noteq> c"
    using assms(3) by (auto split: if_splits)
  then show "q < NPROC"
    using cpu_invD(1) [OF assms(1)] by blast
  have "q \<noteq> p"
    using q assms(2) cpu_invD(4) [OF assms(1)] by blast
  then show "pstate (procs t ! q) = RUNNING"
    using q(1) cpu_invD(1,2) [OF assms(1)] assms(5) by blast
next
  fix q assume "q < NPROC" "pstate (procs t ! q) = RUNNING"
  then show "\<exists>c. cpup t c = Some q"
    using assms(2,3,5) cpu_invD(3) [OF assms(1)] by (metis fun_upd_other option.inject)
next
  fix c' c'' q assume "cpup t c' = Some q" "cpup t c'' = Some q"
  then show "c' = c''"
    using assms(3) cpu_invD(4) [OF assms(1)] by (auto split: if_splits)
qed

lemma cpu_inv_run:
  assumes "cpu_inv s" "cpup s c = None" "p < NPROC" "pstate (procs s ! p) \<noteq> RUNNING" "cpup t = (cpup s)(c \<mapsto> p)"
    "procs t = (procs s)[p := (procs s ! p)\<lparr>pstate := RUNNING\<rparr>]"
  shows "cpu_inv t"
  unfolding cpu_inv_def
proof (intro conjI allI impI)
  have l: "length (procs s) = NPROC"
    by (rule cpu_invD(5) [OF assms(1)])
  then show "length (procs t) = NPROC"
    by (simp add: assms(6))
  fix c' q assume "cpup t c' = Some q"
  then have q: "cpup s c' = Some q \<or> q = p"
    using assms(5) by (auto split: if_splits)
  then show "q < NPROC"
    using assms(3) cpu_invD(1) [OF assms(1)] by blast
  show "pstate (procs t ! q) = RUNNING"
    using q cpu_invD(2) [OF assms(1)] assms(3,6) l by (auto simp: nth_list_update)
next
  fix q assume q: "q < NPROC" "pstate (procs t ! q) = RUNNING"
  have "\<exists>c'. cpup s c' = Some q" if "q \<noteq> p"
    using that q assms(6) cpu_invD(3) [OF assms(1)] by simp
  then show "\<exists>c. cpup t c = Some q"
    using assms(2,5) by (metis fun_upd_apply option.discI)
next
  fix c' c'' q assume "cpup t c' = Some q" "cpup t c'' = Some q"
  moreover have "cpup s c' \<noteq> Some p" for c'
    using assms(4) cpu_invD(2) [OF assms(1)] by blast
  ultimately show "c' = c''"
    using assms(5) cpu_invD(4) [OF assms(1)] by (auto split: if_splits)
qed

lemma on_cpu_sel [simp]:
  "procs (on_cpu c s) = procs s" "cpup (on_cpu c s) = cpup s" "initproc (on_cpu c s) = initproc s" "kme (km (on_cpu c s)) = c"
  by (simp_all add: on_cpu_def)

lemma only_slot_on_cpu [simp]: "only_slot q (on_cpu c s) t = only_slot q s t"
  by (simp add: only_slot_def)

lemma sched_run_sel:
  "sched_run p s = Inr t \<Longrightarrow> procs t = (procs s)[p := (procs s ! p)\<lparr>pstate := RUNNING\<rparr>] \<and> cpup t = (cpup s)(kme (km s) \<mapsto> p) \<and>
     initproc t = initproc s"
  by (auto simp: sched_run_def Let_def bindE_eq_Inr)

lemma sched_back_sel [simp]:
  "procs (sched_back s) = procs s" "cpup (sched_back s) = (cpup s)(kme (km s) := None)" "initproc (sched_back s) = initproc s"
  by (simp_all add: sched_back_def)


subsection \<open>What \<^verbatim>\<open>wakeup\<close>, \<^verbatim>\<open>kill\<close>, \<^verbatim>\<open>wait\<close> and \<^verbatim>\<open>exit\<close> do\<close>

lemma wake_sel [simp]: "parent (wake c x) = parent x" "chan (wake c x) = chan x"
  by (simp_all add: wake_def)

lemma wake_states:
  "pstate (wake c x) = RUNNING \<longleftrightarrow> pstate x = RUNNING" "pstate (wake c x) = ZOMBIE \<longleftrightarrow> pstate x = ZOMBIE"
  "pstate (wake c x) = UNUSED \<longleftrightarrow> pstate x = UNUSED" "live (wake c x) \<longleftrightarrow> live x"
  "waits w (wake c x) \<longleftrightarrow> waits w x \<and> c \<noteq> ChProc w"
  by (auto simp: wake_def live_def waits_def)

lemma wakeup1_sel [simp]:
  "procs (wakeup1 c s) = map (wake c) (procs s)" "cpup (wakeup1 c s) = cpup s" "initproc (wakeup1 c s) = initproc s" "km (wakeup1 c s) = km s"
  by (simp_all add: wakeup1_def)

lemma kill_slot:
  assumes "kill n s = (r, t)" "length (procs s) = NPROC"
  shows "cpup t = cpup s \<and> initproc t = initproc s \<and> (procs t = procs s \<or>
    (\<exists>q<NPROC. \<exists>y. procs t = (procs s)[q := y] \<and> parent y = parent (procs s ! q) \<and> chan y = chan (procs s ! q) \<and>
       pstate y = (if pstate (procs s ! q) = SLEEPING then RUNNABLE else pstate (procs s ! q))))"
proof (cases "find (\<lambda>p. pid (procs s ! p) = n) [0..<NPROC]")
  case None
  then show ?thesis
    using assms(1) by (simp add: kill_def)
next
  case (Some q)
  then have q: "q < NPROC"
    using find_upt by blast
  let ?y = "(procs s ! q)\<lparr>killed := True, pstate := if pstate (procs s ! q) = SLEEPING then RUNNABLE else pstate (procs s ! q)\<rparr>"
  have "procs t = (procs s)[q := ?y]" "cpup t = cpup s" "initproc t = initproc s"
    using assms Some q by (auto simp: kill_def Let_def split: if_splits)
  then show ?thesis
    using q by (intro conjI disjI2 exI [of _ q] exI [of _ ?y]) simp_all
qed

lemma wait_sleep:
  "wait p s = Inr (WSleep, t) \<Longrightarrow> t = sleep_on p (ChProc p) s \<and> (\<exists>q<NPROC. parent (procs s ! q) = Some p) \<and>
     (\<forall>q<NPROC. parent (procs s ! q) = Some p \<longrightarrow> pstate (procs s ! q) \<noteq> ZOMBIE)"
  by (auto simp: wait_def bindE_eq_Inr find_None_iff split: option.splits if_splits)

lemma wait_return:
  assumes "wait p s = Inr (WRet n, t)"
  shows "cpup t = cpup s \<and> initproc t = initproc s \<and> (procs t = procs s \<or>
    (\<exists>q<NPROC. \<exists>y. parent (procs s ! q) = Some p \<and> pstate (procs s ! q) = ZOMBIE \<and> procs t = (procs s)[q := y] \<and>
       pstate y = UNUSED \<and> parent y = None))"
proof (cases "find (\<lambda>q. parent (procs s ! q) = Some p \<and> pstate (procs s ! q) = ZOMBIE) [0..<NPROC]")
  case None
  then show ?thesis
    using assms by (auto simp: wait_def split: if_splits)
next
  case (Some q)
  then have q: "q < NPROC" "parent (procs s ! q) = Some p" "pstate (procs s ! q) = ZOMBIE"
    using find_upt [OF Some] by auto
  let ?y = "(procs s ! q)\<lparr>kstack := 0, pid := 0, parent := None, pname := [], killed := False, pstate := UNUSED\<rparr>"
  have "procs t = (procs s)[q := ?y]" "cpup t = cpup s" "initproc t = initproc s"
    using assms Some by (auto simp: wait_def reap_def Let_def bindE_eq_Inr)
  then show ?thesis
    using q by (intro conjI disjI2 exI [of _ q] exI [of _ ?y]) simp_all
qed

subsection \<open>Parents and children\<close>

text \<open>A change that keeps parents and who lives, and in which only a process with a child but no zombie child may start to wait.\<close>

definition same_family :: "proc list \<Rightarrow> nat \<Rightarrow> proc \<Rightarrow> bool" where
  "same_family ps r y \<longleftrightarrow> parent y = parent (ps ! r) \<and> (live y \<longleftrightarrow> live (ps ! r)) \<and>
     (pstate y = UNUSED \<longleftrightarrow> pstate (ps ! r) = UNUSED) \<and> (pstate y = ZOMBIE \<longleftrightarrow> pstate (ps ! r) = ZOMBIE) \<and>
     (waits r y \<longrightarrow> waits r (ps ! r) \<or> (\<exists>q<NPROC. parent (ps ! q) = Some r) \<and> (\<forall>q<NPROC. parent (ps ! q) = Some r \<longrightarrow> pstate (ps ! q) \<noteq> ZOMBIE))"

lemma family_same:
  assumes "family_inv i ps" "length qs = NPROC" "\<forall>r<NPROC. same_family ps r (qs ! r)"
  shows "family_inv i qs"
proof -
  note e = assms(3) [unfolded same_family_def, rule_format]
  have "parent_ok qs r" if r: "r < NPROC" for r
  proof -
    have "parent_ok ps r"
      using assms(1) r by (simp add: family_inv_def)
    then show ?thesis
      unfolding parent_ok_def using e [OF r] e r by metis
  qed
  moreover have "\<exists>q<NPROC. parent (qs ! q) = Some w" if w: "w < NPROC" "waits w (qs ! w)" for w
  proof -
    have "\<exists>q<NPROC. parent (ps ! q) = Some w"
      using assms(1) w e [OF w(1)] unfolding family_inv_def by blast
    then show ?thesis
      using e by auto
  qed
  ultimately show ?thesis
    using assms(1,2) e [of i] unfolding family_inv_def by simp
qed

lemma same_family_refl: "same_family ps r (ps ! r)"
  by (simp add: same_family_def)

lemma family_upd:
  assumes "family_inv i ps" "same_family ps q y"
  shows "family_inv i (ps[q := y])"
proof (rule family_same [OF assms(1)])
  show n: "length (ps[q := y]) = NPROC"
    using assms(1) by (simp add: family_inv_def)
  show "\<forall>r<NPROC. same_family ps r (ps[q := y] ! r)"
    using n assms(2) same_family_refl [of ps] by (metis length_list_update nth_list_update_eq nth_list_update_neq)
qed

lemma family_wake: "family_inv i ps \<Longrightarrow> family_inv i (map (wake c) ps)"
  by (rule family_same) (auto simp: family_inv_def same_family_def wake_states)

lemma family_born:
  assumes "family_inv i ps" "q < NPROC" "pstate (ps ! q) = UNUSED" "p < NPROC" "pstate (ps ! p) = RUNNING"
    "parent y = Some p" "pstate y = RUNNABLE"
  shows "family_inv i (ps[q := y])"
proof -
  have n: "length ps = NPROC" "q \<noteq> i"
    using assms(1,3) by (auto simp: family_inv_def live_def)
  have o: "parent (ps ! q) = None" "\<not> live (ps ! q)"
    using assms(1,2,3) by (auto simp: family_inv_def parent_ok_def live_def)
  have y: "live y" "\<not> waits r y" "p \<noteq> q" "live (ps ! p)" "\<not> waits r (ps ! p)" for r
    using assms(3,5,7) by (auto simp: live_def waits_def)
  have k: "\<exists>r<NPROC. parent (ps[q := y] ! r) = Some w" if "\<exists>r<NPROC. parent (ps ! r) = Some w" for w
    using that o(1) by (metis nth_list_update_neq option.discI)
  have "parent_ok (ps[q := y]) r" if "r < NPROC" for r
  proof (cases "r = q")
    case True
    then show ?thesis
      using assms(2,4,6,7) y n by (simp add: parent_ok_def)
  next
    case False
    have "parent_ok ps r"
      using assms(1) that by (simp add: family_inv_def)
    then show ?thesis
      using False o(2) unfolding parent_ok_def by (metis nth_list_update_neq)
  qed
  then show ?thesis
    using assms(1) k n y(2) assms(2) unfolding family_inv_def by (metis length_list_update nth_list_update)
qed

lemma family_reaped:
  assumes "family_inv i ps" "q < NPROC" "pstate (ps ! q) = ZOMBIE" "parent (ps ! q) = Some p" "pstate (ps ! p) = RUNNING"
    "parent y = None" "pstate y = UNUSED"
  shows "family_inv i (ps[q := y])"
proof -
  have n: "length ps = NPROC" "q \<noteq> i"
    using assms(1,3) by (auto simp: family_inv_def live_def)
  have o: "\<not> live (ps ! q)" "\<not> waits r y" "\<not> waits p (ps ! p)" for r
    using assms(3,5,7) by (auto simp: live_def waits_def)
  have k: "\<exists>r<NPROC. parent (ps[q := y] ! r) = Some w" if "\<exists>r<NPROC. parent (ps ! r) = Some w" "w \<noteq> p" for w
    using that assms(4) by (metis nth_list_update_neq option.inject)
  have "parent_ok (ps[q := y]) r" if "r < NPROC" for r
  proof (cases "r = q")
    case True
    then show ?thesis
      using assms(2,6,7) n by (simp add: parent_ok_def)
  next
    case False
    have "parent_ok ps r"
      using assms(1) that by (simp add: family_inv_def)
    then show ?thesis
      using False o(1) unfolding parent_ok_def by (metis nth_list_update_neq)
  qed
  then show ?thesis
    using assms(1) k n o(2,3) assms(2) unfolding family_inv_def by (metis length_list_update nth_list_update)
qed


lemma family_adopted:
  assumes "family_inv i ps" "q < NPROC" "parent (ps ! q) = Some p" "\<not> waits p (ps ! p)" "pstate (ps ! q) = ZOMBIE \<longrightarrow> \<not> waits i (ps ! i)"
  shows "family_inv i (ps[q := (ps ! q)\<lparr>parent := Some i\<rparr>])"
proof -
  let ?qs = "ps[q := (ps ! q)\<lparr>parent := Some i\<rparr>]"
  have i: "length ps = NPROC" "i < NPROC" "live (ps ! i)" "q \<noteq> i"
    using assms(1,3) by (auto simp: family_inv_def)
  have e: "pstate (?qs ! r) = pstate (ps ! r)" "live (?qs ! r) = live (ps ! r)" "waits r (?qs ! r) = waits r (ps ! r)"
      "parent (?qs ! r) = (if r = q then Some i else parent (ps ! r))" for r
    using assms(2) i(1) by (cases "r = q"; simp add: live_def waits_def)+
  have "parent_ok ?qs r" if "r < NPROC" for r
  proof -
    have "parent_ok ps r"
      using assms(1) that by (simp add: family_inv_def)
    then show ?thesis
      using i assms(3,5) by (auto simp: parent_ok_def e)
  qed
  moreover have "\<exists>r<NPROC. parent (?qs ! r) = Some w" if w: "w < NPROC" "waits w (ps ! w)" for w
  proof -
    obtain r where "r < NPROC" "parent (ps ! r) = Some w"
      using assms(1) w unfolding family_inv_def by blast
    then show ?thesis
      using w(2) assms(3,4) e(4) by (metis option.inject)
  qed
  ultimately show ?thesis
    using assms(1) i by (simp add: family_inv_def e)
qed

lemma family_dead:
  assumes "family_inv i ps" "p < NPROC" "p \<noteq> i" "pstate (ps ! p) = RUNNING" "\<forall>r<NPROC. parent (ps ! r) \<noteq> Some p"
    "\<forall>w. parent (ps ! p) = Some w \<longrightarrow> \<not> waits w (ps ! w)"
  shows "family_inv i (ps[p := (ps ! p)\<lparr>pstate := ZOMBIE\<rparr>])"
proof -
  let ?qs = "ps[p := (ps ! p)\<lparr>pstate := ZOMBIE\<rparr>]"
  have n: "length ps = NPROC"
    using assms(1) by (simp add: family_inv_def)
  have e: "parent (?qs ! r) = parent (ps ! r)" "r \<noteq> p \<Longrightarrow> ?qs ! r = ps ! r" "pstate (?qs ! p) = ZOMBIE" "\<not> waits p (?qs ! p)" for r
    using assms(2) n by (cases "r = p"; simp add: waits_def)+
  have "parent_ok ?qs r" if r: "r < NPROC" for r
  proof -
    have "parent_ok ps r"
      using assms(1) r by (simp add: family_inv_def)
    moreover have "parent (ps ! r) \<noteq> Some p"
      using assms(5) r by blast
    ultimately show ?thesis
      using assms(4,6) e unfolding parent_ok_def by (metis procstate.distinct(9))
  qed
  then show ?thesis
    using assms(1,3) e unfolding family_inv_def by (metis length_list_update)
qed

text \<open>The loop of \<^verbatim>\<open>exit\<close> over the children.\<close>

definition exiting :: "nat \<Rightarrow> 'a procst_scheme \<Rightarrow> 'a procst_scheme \<Rightarrow> bool" where
  "exiting p s t \<longleftrightarrow> family_inv (initproc t) (procs t) \<and> p \<noteq> initproc t \<and> p < NPROC \<and>
     (\<forall>w. parent (procs t ! p) = Some w \<longrightarrow> \<not> waits w (procs t ! w)) \<and> cpup t = cpup s \<and> km t = km s \<and> initproc t = initproc s \<and>
     (\<forall>r<NPROC. pstate (procs t ! r) = RUNNING \<longleftrightarrow> pstate (procs s ! r) = RUNNING)"

lemma reparent_ok:
  assumes t: "exiting p s t" "pstate (procs s ! p) = RUNNING" and q: "q < NPROC"
  shows "exiting p s (reparent p q t)"
    "r < NPROC \<Longrightarrow> parent (procs (reparent p q t) ! r) = (if r = q \<and> parent (procs t ! r) = Some p then Some (initproc s) else parent (procs t ! r))"
proof -
  let ?i = "initproc t"
  have f: "family_inv ?i (procs t)" "length (procs t) = NPROC" "pstate (procs t ! p) = RUNNING" "p < NPROC"
    using t by (auto simp: exiting_def family_inv_def)
  have w: "\<not> waits w (procs t ! p)" for w
    using f(3) by (simp add: waits_def)
  have "exiting p s (reparent p q t) \<and> (r < NPROC \<longrightarrow>
    parent (procs (reparent p q t) ! r) = (if r = q \<and> parent (procs t ! r) = Some p then Some (initproc s) else parent (procs t ! r)))"
  proof (cases "parent (procs t ! q) = Some p")
    case False
    then show ?thesis
      using t(1) by (auto simp: reparent_def)
  next
    case True
    define ps where "ps = (if pstate (procs t ! q) = ZOMBIE then map (wake (ChProc ?i)) (procs t) else procs t)"
    have u: "procs (reparent p q t) = ps[q := (ps ! q)\<lparr>parent := Some ?i\<rparr>]" "cpup (reparent p q t) = cpup t"
        "initproc (reparent p q t) = ?i" "km (reparent p q t) = km t"
      using True q f(2) by (auto simp: reparent_def Let_def ps_def map_update wake_def)
    have ps: "family_inv ?i ps" "length ps = NPROC" "parent (ps ! r) = parent (procs t ! r)" "pstate (ps ! r) = RUNNING \<longleftrightarrow> pstate (procs t ! r) = RUNNING"
        "waits w (ps ! r) \<longrightarrow> waits w (procs t ! r)" if "r < NPROC" for r w
      using f(1,2) that by (auto simp: ps_def wake_states intro: family_wake)
    have "pstate (ps ! q) = ZOMBIE \<longrightarrow> \<not> waits ?i (ps ! ?i)"
      using f(1,2) q by (auto simp: ps_def wake_states family_inv_def)
    moreover have "\<not> waits p (ps ! p)"
      using ps(5) [OF f(4)] w by blast
    ultimately have "family_inv ?i (procs (reparent p q t))"
      unfolding u(1) using True q ps(1) [OF q] ps(3) [OF q] by (intro family_adopted) auto
    moreover have "\<not> waits x (procs (reparent p q t) ! x)" if "parent (procs (reparent p q t) ! p) = Some x" for x
    proof -
      have "q \<noteq> p"
        using True f(1) q unfolding family_inv_def parent_ok_def by blast
      then have "parent (procs t ! p) = Some x"
        using that ps(3) [OF f(4)] by (simp add: u(1))
      moreover from this have "x < NPROC"
        using f(1,4) unfolding family_inv_def parent_ok_def by blast
      ultimately have "\<not> waits x (ps ! x)"
        using t(1) ps(5) unfolding exiting_def by blast
      then show ?thesis
        using q ps(2) [OF q] by (cases "x = q") (simp_all add: u(1) waits_def)
    qed
    moreover have "pstate (procs (reparent p q t) ! r) = RUNNING \<longleftrightarrow> pstate (procs t ! r) = RUNNING" if "r < NPROC" for r
      using ps(2,4) [OF that] q by (cases "r = q") (simp_all add: u(1))
    ultimately have "exiting p s (reparent p q t)"
      using t(1) u(2-4) unfolding exiting_def by simp
    moreover have "parent (procs (reparent p q t) ! r) = (if r = q then Some (initproc s) else parent (procs t ! r))" if "r < NPROC"
      using ps(2,3) [OF that] t(1) that by (simp add: u(1) exiting_def)
    ultimately show ?thesis
      using True by auto
  qed
  then show "exiting p s (reparent p q t)"
    "r < NPROC \<Longrightarrow> parent (procs (reparent p q t) ! r) = (if r = q \<and> parent (procs t ! r) = Some p then Some (initproc s) else parent (procs t ! r))"
    by blast+
qed


lemma reparent_all:
  assumes "exiting p s t" "pstate (procs s ! p) = RUNNING" "n \<le> NPROC"
  shows "exiting p s (fold (reparent p) [0..<n] t) \<and>
    (\<forall>r<NPROC. parent (procs (fold (reparent p) [0..<n] t) ! r) =
       (if r < n \<and> parent (procs t ! r) = Some p then Some (initproc s) else parent (procs t ! r)))"
  using assms(3)
proof (induction n)
  case 0
  then show ?case
    using assms(1) by simp
next
  case (Suc n)
  let ?u = "fold (reparent p) [0..<n] t"
  have u: "exiting p s ?u" "n < NPROC" "r < NPROC \<Longrightarrow> parent (procs ?u ! r) =
       (if r < n \<and> parent (procs t ! r) = Some p then Some (initproc s) else parent (procs t ! r))" for r
    using Suc by auto
  have "parent (procs (reparent p n ?u) ! r) = (if r < Suc n \<and> parent (procs t ! r) = Some p then Some (initproc s) else parent (procs t ! r))"
    if "r < NPROC" for r
    using reparent_ok(2) [OF u(1) assms(2) u(2) that] u(3) [OF that] by (auto simp: less_Suc_eq)
  then show ?case
    using reparent_ok(1) [OF u(1) assms(2) u(2)] by simp
qed

lemma exit_table_ok:
  assumes "family_inv (initproc s) (procs s)" "p < NPROC" "pstate (procs s ! p) = RUNNING" "p \<noteq> initproc s"
  defines "t \<equiv> exit_table p s"
  shows "family_inv (initproc t) (procs t)" "cpup t = cpup s" "initproc t = initproc s" "km t = km s" "pstate (procs t ! p) = ZOMBIE"
    "\<forall>r<NPROC. pstate (procs t ! r) = RUNNING \<longleftrightarrow> pstate (procs s ! r) = RUNNING \<and> r \<noteq> p"
    "\<forall>r<NPROC. parent (procs t ! r) = (if parent (procs s ! r) = Some p then Some (initproc s) else parent (procs s ! r))"
proof -
  let ?u = "case parent (procs s ! p) of Some q \<Rightarrow> wakeup1 (ChProc q) s | None \<Rightarrow> s"
  let ?v = "fold (reparent p) [0..<NPROC] ?u"
  have n: "length (procs s) = NPROC" "\<And>q. parent (procs s ! p) = Some q \<Longrightarrow> q < NPROC"
    using assms(1,2) unfolding family_inv_def parent_ok_def by blast+
  have "exiting p s ?u"
    using assms(1-4) n family_wake by (auto simp: exiting_def wake_states split: option.splits)
  moreover have "parent (procs ?u ! r) = parent (procs s ! r)" if "r < NPROC" for r
    using n that by (auto split: option.splits)
  ultimately have v: "exiting p s ?v" "r < NPROC \<Longrightarrow> parent (procs ?v ! r) =
      (if parent (procs s ! r) = Some p then Some (initproc s) else parent (procs s ! r))" for r
    using reparent_all [of p s ?u NPROC] assms(3) by simp_all
  have t: "t = upd_proc p (pstate_update (\<lambda>_. ZOMBIE)) ?v"
    by (simp only: t_def exit_table_def Let_def)
  have w: "family_inv (initproc s) (procs ?v)" "length (procs ?v) = NPROC" "pstate (procs ?v ! p) = RUNNING"
      "\<forall>w. parent (procs ?v ! p) = Some w \<longrightarrow> \<not> waits w (procs ?v ! w)" "initproc ?v = initproc s" "cpup ?v = cpup s" "km ?v = km s"
      "r < NPROC \<Longrightarrow> pstate (procs ?v ! r) = RUNNING \<longleftrightarrow> pstate (procs s ! r) = RUNNING" for r
    using v(1) assms(2,3) unfolding exiting_def by (auto simp: family_inv_def)
  have "\<forall>r<NPROC. parent (procs ?v ! r) \<noteq> Some p"
    using v(2) assms(4) by auto
  then show "family_inv (initproc t) (procs t)"
    unfolding t upd_proc_sel w(5) using assms(2-4) w(1,3,4) by (intro family_dead) auto
  show "cpup t = cpup s" "initproc t = initproc s" "km t = km s" "pstate (procs t ! p) = ZOMBIE"
    using w assms(2) by (simp_all add: t)
  show "\<forall>r<NPROC. pstate (procs t ! r) = RUNNING \<longleftrightarrow> pstate (procs s ! r) = RUNNING \<and> r \<noteq> p"
    "\<forall>r<NPROC. parent (procs t ! r) = (if parent (procs s ! r) = Some p then Some (initproc s) else parent (procs s ! r))"
    using w(2,8) v(2) assms(2) by (auto simp: t nth_list_update)
qed

subsection \<open>Every step keeps both\<close>

definition table_inv :: "'a procst_scheme \<Rightarrow> bool" where
  "table_inv s \<longleftrightarrow> cpu_inv s \<and> family_inv (initproc s) (procs s)"

lemma nth_update_if: "r < length xs \<Longrightarrow> xs[q := y] ! r = (if r = q then y else xs ! r)"
  by simp

lemma table_inv_quiet:
  assumes "table_inv s" "initproc t = initproc s" "procs t = (procs s)[q := y]" "same_family (procs s) q y"
    "cpup t = cpup s \<and> (pstate y = RUNNING \<longleftrightarrow> pstate (procs s ! q) = RUNNING) \<or>
     (\<exists>c. cpup s c = Some q \<and> cpup t = (cpup s)(c := None) \<and> pstate y \<noteq> RUNNING)"
  shows "table_inv t"
proof -
  have f: "family_inv (initproc t) (procs t)" and c: "cpu_inv s" and l: "length (procs t) = length (procs s)" "length (procs s) = NPROC"
    using assms(1-4) family_upd cpu_invD(5) by (auto simp: table_inv_def)
  from assms(5) have "cpu_inv t"
  proof (elim disjE exE conjE)
    assume "cpup t = cpup s" "pstate y = RUNNING \<longleftrightarrow> pstate (procs s ! q) = RUNNING"
    then show ?thesis
      using l assms(3) by (intro cpu_inv_same [OF c]) (auto simp: nth_update_if)
  next
    fix d assume d: "cpup s d = Some q" "cpup t = (cpup s)(d := None)" "pstate y \<noteq> RUNNING"
    show ?thesis
      using l assms(3) d(3) cpu_invD(1) [OF c d(1)] by (intro cpu_inv_stop [OF c d(1,2)]) (auto simp: nth_list_update)
  qed
  then show ?thesis
    using f by (simp add: table_inv_def)
qed

lemma same_family_live:
  "parent y = parent (ps ! r) \<Longrightarrow> live (ps ! r) \<Longrightarrow> live y \<Longrightarrow> \<not> waits r y \<Longrightarrow> same_family ps r y"
  by (auto simp: same_family_def live_def)

lemma table_invD:
  assumes "table_inv s"
  shows "cpu_inv s" "family_inv (initproc s) (procs s)" "length (procs s) = NPROC"
    "cpup s c = Some p \<Longrightarrow> p < NPROC" "cpup s c = Some p \<Longrightarrow> pstate (procs s ! p) = RUNNING"
  using assms cpu_invD by (auto simp: table_inv_def)

lemma table_inv_run:
  assumes "table_inv s" "cpup s c = None" "p < NPROC" "pstate (procs s ! p) = RUNNABLE" "sched_run p (on_cpu c s) = Inr t"
  shows "table_inv t"
proof -
  note s = table_invD [OF assms(1)] and t = sched_run_sel [OF assms(5), unfolded on_cpu_sel]
  have "cpu_inv t"
    using assms(2-4) t by (intro cpu_inv_run [OF s(1)]) simp_all
  moreover have "family_inv (initproc s) (procs t)"
    using t assms(4) by (simp add: family_upd [OF s(2)] same_family_live live_def waits_def)
  ultimately show ?thesis
    using t by (simp add: table_inv_def)
qed

text \<open>The running process gives up its CPU.\<close>

lemma table_inv_back:
  assumes "table_inv s" "cpup s c = Some p" "t = sched_back (upd_proc p f (on_cpu c s))" "parent (f (procs s ! p)) = parent (procs s ! p)"
    "pstate (f (procs s ! p)) \<in> {RUNNABLE, SLEEPING}"
    "waits p (f (procs s ! p)) \<longrightarrow> (\<exists>q<NPROC. parent (procs s ! q) = Some p) \<and> (\<forall>q<NPROC. parent (procs s ! q) = Some p \<longrightarrow> pstate (procs s ! q) \<noteq> ZOMBIE)"
  shows "table_inv t"
proof (rule table_inv_quiet [OF assms(1)])
  have "pstate (procs s ! p) = RUNNING"
    by (rule table_invD(5) [OF assms(1,2)])
  then show "same_family (procs s) p (f (procs s ! p))"
    using assms(4-6) by (auto simp: same_family_def live_def)
  show "cpup t = cpup s \<and> (pstate (f (procs s ! p)) = RUNNING \<longleftrightarrow> pstate (procs s ! p) = RUNNING) \<or>
     (\<exists>c. cpup s c = Some p \<and> cpup t = (cpup s)(c := None) \<and> pstate (f (procs s ! p)) \<noteq> RUNNING)"
    using assms(2,3,5) by auto
qed (simp_all add: assms(3))

lemma table_inv_woken:
  assumes "table_inv s" "cpup s c = Some p"
  shows "table_inv (sleep_done p (on_cpu c s))"
proof (rule table_inv_quiet [OF assms(1)])
  show "same_family (procs s) p ((procs s ! p)\<lparr>chan := None\<rparr>)"
    using table_invD(5) [OF assms] by (intro same_family_live) (simp_all add: live_def waits_def)
qed (simp_all add: sleep_done_def)

lemma table_inv_reap:
  assumes "table_inv s" "cpup s c = Some p" "wait p (on_cpu c s) = Inr (WRet n, t)"
  shows "table_inv t"
proof -
  note s = table_invD(1-3) [OF assms(1)] and p = table_invD(5) [OF assms(1,2)]
  have e: "cpup t = cpup s" "initproc t = initproc s"
    using wait_return [OF assms(3), unfolded on_cpu_sel] by simp_all
  consider "procs t = procs s" | q y where "q < NPROC" "parent (procs s ! q) = Some p" "pstate (procs s ! q) = ZOMBIE"
      "procs t = (procs s)[q := y]" "pstate y = UNUSED" "parent y = None"
    using wait_return [OF assms(3), unfolded on_cpu_sel] by auto
  then show ?thesis
  proof cases
    case 1
    then show ?thesis
      using s e by (auto simp: table_inv_def cpu_inv_def)
  next
    case 2
    have "cpu_inv t"
      using 2 s(3) e by (intro cpu_inv_same [OF s(1)]) (auto simp: nth_list_update)
    then show ?thesis
      using family_reaped [OF s(2) 2(1,3,2) p 2(6,5)] 2(4) e by (simp add: table_inv_def)
  qed
qed

lemma table_inv_exit:
  assumes "table_inv s" "cpup s c = Some p" "p \<noteq> initproc s"
  shows "table_inv (sched_back (exit_table p (on_cpu c s)))"
proof -
  note s = table_invD(1-3) [OF assms(1)] table_invD(4,5) [OF assms(1,2)]
  let ?t = "exit_table p (on_cpu c s)"
  note x = exit_table_ok [of "on_cpu c s" p, simplified on_cpu_sel, OF s(2,4,5) assms(3)]
  have "length (procs ?t) = NPROC"
    using x(1) by (simp add: family_inv_def)
  then have "cpu_inv (sched_back ?t)"
    using x s(3) by (intro cpu_inv_stop [OF s(1) assms(2)]) simp_all
  then show ?thesis
    using x(1) by (simp add: table_inv_def)
qed

lemma table_inv_fork:
  assumes "table_inv s" "cpup s c = Some p" "fork p (on_cpu c s) = Inr (n, t)"
  shows "table_inv t"
proof -
  note s = table_invD(1-3) [OF assms(1)] table_invD(4,5) [OF assms(1,2)]
  note x = fork_slot [OF assms(3), unfolded on_cpu_sel only_slot_on_cpu, OF s(3)]
  then consider "cpup t = cpup s" "initproc t = initproc s" "procs t = procs s"
    | q where "find (\<lambda>p. pstate (procs s ! p) = UNUSED) [0..<NPROC] = Some q" "only_slot q s t"
      "pstate (procs t ! q) = RUNNABLE \<and> parent (procs t ! q) = Some p \<or> pstate (procs t ! q) = UNUSED \<and> parent (procs t ! q) = parent (procs s ! q)"
    by blast
  then show ?thesis
  proof cases
    case 1
    then show ?thesis
      using s by (auto simp: table_inv_def cpu_inv_def)
  next
    case 2
    have q: "q < NPROC" "pstate (procs s ! q) = UNUSED"
      using find_upt [OF 2(1)] by auto
    have t: "procs t = (procs s)[q := procs t ! q]" "cpup t = cpup s" "initproc t = initproc s"
      using 2(2) by (auto simp: only_slot_def)
    have "pstate (procs t ! r) = RUNNING \<longleftrightarrow> pstate (procs s ! r) = RUNNING" for r
      using 2(3) q(2) arg_cong [OF t(1), of "\<lambda>ps. ps ! r"] by (cases "r = q") auto
    then have "cpu_inv t"
      using t(2) only_slot_length [OF 2(2)] by (intro cpu_inv_same [OF s(1)]) auto
    moreover have "family_inv (initproc s) ((procs s)[q := procs t ! q])"
      using 2(3)
    proof
      assume "pstate (procs t ! q) = RUNNABLE \<and> parent (procs t ! q) = Some p"
      then show ?thesis
        using family_born [OF s(2) q s(4,5)] by blast
    next
      assume "pstate (procs t ! q) = UNUSED \<and> parent (procs t ! q) = parent (procs s ! q)"
      then show ?thesis
        using q(2) by (intro family_upd [OF s(2)]) (simp add: same_family_def live_def waits_def)
    qed
    ultimately show ?thesis
      using t by (simp add: table_inv_def)
  qed
qed

lemma table_inv_wake:
  assumes "table_inv s"
  shows "table_inv (wakeup ch s)"
proof -
  note s = table_invD(1-3) [OF assms]
  have "cpu_inv (wakeup ch s)"
    using s(3) by (intro cpu_inv_same [OF s(1)]) (auto simp: wakeup_def wake_states)
  then show ?thesis
    using s(2) by (simp add: table_inv_def wakeup_def family_wake)
qed

lemma table_inv_kill:
  assumes "table_inv s" "kill n s = (r, t)"
  shows "table_inv t"
proof -
  note s = table_invD(1-3) [OF assms(1)]
  note k = kill_slot [OF assms(2) s(3)]
  show ?thesis
  proof (cases "procs t = procs s")
    case True
    then show ?thesis
      using k assms(1) by (auto simp: table_inv_def cpu_inv_def)
  next
    case False
    then obtain q y where "procs t = (procs s)[q := y]" "parent y = parent (procs s ! q)" "chan y = chan (procs s ! q)"
        "pstate y = (if pstate (procs s ! q) = SLEEPING then RUNNABLE else pstate (procs s ! q))"
      using k by blast
    then show ?thesis
      using k assms(1) by (intro table_inv_quiet [of s t q y]) (auto simp: same_family_def live_def waits_def)
  qed
qed

lemma proc_step_table_inv: "proc_step s t \<Longrightarrow> table_inv s \<Longrightarrow> table_inv t"
proof (induction rule: proc_step.induct)
  case (run s c p t)
  then show ?case
    by (intro table_inv_run [of s c p t])
next
  case (preempt s c p)
  show ?case
    unfolding yield_def by (rule table_inv_back [OF preempt(2,1) refl]) (simp_all add: waits_def)
next
  case (sleeps s c p a)
  show ?case
    unfolding sleep_on_def by (rule table_inv_back [OF sleeps(2,1) refl]) (simp_all add: waits_def)
next
  case (woken s c p)
  then show ?case
    by (intro table_inv_woken)
next
  case (wait_sleeps s c p t)
  note w = wait_sleep [OF wait_sleeps(2), unfolded on_cpu_sel sleep_on_def]
  show ?case
    using w by (intro table_inv_back [OF wait_sleeps(3,1), of _ "\<lambda>x. x\<lparr>chan := Some (ChProc p), pstate := SLEEPING\<rparr>"]) simp_all
qed (blast intro: table_inv_reap table_inv_exit table_inv_fork table_inv_wake table_inv_kill)+

interpretation ptab: stepwise_invariant "proc_step :: 'a procst_scheme \<Rightarrow> _" table_inv
  by unfold_locales (rule proc_step_table_inv)


section \<open>Properties\<close>

text \<open>The table after \<^verbatim>\<open>userinit\<close>: the first process is runnable, every other slot is free, no CPU runs a process.\<close>

definition table_boot :: "'a procst_scheme \<Rightarrow> bool" where
  "table_boot s \<longleftrightarrow> length (procs s) = NPROC \<and> cpup s = (\<lambda>_. None) \<and> initproc s < NPROC \<and> pstate (procs s ! initproc s) = RUNNABLE \<and>
     (\<forall>q<NPROC. parent (procs s ! q) = None \<and> (q \<noteq> initproc s \<longrightarrow> pstate (procs s ! q) = UNUSED))"

lemma table_boot_inv: "table_boot s \<Longrightarrow> table_inv s"
  by (auto simp: table_boot_def table_inv_def cpu_inv_def family_inv_def parent_ok_def live_def waits_def)

text \<open>Sample tables.\<close>

definition free_proc :: proc where
  "free_proc = \<lparr>psz = 0, pgdir = 0, kstack = 0, pstate = UNUSED, pid = 0, parent = None, tf = zero_tf, ctxt = 0, chan = None,
     killed = False, ofile = replicate NOFILE None, cwd = 0, pname = []\<rparr>"

definition ready_proc :: "int \<Rightarrow> nat option \<Rightarrow> proc" where
  "ready_proc n w = free_proc\<lparr>pgdir := 0x80400000, kstack := 0x80401000, pstate := RUNNABLE, pid := n, parent := w\<rparr>"

definition table_of :: "proc list \<Rightarrow> procst" where
  "table_of ps = \<lparr>bufs = [], bnext = [], bprev = [], disk = (\<lambda>_. []), disksize = 0, whist = [], curpid = 0,
     log_start = 0, log_size = 0, log_outstanding = 0, log_committing = False, log_dev = 0, lh_n = 0, lh_block = [],
     sb = \<lparr>sb_size = 0, sb_nblocks = 0, sb_ninodes = 0, sb_nlog = 0, sb_logstart = 0, sb_inodestart = 0, sb_bmapstart = 0\<rparr>, inodes = [],
     km = \<lparr>klock = initlock ''kmem'', use_lock = True, freelist = 0, kmemory = (\<lambda>_. 0), kcpu = \<lparr>ncli = 0, intena = False, fl_if = True\<rparr>,
       kme = 0, kend = 0x80110000, kdata = 0x80108000, kpgdir = 0x80402000, cr3 = 0, esp0 = 0\<rparr>,
     ftable = [], pipes = (\<lambda>_. None), procs = ps @ replicate (NPROC - length ps) free_proc, cpup = (\<lambda>_. None), nextpid = 3, initproc = 0,
     sym_trapret = 0, sym_forkret = 0, initcode_start = 0, initcode_size = 0\<rparr>"

lemma table_of_sel [simp]:
  "procs (table_of ps) = ps @ replicate (NPROC - length ps) free_proc" "cpup (table_of ps) = (\<lambda>_. None)" "initproc (table_of ps) = 0"
  "length ps \<le> NPROC \<Longrightarrow> length (procs (table_of ps)) = NPROC"
  by (simp_all add: table_of_def)

lemma table_of_run:
  assumes "p < length ps" "pstate (ps ! p) = RUNNABLE" "kstack (ps ! p) \<noteq> 0" "pgdir (ps ! p) \<noteq> 0" "length ps \<le> NPROC"
  shows "\<exists>t. proc_step (table_of ps) t \<and> procs t = (procs (table_of ps))[p := (ps ! p)\<lparr>pstate := RUNNING\<rparr>] \<and> cpup t c = Some p"
proof -
  let ?s = "on_cpu c (table_of ps)"
  have "\<exists>m. switchuvm (kstack (ps ! p)) (pgdir (ps ! p)) (km ?s) = Inr m"
    using assms(3,4) by (simp add: switchuvm_def table_of_def on_cpu_def pushcli_def popcli_def Let_def)
  then have "\<exists>t. sched_run p ?s = Inr t"
    using assms(1) by (auto simp: sched_run_def Let_def on_cpu_def nth_append)
  then obtain t where t: "sched_run p ?s = Inr t"
    by blast
  have "proc_step (table_of ps) t"
    using assms by (intro proc_step.run [OF _ _ _ t]) (simp_all add: nth_append)
  then show ?thesis
    using sched_run_sel [OF t] assms(1) by (auto simp: nth_append)
qed

text \<open>
  C30: A process runs on at most one CPU: from the table \<^verbatim>\<open>userinit\<close> leaves, in every interleaving of the critical sections of
  any number of CPUs that schedule, yield, sleep, wake, kill, fork, exit and wait, a process is in state \<^verbatim>\<open>RUNNING\<close> exactly
  when some CPU has it as its current process, and no two CPUs have the same one.
\<close>

theorem running_on_one_cpu:
  assumes "table_boot s" "proc_step\<^sup>*\<^sup>* s t" "p < NPROC"
  shows "(pstate (procs t ! p) = RUNNING \<longleftrightarrow> (\<exists>c. cpup t c = Some p)) \<and>
    (\<forall>c c'. cpup t c = Some p \<and> cpup t c' = Some p \<longrightarrow> c = c')"
  using cpu_invD [OF table_invD(1) [OF ptab.reachable [OF assms(2) table_boot_inv [OF assms(1)]]]] assms(3) by blast

theorem running_on_one_cpu_witness:
  "\<exists>t. proc_step\<^sup>*\<^sup>* (table_of [ready_proc 1 None]) t \<and> pstate (procs t ! 0) = RUNNING \<and> cpup t 5 = Some 0 \<and>
     (\<forall>c. cpup t c = Some 0 \<longrightarrow> c = 5)"
proof -
  let ?s = "table_of [ready_proc 1 None]"
  have n: "(0 :: nat) < NPROC"
    by (simp add: NPROC_def)
  have b: "table_boot ?s"
    by (auto simp: table_boot_def NPROC_def nth_Cons' ready_proc_def free_proc_def)
  obtain t where t: "proc_step ?s t" "cpup t 5 = Some 0"
    using table_of_run [of 0 "[ready_proc 1 None]" 5] by (auto simp: ready_proc_def NPROC_def)
  then have "proc_step\<^sup>*\<^sup>* ?s t"
    by blast
  with running_on_one_cpu [OF b this n] t(2) show ?thesis
    by blast
qed

text \<open>
  C31: No lost wakeup between \<^verbatim>\<open>exit\<close> and \<^verbatim>\<open>wait\<close>, and no orphans: from a consistent table, in every interleaving, the parent
  of a process is a living process, because \<^verbatim>\<open>exit\<close> hands the children over to the first process; and a process that
  sleeps in \<^verbatim>\<open>wait\<close> has a child, none of its children being a zombie, so the exit that will wake it is still to come.
\<close>

theorem wait_no_lost_wakeup:
  assumes "table_inv s" "proc_step\<^sup>*\<^sup>* s t" "w < NPROC"
  shows "(\<forall>q<NPROC. parent (procs t ! q) = Some w \<longrightarrow> pstate (procs t ! q) \<noteq> UNUSED \<and> pstate (procs t ! w) \<in> {SLEEPING, RUNNABLE, RUNNING}) \<and>
    (pstate (procs t ! w) = SLEEPING \<and> chan (procs t ! w) = Some (ChProc w) \<longrightarrow>
       (\<exists>q<NPROC. parent (procs t ! q) = Some w) \<and> (\<forall>q<NPROC. parent (procs t ! q) = Some w \<longrightarrow> pstate (procs t ! q) \<noteq> ZOMBIE))"
proof -
  have "family_inv (initproc t) (procs t)"
    by (rule table_invD(2) [OF ptab.reachable [OF assms(2,1)]])
  then have f: "parent_ok (procs t) q" "waits w (procs t ! w) \<Longrightarrow> \<exists>q<NPROC. parent (procs t ! q) = Some w" if "q < NPROC" for q
    using that assms(3) by (auto simp: family_inv_def)
  have "pstate (procs t ! q) \<noteq> UNUSED \<and> live (procs t ! w)" if "q < NPROC" "parent (procs t ! q) = Some w" for q
    using f(1) [OF that(1)] that(2) by (auto simp: parent_ok_def)
  moreover have "\<not> waits w (procs t ! w)" if "q < NPROC" "parent (procs t ! q) = Some w" "pstate (procs t ! q) = ZOMBIE" for q
    using f(1) [OF that(1)] that(2,3) by (auto simp: parent_ok_def)
  ultimately show ?thesis
    using f(2) [OF assms(3)] unfolding live_def waits_def by blast
qed

theorem wait_no_lost_wakeup_witness:
  "\<exists>t. proc_step\<^sup>*\<^sup>* (table_of [ready_proc 1 None, ready_proc 2 (Some 0)]) t \<and> pstate (procs t ! 0) = SLEEPING \<and>
     chan (procs t ! 0) = Some (ChProc 0) \<and> parent (procs t ! 1) = Some 0 \<and> pstate (procs t ! 1) \<noteq> ZOMBIE"
proof -
  let ?ps = "[ready_proc 1 None, ready_proc 2 (Some 0)]"
  let ?s = "table_of ?ps"
  have n: "(0 :: nat) < NPROC" "(1 :: nat) < NPROC" "length ?ps \<le> NPROC"
    by (simp_all add: NPROC_def)
  have i: "table_inv ?s"
    using n by (auto simp: table_inv_def cpu_inv_def family_inv_def parent_ok_def live_def waits_def nth_Cons' ready_proc_def free_proc_def
        split: if_splits)
  obtain u where u: "proc_step ?s u" "procs u = (procs ?s)[0 := (?ps ! 0)\<lparr>pstate := RUNNING\<rparr>]" "cpup u 5 = Some 0"
    using table_of_run [of 0 ?ps 5] n(3) by (auto simp: ready_proc_def)
  let ?v = "sleep_on 0 (ChProc 0) (on_cpu 5 u)"
  have "find (\<lambda>q. parent (procs u ! q) = Some 0 \<and> pstate (procs u ! q) = ZOMBIE) [0..<NPROC] = None"
    using n by (auto simp: find_None_iff u(2) nth_Cons' ready_proc_def free_proc_def)
  moreover have "parent (procs u ! 1) = Some 0" "\<not> killed (procs u ! 0)"
    by (simp_all add: u(2) ready_proc_def free_proc_def)
  ultimately have "wait 0 (on_cpu 5 u) = Inr (WSleep, ?v)"
    using n by (auto simp: wait_def)
  then have "proc_step u (sched_back ?v)"
    by (rule proc_step.wait_sleeps [where c = 5, OF u(3)])
  with u(1) have "proc_step\<^sup>*\<^sup>* ?s (sched_back ?v)"
    by (meson converse_rtranclp_into_rtranclp r_into_rtranclp)
  moreover have "pstate (procs (sched_back ?v) ! 0) = SLEEPING" "chan (procs (sched_back ?v) ! 0) = Some (ChProc 0)" "parent (procs (sched_back ?v) ! 1) = Some 0"
    by (simp_all add: sleep_on_def u(2) ready_proc_def)
  ultimately show ?thesis
    using wait_no_lost_wakeup [OF i _ n(1)] n(2) by blast
qed

text \<open>
  C32: \<^verbatim>\<open>kill(0)\<close> damages a process that does not exist yet.  \<^verbatim>\<open>kill\<close> compares process numbers without looking at the state, and
  free slots have number 0: it answers 0, success, and marks the first free slot as killed.  \<^verbatim>\<open>allocproc\<close> and \<^verbatim>\<open>fork\<close> never
  clear the mark, so the next process forked into that slot starts out killed.
\<close>

theorem kill_zero_marks_free_slot:
  assumes "length (procs s) = NPROC" "q < NPROC" "pstate (procs s ! q) = UNUSED" "pid (procs s ! q) = 0"
    "\<forall>r<q. pstate (procs s ! r) \<noteq> UNUSED \<and> pid (procs s ! r) \<noteq> 0"
  shows "\<exists>t. kill 0 s = (0, t) \<and> pstate (procs t ! q) = UNUSED \<and> killed (procs t ! q) \<and>
    (\<forall>p n u. fork p t = Inr (n, u) \<longrightarrow> killed (procs u ! q) \<and>
       (n \<noteq> - 1 \<longrightarrow> pstate (procs u ! q) = RUNNABLE \<and> parent (procs u ! q) = Some p))"
proof -
  let ?t = "upd_proc q (killed_update (\<lambda>_. True)) s"
  have "find (\<lambda>p. pid (procs s ! p) = 0) [0..<NPROC] = Some q"
    using assms(2,4,5) by (auto simp: find_Some_iff)
  then have k: "kill 0 s = (0, ?t)"
    using assms(1-3) by (simp add: kill_def)
  have "find (\<lambda>p. pstate (procs ?t ! p) = UNUSED) [0..<NPROC] = Some q"
    using assms by (auto simp: find_Some_iff nth_list_update intro!: exI [of _ q])
  then have "killed (procs u ! q) \<and> (n \<noteq> - 1 \<longrightarrow> pstate (procs u ! q) = RUNNABLE \<and> parent (procs u ! q) = Some p)"
    if "fork p ?t = Inr (n, u)" for p n u
    using fork_slot [OF that] assms(1,2) by auto
  then show ?thesis
    using k assms(1-3) by auto
qed

theorem kill_zero_marks_free_slot_witness:
  "\<exists>t. kill 0 (table_of [ready_proc 1 None]) = (0, t) \<and> pstate (procs t ! 1) = UNUSED \<and> killed (procs t ! 1)"
proof -
  let ?s = "table_of [ready_proc 1 None]"
  have "length (procs ?s) = NPROC" "1 < NPROC" "pstate (procs ?s ! 1) = UNUSED" "pid (procs ?s ! 1) = 0"
      "\<forall>r<1. pstate (procs ?s ! r) \<noteq> UNUSED \<and> pid (procs ?s ! r) \<noteq> 0"
    by (simp_all add: NPROC_def ready_proc_def free_proc_def)
  from kill_zero_marks_free_slot [OF this] show ?thesis
    by blast
qed

end
