(* ===== verification/Syscall_args.thy ===== *)
theory Syscall_args
  imports Syscall_c Proc_table
begin

text \<open>
  The checks that \<^verbatim>\<open>syscall.c\<close> makes on the arguments of system calls, stated without wrap-around.
\<close>

section \<open>Properties\<close>

lemma fetchint_iff:
  assumes "psz (procs s ! p) \<le> KERNBASE"
  shows "fetchint p a s = Some v \<longleftrightarrow> unat a + 4 \<le> unat (psz (procs s ! p)) \<and> v = ld32 (user_mem p s) a"
proof -
  have z: "unat (psz (procs s ! p)) \<le> 2147483648"
    using assms by (simp add: word_le_nat_alt KERNBASE_def)
  have "\<not> (a \<ge> psz (procs s ! p) \<or> a + 4 > psz (procs s ! p)) \<longleftrightarrow> unat a + 4 \<le> unat (psz (procs s ! p))"
    using z by (auto simp: word_le_nat_alt word_less_nat_alt unat_word_ariths)
  then show ?thesis
    by (auto simp: fetchint_def)
qed

lemma argptr_iff:
  assumes "psz (procs s ! p) \<le> KERNBASE" "sz < 2 ^ 31"
  shows "argptr p n sz s = Some a \<longleftrightarrow> argint p n s = Some a \<and> 0 \<le> sz \<and> a < psz (procs s ! p) \<and> unat a + nat sz \<le> unat (psz (procs s ! p))"
proof -
  have z: "unat (psz (procs s ! p)) \<le> 2147483648"
    using assms by (simp add: word_le_nat_alt KERNBASE_def)
  have "(a + of_int sz > psz (procs s ! p)) \<longleftrightarrow> unat (psz (procs s ! p)) < unat a + nat sz" if "0 \<le> sz" "a < psz (procs s ! p)" for a
  proof -
    define k where "k = nat sz"
    have k: "sz = int k" "k < 2147483648"
      using that(1) assms(2) by (simp_all add: k_def)
    have "unat (a + of_nat k) = unat a + k"
      using k(2) that(2) z by (simp add: unat_word_ariths word_less_nat_alt unat_of_nat)
    then show ?thesis
      by (simp add: k(1) word_less_nat_alt)
  qed
  then show ?thesis
    by (auto simp: argptr_def split: option.splits)
qed

lemma fetchstr_iff:
  "fetchstr p a s = Some bs \<longleftrightarrow> bs = rd (user_mem p s) a (length bs) \<and> 0 \<notin> set bs \<and>
     unat a + length bs < unat (psz (procs s ! p)) \<and> user_mem p s (a + of_nat (length bs)) = 0"
proof -
  let ?m = "user_mem p s"
  have z: "0 \<notin> set (rd ?m a k) \<longleftrightarrow> (\<forall>j<k. ?m (a + of_nat j) \<noteq> 0)" for k
    by (auto simp: in_set_conv_nth rd_nth)
  have "find (\<lambda>k. ?m (a + of_nat k) = 0) [0..<n] = Some k \<longleftrightarrow> k < n \<and> ?m (a + of_nat k) = 0 \<and> 0 \<notin> set (rd ?m a k)" for n k
    unfolding z by (auto simp: find_Some_iff)
  then show ?thesis
    by (auto simp: fetchstr_def Let_def word_le_nat_alt intro!: exI [of _ "length bs"])
qed

text \<open>
  C33: What the kernel takes from user space lies in the process, for a process of at most \<^verbatim>\<open>KERNBASE\<close> bytes, although the checks
  are sums of 32-bit words that could wrap around.  An integer argument is read exactly when its four bytes are inside; a
  pointer argument is accepted exactly when the whole block is inside and the length is not negative;
  a string argument is accepted exactly when the string and its terminator are inside.
\<close>

theorem syscall_args_in_bounds:
  fixes len :: uint
  assumes "psz (procs s ! p) \<le> KERNBASE"
  defines "sz \<equiv> unat (psz (procs s ! p))" and "esp \<equiv> tf_esp (tf (procs s ! p))"
  shows "(argint p n s = Some v \<longleftrightarrow> unat (esp + 4 + 4 * of_nat n) + 4 \<le> sz \<and> v = ld32 (user_mem p s) (esp + 4 + 4 * of_nat n)) \<and>
    (argptr p n (sint len) s = Some a \<longleftrightarrow> argint p n s = Some a \<and> 0 \<le> sint len \<and> unat a < sz \<and> unat a + nat (sint len) \<le> sz) \<and>
    (argstr p n s = Some bs \<longleftrightarrow> (\<exists>a. argint p n s = Some a \<and> unat a + length bs < sz \<and> bs = rd (user_mem p s) a (length bs) \<and>
       0 \<notin> set bs \<and> user_mem p s (a + of_nat (length bs)) = 0))"
proof (intro conjI)
  show "argint p n s = Some v \<longleftrightarrow> unat (esp + 4 + 4 * of_nat n) + 4 \<le> sz \<and> v = ld32 (user_mem p s) (esp + 4 + 4 * of_nat n)"
    unfolding argint_def sz_def esp_def by (rule fetchint_iff [OF assms(1)])
  have "sint len < 2 ^ 31"
    using sint_lt [of len] by simp
  then show "argptr p n (sint len) s = Some a \<longleftrightarrow> argint p n s = Some a \<and> 0 \<le> sint len \<and> unat a < sz \<and> unat a + nat (sint len) \<le> sz"
    using argptr_iff [OF assms(1)] by (simp add: sz_def word_less_nat_alt)
  show "argstr p n s = Some bs \<longleftrightarrow> (\<exists>a. argint p n s = Some a \<and> unat a + length bs < sz \<and> bs = rd (user_mem p s) a (length bs) \<and>
       0 \<notin> set bs \<and> user_mem p s (a + of_nat (length bs)) = 0)"
    by (auto simp: argstr_def fetchstr_iff sz_def split: option.splits)
qed

theorem syscall_args_in_bounds_witness:
  "let s = table_of [(ready_proc 1 None)\<lparr>psz := 4096, tf := zero_tf\<lparr>tf_esp := 256\<rparr>\<rparr>]
   in argint 0 1 s = Some (ld32 (user_mem 0 s) 264) \<and> argptr 0 1 (sint (5000 :: uint)) s = None \<and> argint 0 1000 s = None"
proof -
  let ?s = "table_of [(ready_proc 1 None)\<lparr>psz := 4096, tf := zero_tf\<lparr>tf_esp := 256\<rparr>\<rparr>]"
  have z: "psz (procs ?s ! 0) = 4096" "tf_esp (tf (procs ?s ! 0)) = 256" "psz (procs ?s ! 0) \<le> KERNBASE"
    by (simp_all add: KERNBASE_def)
  note b = syscall_args_in_bounds [OF z(3)]
  have "argptr 0 1 (sint (5000 :: uint)) ?s \<noteq> Some a" "argint 0 1000 ?s \<noteq> Some a" for a
    using b [of 1 0 5000 a] b [of 1000 a] unfolding z(1,2) by simp_all
  moreover have "argint 0 1 ?s = Some (ld32 (user_mem 0 ?s) 264)"
    using b [of 1 "ld32 (user_mem 0 ?s) 264"] unfolding z(1,2) by simp
  ultimately show ?thesis
    unfolding Let_def by (meson not_None_eq)
qed

end
