(* ===== verification/Ulib_c.thy ===== *)
theory Ulib_c
  imports Prelude
begin

text \<open>
  The C library of user programs (\<^verbatim>\<open>ulib.c\<close>).  A C string is the list of its characters before the terminator, a
  buffer the list of its cells; a store outside the buffer has no value.  The input a program reads is a stream of bytes
  of which each call of \<^verbatim>\<open>read\<close> gives some: at most what was asked for, at least one unless the input has ended.
\<close>

section \<open>Strings\<close>

abbreviation NUL :: char where "NUL \<equiv> CHR 0x00"
abbreviation NL :: char where "NL \<equiv> CHR 0x0A"

fun strcpy_at :: "nat \<Rightarrow> string \<Rightarrow> string \<Rightarrow> string option" where
  "strcpy_at i [] s = (if i < length s then Some (s[i := NUL]) else None)"
| "strcpy_at i (c # t) s = (if i < length s then strcpy_at (Suc i) t (s[i := c]) else None)"

definition strcpy :: "string \<Rightarrow> string \<Rightarrow> string option" where
  "strcpy s t = strcpy_at 0 t s"

fun strcmp :: "string \<Rightarrow> string \<Rightarrow> int" where
  "strcmp [] [] = 0"
| "strcmp [] (q # qs) = - of_char q"
| "strcmp (p # ps) [] = of_char p"
| "strcmp (p # ps) (q # qs) = (if p = q then strcmp ps qs else of_char p - of_char q)"

text \<open>\<^verbatim>\<open>strlen\<close> and \<^verbatim>\<open>strchr\<close> of the characters in a buffer up to its terminator.\<close>

fun ustrlen :: "string \<Rightarrow> nat" where
  "ustrlen [] = 0"
| "ustrlen (c # s) = (if c = NUL then 0 else Suc (ustrlen s))"

fun strchr :: "string \<Rightarrow> char \<Rightarrow> nat option" where
  "strchr [] c = None"
| "strchr (x # s) c = (if x = NUL then None else if x = c then Some 0 else map_option Suc (strchr s c))"

text \<open>\<^verbatim>\<open>atoi\<close> with the wrap-around of \<^verbatim>\<open>int\<close>.\<close>

fun atoi_loop :: "uint \<Rightarrow> string \<Rightarrow> uint" where
  "atoi_loop n [] = n"
| "atoi_loop n (c # s) =
     (if 48 \<le> (of_char c :: nat) \<and> (of_char c :: nat) \<le> 57 then atoi_loop (n * 10 + of_char c - 48) s else n)"

definition atoi :: "string \<Rightarrow> uint" where
  "atoi s = atoi_loop 0 s"

text \<open>\<^verbatim>\<open>memmove\<close> inside a buffer, from the front to the back whatever the overlap.\<close>

fun umemmove :: "nat \<Rightarrow> nat \<Rightarrow> nat \<Rightarrow> string \<Rightarrow> string option" where
  "umemmove dst src 0 b = Some b"
| "umemmove dst src (Suc n) b =
     (if dst < length b \<and> src < length b then umemmove (Suc dst) (Suc src) n (b[dst := b ! src]) else None)"

section \<open>Input\<close>

record input =
  in_data :: string
  in_offer :: "nat list"
  in_fails :: bool

text \<open>
  A call of \<^verbatim>\<open>read\<close> that asks for \<^verbatim>\<open>n\<close> bytes: nothing at the end of the input, which may also be an error (\<^verbatim>\<open>None\<close>); otherwise
  as many as the device offers, a file offering all it has.
\<close>

definition read_in :: "nat \<Rightarrow> input \<Rightarrow> string option \<times> input" where
  "read_in n s =
     (if n = 0 then (Some [], s)
      else if in_data s = [] then (if in_fails s then None else Some [], s)
      else
        let k = (case in_offer s of [] \<Rightarrow> n | m # _ \<Rightarrow> min n (Suc m))
        in (Some (take k (in_data s)), s\<lparr>in_data := drop k (in_data s), in_offer := tl (in_offer s)\<rparr>))"

lemma read_in_shorter:
  "read_in n s = (Some bs, t) \<Longrightarrow> bs \<noteq> [] \<Longrightarrow> in_data s = bs @ in_data t \<and> length (in_data t) < length (in_data s) \<and> in_fails t = in_fails s"
  by (auto simp: read_in_def Let_def split: if_splits list.splits)

lemma read_in_end: "read_in n s = (Some [], t) \<Longrightarrow> 0 < n \<Longrightarrow> in_data s = [] \<and> \<not> in_fails s"
  by (auto simp: read_in_def Let_def split: if_splits list.splits)

lemma read_in_fail: "read_in n s = (None, t) \<Longrightarrow> in_data s = [] \<and> in_fails s"
  by (auto simp: read_in_def Let_def split: if_splits list.splits)

text \<open>\<^verbatim>\<open>gets\<close> into a buffer of \<^verbatim>\<open>mx\<close> cells: the string read, which ends in a newline or return unless the input or the room ends.\<close>

function gets_loop :: "nat \<Rightarrow> nat \<Rightarrow> input \<Rightarrow> string \<times> input" where
  "gets_loop i mx s =
     (if i + 1 < mx then
        (case read_in 1 s of
           (Some (c # _), t) \<Rightarrow>
             if c = NL \<or> c = CHR 0x0D then ([c], t)
             else (case gets_loop (i + 1) mx t of (cs, u) \<Rightarrow> (c # cs, u))
         | (_, t) \<Rightarrow> ([], t))
      else ([], s))"
  by pat_completeness auto
termination
  by (relation "measure (\<lambda>(i, mx, s). mx - i)") auto

declare gets_loop.simps [simp del]

definition gets :: "nat \<Rightarrow> input \<Rightarrow> string \<times> input" where
  "gets mx s = gets_loop 0 mx s"

section \<open>Lemmas\<close>

lemma strcpy_at_fits:
  "i + length t < length s \<Longrightarrow> strcpy_at i t s = Some (take i s @ t @ NUL # drop (Suc (i + length t)) s)"
proof (induction t arbitrary: i s)
  case Nil
  then show ?case
    by (simp add: upd_conv_take_nth_drop)
next
  case (Cons c t)
  then show ?case
    by (simp add: take_Suc_conv_app_nth)
qed

lemma strcpy_fits: "length t < length s \<Longrightarrow> strcpy s t = Some (t @ NUL # drop (Suc (length t)) s)"
  by (simp add: strcpy_def strcpy_at_fits)

lemma strcpy_overflows: "length s \<le> i + length t \<Longrightarrow> strcpy_at i t s = None"
  by (induction t arbitrary: i s) auto

lemma of_char_0: "(of_char c :: int) = 0 \<longleftrightarrow> c = NUL"
  using of_char_eq_iff [of c NUL, where ?'a = int] by simp

lemma strcmp_eq_0: "NUL \<notin> set p \<Longrightarrow> NUL \<notin> set q \<Longrightarrow> strcmp p q = 0 \<longleftrightarrow> p = q"
  by (induction p q rule: strcmp.induct) (auto simp: of_char_eq_iff of_char_0)

lemma strchr_None: "NUL \<notin> set s \<Longrightarrow> strchr s c = None \<longleftrightarrow> c \<notin> set s"
  by (induction s) auto

lemma strchr_append: "NUL \<notin> set s \<Longrightarrow> c \<notin> set s \<Longrightarrow> c \<noteq> NUL \<Longrightarrow> strchr (s @ c # t) c = Some (length s)"
  by (induction s) auto

lemma strchr_Some: "strchr s c = Some i \<Longrightarrow> i < length s \<and> s ! i = c \<and> c \<notin> set (take i s) \<and> NUL \<notin> set (take i s)"
  by (induction s arbitrary: i) (auto split: if_splits)

end
