(* ===== verification/Grep_c.thy ===== *)
theory Grep_c
  imports Ulib_c
begin

text \<open>
  \<^verbatim>\<open>grep.c\<close>: the matcher for patterns with \<^verbatim>\<open>^ . * $\<close> and the loop that cuts what is read into lines.
\<close>

section \<open>The matcher\<close>

text \<open>\<^verbatim>\<open>re[0]\<close> and \<^verbatim>\<open>re[1]\<close> of an exhausted pattern are its terminator.\<close>

function matchhere :: "string \<Rightarrow> string \<Rightarrow> bool"
  and matchstar :: "char \<Rightarrow> string \<Rightarrow> string \<Rightarrow> bool" where
  "matchhere [] tx = True"
| "matchhere (c # re) tx =
     (if re \<noteq> [] \<and> hd re = CHR ''*'' then matchstar c (tl re) tx
      else if c = CHR ''$'' \<and> re = [] then tx = []
      else tx \<noteq> [] \<and> (c = CHR ''.'' \<or> c = hd tx) \<and> matchhere re (tl tx))"
| "matchstar c re tx =
     (if matchhere re tx then True
      else if tx \<noteq> [] \<and> (hd tx = c \<or> c = CHR ''.'') then matchstar c re (tl tx) else False)"
  by pat_completeness auto
termination
  by (relation "measure (\<lambda>x. case x of Inl (re, tx) \<Rightarrow> 2 * (length re + length tx) | Inr (c, re, tx) \<Rightarrow> 2 * (length re + length tx) + 1)")
    (auto simp: neq_Nil_conv)

declare matchhere.simps(2) [simp del] matchstar.simps [simp del]

text \<open>The \<^verbatim>\<open>do\<close> loop of \<^verbatim>\<open>match\<close> over the rests of the text, the empty one included.\<close>

fun match_from :: "string \<Rightarrow> string \<Rightarrow> bool" where
  "match_from re [] = matchhere re []"
| "match_from re (t # tx) = (matchhere re (t # tx) \<or> match_from re tx)"

definition match :: "string \<Rightarrow> string \<Rightarrow> bool" where
  "match re tx = (if re \<noteq> [] \<and> hd re = CHR ''^'' then matchhere (tl re) tx else match_from re tx)"

section \<open>The loop over the input\<close>

text \<open>The inner loop: the lines printed from the buffer and what is left after the last newline.\<close>

function grep_lines :: "string \<Rightarrow> string \<Rightarrow> string list \<times> string" where
  "grep_lines pattern p =
     (case strchr p NL of
        None \<Rightarrow> ([], p)
      | Some q \<Rightarrow>
          (case grep_lines pattern (drop (q + 1) p) of
             (out, rest) \<Rightarrow> ((if match pattern (take q p) then [take (q + 1) p] else []) @ out, rest)))"
  by pat_completeness auto
termination
  by (relation "measure (\<lambda>(pattern, p). length p)") (auto dest: strchr_Some)

declare grep_lines.simps [simp del]

text \<open>
  \<^verbatim>\<open>grep\<close>: \<^verbatim>\<open>b\<close> is what the buffer of 1024 cells holds, \<^verbatim>\<open>m\<close> its length.  When no newline was found the buffer is dropped.
\<close>

function grep_loop :: "string \<Rightarrow> string \<Rightarrow> input \<Rightarrow> string list" where
  "grep_loop pattern b s =
     (case read_in (1024 - length b - 1) s of
        (Some (c # cs), t) \<Rightarrow>
          (let b = b @ c # cs;
               (out, p) = grep_lines pattern b;
               b = (if p = b then [] else p)
           in out @ grep_loop pattern b t)
      | _ \<Rightarrow> [])"
  by pat_completeness auto
termination
  by (relation "measure (\<lambda>(pattern, b, s). length (in_data s))") (auto dest!: read_in_shorter [OF sym])

declare grep_loop.simps [simp del]

definition grep :: "string \<Rightarrow> input \<Rightarrow> string list" where
  "grep pattern s = grep_loop pattern [] s"

section \<open>What a pattern means\<close>

text \<open>A pattern is a list of items, each a character or a repeated character, and a mark that it ends the line.\<close>

datatype item = One char | Star char

definition fits :: "char \<Rightarrow> char \<Rightarrow> bool" where
  "fits c x \<longleftrightarrow> c = CHR ''.'' \<or> c = x"

fun items :: "string \<Rightarrow> item list" where
  "items [] = []"
| "items [c] = (if c = CHR ''$'' then [] else [One c])"
| "items (c # d # re) = (if d = CHR ''*'' then Star c # items re else One c # items (d # re))"

fun at_end :: "string \<Rightarrow> bool" where
  "at_end [] = False"
| "at_end [c] = (c = CHR ''$'')"
| "at_end (c # d # re) = (if d = CHR ''*'' then at_end re else at_end (d # re))"

fun item_lang :: "item \<Rightarrow> string set" where
  "item_lang (One c) = {[x] | x. fits c x}"
| "item_lang (Star c) = {u. \<forall>x \<in> set u. fits c x}"

fun lang :: "item list \<Rightarrow> string set" where
  "lang [] = {[]}"
| "lang (i # is) = {u @ v | u v. u \<in> item_lang i \<and> v \<in> lang is}"

text \<open>The text begins with a string of the language, and is one if the pattern ends the line.\<close>

definition prefix_in :: "string \<Rightarrow> string \<Rightarrow> bool" where
  "prefix_in re tx \<longleftrightarrow> (\<exists>u v. tx = u @ v \<and> u \<in> lang (items re) \<and> (at_end re \<longrightarrow> v = []))"

lemma lang_ConsI: "u \<in> item_lang i \<Longrightarrow> v \<in> lang is \<Longrightarrow> u @ v \<in> lang (i # is)"
  by auto

lemma lang_Star: "(\<exists>u v. tx = u @ v \<and> u \<in> lang (Star c # is) \<and> P v) \<longleftrightarrow>
    (\<exists>u v. tx = u @ v \<and> u \<in> lang is \<and> P v) \<or> (\<exists>x t. tx = x # t \<and> fits c x \<and> (\<exists>u v. t = u @ v \<and> u \<in> lang (Star c # is) \<and> P v))"
proof (intro iffI; (elim disjE exE conjE)?)
  fix u v assume a: "tx = u @ v" "u \<in> lang (Star c # is)" "P v"
  then obtain w z where w: "u = w @ z" "\<forall>x \<in> set w. fits c x" "z \<in> lang is"
    by auto
  show "(\<exists>u v. tx = u @ v \<and> u \<in> lang is \<and> P v) \<or> (\<exists>x t. tx = x # t \<and> fits c x \<and> (\<exists>u v. t = u @ v \<and> u \<in> lang (Star c # is) \<and> P v))"
  proof (cases w)
    case Nil
    then show ?thesis
      using a w by auto
  next
    case (Cons x l)
    then have "l @ z \<in> lang (Star c # is)" "tx = x # (l @ z) @ v" "fits c x"
      using a w by (auto intro: lang_ConsI simp del: lang.simps)
    then show ?thesis
      using a(3) by blast
  qed
next
  fix u v assume a: "tx = u @ v" "u \<in> lang is" "P v"
  then have "[] @ u \<in> lang (Star c # is)"
    by (intro lang_ConsI) simp_all
  then show "\<exists>u v. tx = u @ v \<and> u \<in> lang (Star c # is) \<and> P v"
    using a by auto
next
  fix x t u v assume a: "tx = x # t" "fits c x" "t = u @ v" "u \<in> lang (Star c # is)" "P v"
  then obtain w z where "u = w @ z" "\<forall>x \<in> set w. fits c x" "z \<in> lang is"
    by auto
  then have w: "(x # w) @ z \<in> lang (Star c # is)" "u = w @ z"
    using a(2) lang_ConsI [of "x # w" "Star c" z "is"] by simp_all
  moreover have "tx = ((x # w) @ z) @ v"
    using a(1,3) w(2) by simp
  ultimately show "\<exists>u v. tx = u @ v \<and> u \<in> lang (Star c # is) \<and> P v"
    using a(5) by blast
qed

lemma lang_One: "(\<exists>u v. tx = u @ v \<and> u \<in> lang (One c # is) \<and> P v) \<longleftrightarrow>
    (\<exists>x t. tx = x # t \<and> fits c x \<and> (\<exists>u v. t = u @ v \<and> u \<in> lang is \<and> P v))"
proof (intro iffI; elim exE conjE)
  fix u v assume a: "tx = u @ v" "u \<in> lang (One c # is)" "P v"
  then obtain x w where "u = x # w" "fits c x" "w \<in> lang is"
    by auto
  then show "\<exists>x t. tx = x # t \<and> fits c x \<and> (\<exists>u v. t = u @ v \<and> u \<in> lang is \<and> P v)"
    using a(1,3) by auto
next
  fix x t u v assume a: "tx = x # t" "fits c x" "t = u @ v" "u \<in> lang is" "P v"
  then have "[x] @ u \<in> lang (One c # is)"
    by (intro lang_ConsI) simp_all
  moreover have "tx = ([x] @ u) @ v"
    using a(1,3) by simp
  ultimately show "\<exists>u v. tx = u @ v \<and> u \<in> lang (One c # is) \<and> P v"
    using a(5) by blast
qed

lemma prefix_in_One:
  "items (c # re) = One c # items re \<Longrightarrow> at_end (c # re) = at_end re \<Longrightarrow>
     prefix_in (c # re) tx \<longleftrightarrow> (\<exists>x t. tx = x # t \<and> fits c x \<and> prefix_in re t)"
  by (simp only: prefix_in_def lang_One)

lemma matchhere_items:
  "matchhere re tx \<longleftrightarrow> prefix_in re tx"
  "matchstar c re tx \<longleftrightarrow> (\<exists>u v. tx = u @ v \<and> u \<in> lang (Star c # items re) \<and> (at_end re \<longrightarrow> v = []))"
proof (induction re tx and c re tx rule: matchhere_matchstar.induct)
  case (1 tx)
  then show ?case
    by (simp add: prefix_in_def)
next
  case (2 c re tx)
  show ?case
  proof (cases re)
    case Nil
    show ?thesis
    proof (cases "c = CHR ''$''")
      case True
      with Nil show ?thesis
        by (simp add: matchhere.simps prefix_in_def)
    next
      case False
      with Nil show ?thesis
        using prefix_in_One [of c re] by (cases tx) (auto simp: matchhere.simps fits_def prefix_in_def [of "[]"])
    qed
  next
    case (Cons d re')
    show ?thesis
    proof (cases "d = CHR ''*''")
      case True
      with Cons show ?thesis
        using 2(1) by (simp add: matchhere.simps prefix_in_def del: lang.simps)
    next
      case False
      with Cons show ?thesis
        using 2(2) prefix_in_One [of c re] by (cases tx) (auto simp: matchhere.simps fits_def)
    qed
  qed
next
  case (3 c re tx)
  define S where "S = (\<lambda>t. \<exists>u v. t = u @ v \<and> u \<in> lang (Star c # items re) \<and> (at_end re \<longrightarrow> v = []))"
  have "S tx \<longleftrightarrow> prefix_in re tx \<or> (\<exists>x t. tx = x # t \<and> fits c x \<and> S t)"
    unfolding S_def prefix_in_def by (rule lang_Star)
  then have "matchstar c re tx \<longleftrightarrow> S tx"
    using 3(1) 3(2) matchstar.simps [of c re tx] unfolding S_def [symmetric, THEN fun_cong] by (cases tx) (auto simp: fits_def)
  then show ?case
    by (simp only: S_def)
qed

lemma match_from_suffix: "match_from re tx \<longleftrightarrow> (\<exists>a b. tx = a @ b \<and> matchhere re b)"
proof (induction tx)
  case (Cons t tx)
  have "(\<exists>a b. t # tx = a @ b \<and> matchhere re b) \<longleftrightarrow> matchhere re (t # tx) \<or> (\<exists>a b. tx = a @ b \<and> matchhere re b)"
    by (auto simp: Cons_eq_append_conv)
  then show ?case
    using Cons by simp
qed simp


section \<open>Lines\<close>

lemma grep_lines_stop: "NL \<notin> set p \<Longrightarrow> NUL \<notin> set p \<Longrightarrow> grep_lines pattern p = ([], p)"
  by (simp add: grep_lines.simps [of pattern p] strchr_None [THEN iffD2])

lemma grep_lines_step:
  "NL \<notin> set l \<Longrightarrow> NUL \<notin> set l \<Longrightarrow> grep_lines pattern (l @ NL # p) =
     (case grep_lines pattern p of (out, rest) \<Rightarrow> ((if match pattern l then [l @ [NL]] else []) @ out, rest))"
  by (simp add: grep_lines.simps [of pattern "l @ NL # p"] strchr_append)

text \<open>The text of a list of lines.\<close>

definition lines_text :: "string list \<Rightarrow> string" where
  "lines_text ls = concat (map (\<lambda>l. l @ [NL]) ls)"

definition printed :: "string \<Rightarrow> string list \<Rightarrow> string list" where
  "printed pattern ls = map (\<lambda>l. l @ [NL]) (filter (match pattern) ls)"

definition plain :: "string \<Rightarrow> bool" where
  "plain l \<longleftrightarrow> NL \<notin> set l \<and> NUL \<notin> set l"

lemma lines_text_simps [simp]: "lines_text [] = []" "lines_text (l # ls) = l @ NL # lines_text ls" "lines_text (ks @ ls) = lines_text ks @ lines_text ls"
  by (simp_all add: lines_text_def)

lemma grep_lines_text:
  "\<forall>l \<in> set ls. plain l \<Longrightarrow> plain r \<Longrightarrow> grep_lines pattern (lines_text ls @ r) = (printed pattern ls, r)"
  by (induction ls) (simp_all add: grep_lines_stop grep_lines_step plain_def printed_def)

text \<open>Any beginning of a text of lines is some whole lines and a beginning of the next.\<close>

lemma take_lines:
  assumes "\<forall>l \<in> set ls. plain l" "plain r"
  obtains ks l ms where "ls = ks @ ms" "take k (lines_text ls @ r) = lines_text ks @ l" "plain l"
    "l @ drop k (lines_text ls @ r) = lines_text ms @ r"
proof -
  have "\<exists>ks l ms. ls = ks @ ms \<and> take k (lines_text ls @ r) = lines_text ks @ l \<and> plain l \<and> l @ drop k (lines_text ls @ r) = lines_text ms @ r"
    using assms
  proof (induction ls arbitrary: k)
    case Nil
    then show ?case
      by (intro exI [of _ "[]"] exI [of _ "take k r"]) (auto simp: plain_def dest: in_set_takeD)
  next
    case (Cons a ls)
    show ?case
    proof (cases "k \<le> length a")
      case True
      then show ?thesis
        using Cons.prems by (intro exI [of _ "[]"] exI [of _ "take k a"] exI [of _ "a # ls"]) (auto simp: plain_def dest: in_set_takeD)
    next
      case False
      have "\<forall>l \<in> set ls. plain l"
        using Cons.prems(1) by simp
      from Cons.IH [OF this Cons.prems(2)] obtain ks l ms where i: "ls = ks @ ms" "take (k - Suc (length a)) (lines_text ls @ r) = lines_text ks @ l" "plain l"
          "l @ drop (k - Suc (length a)) (lines_text ls @ r) = lines_text ms @ r"
        by blast
      have e: "lines_text (a # ls) @ r = (a @ [NL]) @ lines_text ls @ r"
        by simp
      have "take k (lines_text (a # ls) @ r) = (a @ [NL]) @ lines_text ks @ l" "drop k (lines_text (a # ls) @ r) = drop (k - Suc (length a)) (lines_text ls @ r)"
        unfolding e take_append [of k "a @ [NL]"] drop_append [of k "a @ [NL]"] using i(2) False by simp_all
      then have "a # ls = (a # ks) @ ms" "take k (lines_text (a # ls) @ r) = lines_text (a # ks) @ l"
          "l @ drop k (lines_text (a # ls) @ r) = lines_text ms @ r"
        unfolding i(4) [symmetric] using i(1) by simp_all
      then show ?thesis
        using i(3) by blast
    qed
  qed
  then show ?thesis
    using that by blast
qed


lemma read_file: "in_offer s = [] \<Longrightarrow> in_data s \<noteq> [] \<Longrightarrow> 0 < n \<Longrightarrow>
    read_in n s = (Some (take n (in_data s)), s\<lparr>in_data := drop n (in_data s)\<rparr>)"
  by (cases s) (simp add: read_in_def)

lemma grep_loop_file:
  assumes "\<forall>l \<in> set ls. plain l \<and> length l < 1023" "plain r" "b @ in_data s = lines_text ls @ r" "plain b" "length b < 1023" "in_offer s = []"
  shows "grep_loop pattern b s = printed pattern ls"
  using assms
proof (induction "length (in_data s)" arbitrary: ls r b s rule: less_induct)
  case less
  have p: "\<forall>l \<in> set ls. plain l"
    using less.prems(1) by blast
  show ?case
  proof (cases "in_data s = []")
    case True
    then have "plain (lines_text ls @ r)"
      using less.prems(3,4) by simp
    then have "ls = []"
      by (cases ls) (auto simp: plain_def)
    then show ?thesis
      using True by (simp add: grep_loop.simps [of pattern b] read_in_def printed_def)
  next
    case False
    let ?n = "1023 - length b" and ?K = "length b + (1023 - length b)"
    let ?t = "s\<lparr>in_data := drop ?n (in_data s)\<rparr>" and ?B = "b @ take ?n (in_data s)"
    have n: "0 < ?n" "?K = 1023"
      using less.prems(5) by simp_all
    have B: "?B = take 1023 (lines_text ls @ r)" "drop ?n (in_data s) = drop 1023 (lines_text ls @ r)"
      using less.prems(3) n(2) by (simp_all add: less.prems(3) [symmetric] take_append drop_append del: append_assoc)
    obtain ks l ms where k: "ls = ks @ ms" "?B = lines_text ks @ l" "plain l" "l @ drop ?n (in_data s) = lines_text ms @ r"
      unfolding B by (rule take_lines [OF p less.prems(2)])
    have g: "grep_lines pattern ?B = (printed pattern ks, l)"
      unfolding k(2) using p k(1,3) by (intro grep_lines_text) auto
    have "take ?n (in_data s) \<noteq> []"
      using False n(1) by simp
    then obtain c cs where c: "take ?n (in_data s) = c # cs"
      by (cases "take ?n (in_data s)") auto
    have r: "read_in (1024 - length b - 1) s = (Some (c # cs), ?t)"
      using read_file [OF less.prems(6) False n(1)] c by simp
    have u: "grep_loop pattern b s = printed pattern ks @ grep_loop pattern (if l = ?B then [] else l) ?t"
      using g unfolding grep_loop.simps [of pattern b s] r c by (simp add: Let_def)
    have d: "length (in_data ?t) < length (in_data s)"
      using read_in_shorter [OF r] by simp
    show ?thesis
    proof (cases "ks = []")
      case True
      have "ls = []"
      proof (rule ccontr)
        assume "ls \<noteq> []"
        then obtain a as where a: "ls = a # as"
          by (cases ls) auto
        then have "NL \<in> set (take 1023 (lines_text ls @ r))"
          using less.prems(1) by (simp add: take_Cons')
        then show False
          using B(1) k(2,3) True by (simp add: plain_def)
      qed
      then have "plain (drop ?n (in_data s))"
        using less.prems(2) k(1,4) by (auto simp: plain_def)
      then have "grep_loop pattern [] ?t = printed pattern []"
        using less.prems(6) by (intro less.hyps [OF d]) (simp_all add: plain_def)
      then show ?thesis
        using u k(2) True \<open>ls = []\<close> by (simp add: printed_def)
    next
      case False
      then obtain a as where a: "ks = a # as"
        by (cases ks) auto
      have "length ?B \<le> 1023"
        unfolding B(1) by simp
      then have l: "length l < 1023" "l \<noteq> ?B"
        unfolding k(2) a by simp_all
      have "grep_loop pattern l ?t = printed pattern ms"
        using less.prems(1,2,6) k(1,3,4) l(1) by (intro less.hyps [OF d]) simp_all
      then show ?thesis
        using u l(2) k(1) by (simp add: printed_def)
    qed
  qed
qed

section \<open>Properties\<close>

text \<open>
  C34: The matcher accepts exactly what its pattern means: reading the pattern as a list of single and starred characters, with
  \<^verbatim>\<open>.\<close> for any character, it finds a match exactly when some part of the line (the beginning, if the pattern starts with
  \<^verbatim>\<open>^\<close>, and up to the end of the line, if it ends in \<^verbatim>\<open>$\<close>) is a concatenation of strings that the items stand for.
\<close>

theorem match_equiv:
  "match re tx \<longleftrightarrow>
     (if re \<noteq> [] \<and> hd re = CHR ''^'' then \<exists>u v. tx = u @ v \<and> u \<in> lang (items (tl re)) \<and> (at_end (tl re) \<longrightarrow> v = [])
      else \<exists>a u v. tx = a @ u @ v \<and> u \<in> lang (items re) \<and> (at_end re \<longrightarrow> v = []))"
  unfolding match_def match_from_suffix matchhere_items prefix_in_def by auto

theorem match_equiv_witness:
  "match ''b*c$'' ''abbc'' \<and> (\<exists>a u. ''abbc'' = a @ u \<and> u \<in> lang (items ''b*c$''))"
proof -
  have m: "match ''b*c$'' ''abbc''" and e: "at_end ''b*c$''"
    by code_simp+
  then show ?thesis
    using match_equiv [of "''b*c$''" "''abbc''"] by auto
qed

text \<open>
  C35: \<^verbatim>\<open>grep\<close> on a file without \<^verbatim>\<open>NUL\<close> characters whose lines have fewer than 1023 characters prints exactly the lines that match, in
  their order, although the file is read in pieces that cut lines; what follows the last newline is never looked at.
\<close>

theorem grep_prints_matching_lines:
  assumes "in_data s = concat (map (\<lambda>l. l @ [NL]) ls) @ r" "in_offer s = []"
    "\<forall>l \<in> set (r # ls). NL \<notin> set l \<and> NUL \<notin> set l" "\<forall>l \<in> set ls. length l < 1023"
  shows "grep pattern s = map (\<lambda>l. l @ [NL]) (filter (match pattern) ls)"
  using grep_loop_file [of ls r "[]" s pattern] assms by (simp add: grep_def printed_def lines_text_def plain_def)

theorem grep_prints_matching_lines_witness:
  "grep ''^a.*c$'' \<lparr>in_data = ''abbc'' @ NL # ''bac'' @ NL # ''ac'', in_offer = [], in_fails = False\<rparr> = [''abbc'' @ [NL]]"
proof -
  have "match ''^a.*c$'' ''abbc''" "\<not> match ''^a.*c$'' ''bac''"
    by code_simp+
  then show ?thesis
    using grep_prints_matching_lines [of "\<lparr>in_data = ''abbc'' @ NL # ''bac'' @ NL # ''ac'', in_offer = [], in_fails = False\<rparr>"
        "[''abbc'', ''bac'']" "''ac''" "''^a.*c$''"] by simp
qed

text \<open>
  A read that gives a piece without a newline, as a pipe may, makes \<^verbatim>\<open>grep\<close> drop that piece and match the rest of the line
  as if it were a line.
\<close>

lemma grep_short_read_splits_line:
  "grep ''^c'' \<lparr>in_data = ''abc'' @ [NL], in_offer = [1], in_fails = False\<rparr> = [''c'' @ [NL]]" "\<not> match ''^c'' ''abc''"
  by code_simp+

end
