(* ===== verification/Printf_c.thy ===== *)
theory Printf_c
  imports Ulib_c Console_c
begin

text \<open>
  \<^verbatim>\<open>printf\<close> of user programs (\<^verbatim>\<open>printf.c\<close>).  An argument is a word or a string pointer, which may be null; the result is
  the characters written one by one with \<^verbatim>\<open>putc\<close>, or no value when the arguments do not fit the format.
\<close>

section \<open>Definitions\<close>

definition DIGITS :: string where "DIGITS = ''0123456789ABCDEF''"

definition uprintint :: "uint \<Rightarrow> nat \<Rightarrow> bool \<Rightarrow> string option" where
  "uprintint xx base sg =
     (let neg = sg \<and> sint xx < 0;
          x = (if neg then - xx else xx);
          buf = map (\<lambda>d. DIGITS ! d) (print_digits base (unat x)) @ (if neg then ''-'' else [])
      in if length buf > 16 then None else Some (rev buf))"

datatype parg = Word uint | Str "string option"

text \<open>The loop over the format; \<^verbatim>\<open>pct\<close> is \<^verbatim>\<open>state == '%'\<close>.\<close>

fun printf_loop :: "bool \<Rightarrow> string \<Rightarrow> parg list \<Rightarrow> string option" where
  "printf_loop pct [] args = Some []"
| "printf_loop False (c # fmt) args =
     (if c = CHR ''%'' then printf_loop True fmt args else map_option ((#) c) (printf_loop False fmt args))"
| "printf_loop True (c # fmt) args =
     (if c = CHR ''d'' then
        (case args of Word a # args \<Rightarrow> Option.bind (uprintint a 10 True) (\<lambda>s. map_option ((@) s) (printf_loop False fmt args)) | _ \<Rightarrow> None)
      else if c = CHR ''x'' \<or> c = CHR ''p'' then
        (case args of Word a # args \<Rightarrow> Option.bind (uprintint a 16 False) (\<lambda>s. map_option ((@) s) (printf_loop False fmt args)) | _ \<Rightarrow> None)
      else if c = CHR ''s'' then
        (case args of
           Str s # args \<Rightarrow> map_option ((@) (case s of None \<Rightarrow> ''(null)'' | Some s \<Rightarrow> s)) (printf_loop False fmt args)
         | _ \<Rightarrow> None)
      else if c = CHR ''c'' then
        (case args of Word a # args \<Rightarrow> map_option ((#) (char_of (unat a))) (printf_loop False fmt args) | _ \<Rightarrow> None)
      else if c = CHR ''%'' then map_option ((#) c) (printf_loop False fmt args)
      else map_option (\<lambda>s. CHR ''%'' # c # s) (printf_loop False fmt args))"

definition printf :: "string \<Rightarrow> parg list \<Rightarrow> string option" where
  "printf fmt args = printf_loop False fmt args"

section \<open>Numbers\<close>

lemma DIGITS_nth: "d < 10 \<Longrightarrow> DIGITS ! d = char_of (48 + d)"
proof -
  assume "d < 10"
  then have "d \<in> {0, 1, 2, 3, 4, 5, 6, 7, 8, 9}"
    by auto
  then show ?thesis
    by (auto simp: DIGITS_def char_of_def bit_0)
qed

lemma of_char_digit: "d < 10 \<Longrightarrow> (of_char (char_of (48 + d)) :: uint) = 48 + of_nat d"
  using of_nat_of_char [of "char_of (48 + d)", where ?'a = uint] by simp

lemma atoi_loop_digits: "\<forall>d \<in> set ds. d < 10 \<Longrightarrow> atoi_loop n (map (\<lambda>d. DIGITS ! d) ds) = fold (\<lambda>d n. n * 10 + of_nat d) ds n"
  by (induction ds arbitrary: n) (auto simp: DIGITS_nth of_char_digit)

lemma fold_rev_digits: "fold (\<lambda>d n. n * 10 + of_nat d) (rev ds) (n :: uint) = n * 10 ^ length ds + of_nat (foldr (\<lambda>d v. d + 10 * v) ds 0)"
  by (induction ds arbitrary: n) (simp_all add: algebra_simps)

text \<open>The number a string of decimal digits stands for.\<close>

definition decimal :: "string \<Rightarrow> nat" where
  "decimal s = foldl (\<lambda>v c. 10 * v + (of_char c - 48)) 0 s"

lemma decimal_digits:
  assumes "\<forall>d \<in> set ds. d < 10"
  shows "decimal (map (\<lambda>d. DIGITS ! d) (rev ds)) = foldr (\<lambda>d v. d + 10 * v) ds 0"
  using assms by (induction ds) (simp_all add: decimal_def DIGITS_nth)

text \<open>What \<^verbatim>\<open>printint\<close> writes for a number in base 10 before the sign is put in front.\<close>

lemma digits_ok:
  fixes y :: uint
  defines "ds \<equiv> map (\<lambda>d. DIGITS ! d) (rev (print_digits 10 (unat y)))"
  shows "length ds \<le> 10" "ds \<noteq> []" "set ds \<subseteq> set ''0123456789''" "hd ds = CHR ''0'' \<longleftrightarrow> y = 0" "decimal ds = unat y" "atoi ds = y"
proof -
  note S = print_digits_spec [of 10 "unat y", simplified]
  have d: "d < 10" if "d \<in> set (print_digits 10 (unat y))" for d
    using S that by blast
  have "unat y < 10 ^ 10"
    by (rule less_trans [OF unat_uint_less]) simp
  then show "length ds \<le> 10"
    unfolding ds_def by (simp add: print_digits_length)
  show "ds \<noteq> []" "decimal ds = unat y" "atoi ds = y"
    using S by (simp_all add: ds_def decimal_digits atoi_def atoi_loop_digits fold_rev_digits)
  have D: "DIGITS ! d \<in> set ''0123456789'' \<and> (DIGITS ! d = CHR ''0'' \<longleftrightarrow> d = 0)" if "d < 10" for d
  proof -
    have "d \<in> {0, 1, 2, 3, 4, 5, 6, 7, 8, 9}"
      using that by auto
    then show ?thesis
      by (auto simp: DIGITS_def)
  qed
  show "set ds \<subseteq> set ''0123456789''"
    using d D by (auto simp: ds_def)
  have "hd ds = DIGITS ! last (print_digits 10 (unat y))" "last (print_digits 10 (unat y)) < 10"
    using S d by (simp_all add: ds_def hd_map hd_rev)
  moreover have "last (print_digits 10 (unat y)) = 0 \<longleftrightarrow> y = 0"
    using S by (auto simp: print_digits.simps [of 10 0] unat_eq_0)
  ultimately show "hd ds = CHR ''0'' \<longleftrightarrow> y = 0"
    using D by auto
qed

section \<open>Properties\<close>

text \<open>
  C37: Numbers survive printing and reading: for every word \<^verbatim>\<open>printf("%d", x)\<close> fits its buffer and writes a minus sign exactly
  if \<^verbatim>\<open>x\<close> is negative as an \<^verbatim>\<open>int\<close>, followed by one or more decimal digits, the first of them 0 only for the number 0, that
  stand for the absolute value, the least integer included; and \<^verbatim>\<open>atoi\<close> of these digits is the absolute value again.
\<close>

theorem printf_atoi:
  "\<exists>ds. printf ''%d'' [Word x] = Some ((if sint x < 0 then ''-'' else []) @ ds) \<and> ds \<noteq> [] \<and> set ds \<subseteq> set ''0123456789'' \<and>
     (hd ds = CHR ''0'' \<longleftrightarrow> x = 0) \<and> int (decimal ds) = \<bar>sint x\<bar> \<and> atoi ds = (if sint x < 0 then - x else x)"
proof -
  define y where "y = (if sint x < 0 then - x else x)"
  note D = digits_ok [of y]
  have "printf ''%d'' [Word x] = Some ((if sint x < 0 then ''-'' else []) @ map (\<lambda>d. DIGITS ! d) (rev (print_digits 10 (unat y))))"
    using D(1) by (auto simp: printf_def uprintint_def Let_def rev_map y_def)
  moreover have "int (unat y) = \<bar>sint x\<bar>" "y = 0 \<longleftrightarrow> x = 0"
    using sint_neg_uint [of x] sint_nonneg_uint [of x] by (auto simp: y_def)
  ultimately show ?thesis
    using D(2-6) by (intro exI [of _ "map (\<lambda>d. DIGITS ! d) (rev (print_digits 10 (unat y)))"]) (simp add: y_def)
qed

end
