(* ===== verification/Cmds_c.thy ===== *)
theory Cmds_c
  imports Grep_c Printf_c
begin

text \<open>
  The small programs: \<^verbatim>\<open>cat.c\<close>, \<^verbatim>\<open>wc.c\<close>, \<^verbatim>\<open>echo.c\<close>, \<^verbatim>\<open>kill.c\<close>, \<^verbatim>\<open>ln.c\<close>, \<^verbatim>\<open>rm.c\<close>, \<^verbatim>\<open>mkdir.c\<close>, \<^verbatim>\<open>ls.c\<close> and the main function of \<^verbatim>\<open>grep.c\<close>.  A program is a
  function to the list of system calls it makes; \<^verbatim>\<open>printf\<close> counts as one call with the text it writes.  What the kernel
  answers is an argument: \<^verbatim>\<open>sys h c\<close> is the result of call \<^verbatim>\<open>c\<close> after the calls \<^verbatim>\<open>h\<close>, \<^verbatim>\<open>files\<close> gives the input
  behind a name that can be opened.
\<close>

section \<open>Calls\<close>

datatype ucall =
  Print nat string
| Write nat string
| Unlink string
| Link string string
| Mkdir string
| Kill int

type_synonym kernel = "ucall list \<Rightarrow> ucall \<Rightarrow> int"

definition print :: "nat \<Rightarrow> string \<Rightarrow> parg list \<Rightarrow> ucall list" where
  "print fd fmt args = (case printf fmt args of None \<Rightarrow> [] | Some s \<Rightarrow> [Print fd s])"

section \<open>Programs that make one call for each argument\<close>

fun echo_loop :: "string list \<Rightarrow> ucall list" where
  "echo_loop [] = []"
| "echo_loop (a # as) = print 1 ''%s%s'' [Str (Some a), Str (Some (if as \<noteq> [] then '' '' else [NL]))] @ echo_loop as"

definition echo :: "string list \<Rightarrow> ucall list" where
  "echo argv = echo_loop (tl argv)"

definition kill_main :: "string list \<Rightarrow> ucall list" where
  "kill_main argv =
     (if length argv < 2 then print 2 (''usage: kill pid...'' @ [NL]) []
      else map (\<lambda>a. Kill (sint (atoi a))) (tl argv))"

definition ln_main :: "kernel \<Rightarrow> string list \<Rightarrow> ucall list" where
  "ln_main sys argv =
     (if length argv \<noteq> 3 then print 2 (''Usage: ln old new'' @ [NL]) []
      else
        let c = Link (argv ! 1) (argv ! 2)
        in c # (if sys [] c < 0 then print 2 (''link %s %s: failed'' @ [NL]) [Str (Some (argv ! 1)), Str (Some (argv ! 2))] else []))"

fun rm_loop :: "kernel \<Rightarrow> ucall list \<Rightarrow> string list \<Rightarrow> ucall list" where
  "rm_loop sys h [] = h"
| "rm_loop sys h (a # as) =
     (if sys h (Unlink a) < 0 then h @ Unlink a # print 2 (''rm: %s failed to delete'' @ [NL]) [Str (Some a)]
      else rm_loop sys (h @ [Unlink a]) as)"

definition rm_main :: "kernel \<Rightarrow> string list \<Rightarrow> ucall list" where
  "rm_main sys argv = (if length argv < 2 then print 2 (''Usage: rm files...'' @ [NL]) [] else rm_loop sys [] (tl argv))"

fun mkdir_loop :: "kernel \<Rightarrow> ucall list \<Rightarrow> string list \<Rightarrow> ucall list" where
  "mkdir_loop sys h [] = h"
| "mkdir_loop sys h (a # as) =
     (if sys h (Mkdir a) < 0 then h @ Mkdir a # print 2 (''mkdir: %s failed to create'' @ [NL]) [Str (Some a)]
      else mkdir_loop sys (h @ [Mkdir a]) as)"

definition mkdir_main :: "kernel \<Rightarrow> string list \<Rightarrow> ucall list" where
  "mkdir_main sys argv = (if length argv < 2 then print 2 (''Usage: mkdir files...'' @ [NL]) [] else mkdir_loop sys [] (tl argv))"

section \<open>Filters\<close>

text \<open>\<^verbatim>\<open>cat\<close> of an open file: whether it called \<^verbatim>\<open>exit\<close>, and the calls up to then.\<close>

function cat :: "kernel \<Rightarrow> ucall list \<Rightarrow> input \<Rightarrow> bool \<times> ucall list" where
  "cat sys h s =
     (case read_in 512 s of
        (Some (c # cs), t) \<Rightarrow>
          (let w = Write 1 (c # cs) in
           if sys h w \<noteq> int (length (c # cs)) then (True, h @ w # print 1 (''cat: write error'' @ [NL]) [])
           else cat sys (h @ [w]) t)
      | (Some [], t) \<Rightarrow> (False, h)
      | (None, t) \<Rightarrow> (True, h @ print 1 (''cat: read error'' @ [NL]) []))"
  by pat_completeness auto
termination
  by (relation "measure (\<lambda>(sys, h, s). length (in_data s))") (auto dest!: read_in_shorter [OF sym])

declare cat.simps [simp del]

fun cat_files :: "kernel \<Rightarrow> (string \<Rightarrow> input option) \<Rightarrow> ucall list \<Rightarrow> string list \<Rightarrow> ucall list" where
  "cat_files sys files h [] = h"
| "cat_files sys files h (a # as) =
     (case files a of
        None \<Rightarrow> h @ print 1 (''cat: cannot open %s'' @ [NL]) [Str (Some a)]
      | Some s \<Rightarrow> (case cat sys h s of (True, h) \<Rightarrow> h | (False, h) \<Rightarrow> cat_files sys files h as))"

definition cat_main :: "kernel \<Rightarrow> (string \<Rightarrow> input option) \<Rightarrow> input \<Rightarrow> string list \<Rightarrow> ucall list" where
  "cat_main sys files stdin argv = (if length argv \<le> 1 then snd (cat sys [] stdin) else cat_files sys files [] (tl argv))"

record counts =
  wl :: nat
  ww :: nat
  wch :: nat
  inword :: bool

text \<open>The body of the inner loop of \<^verbatim>\<open>wc\<close> for one character.\<close>

definition wc_char :: "char \<Rightarrow> counts \<Rightarrow> counts" where
  "wc_char x n =
     (let n = n\<lparr>wch := wch n + 1\<rparr>;
          n = (if x = NL then n\<lparr>wl := wl n + 1\<rparr> else n)
      in if strchr [CHR '' '', CHR 0x0D, CHR 0x09, NL, CHR 0x0B] x \<noteq> None then n\<lparr>inword := False\<rparr>
         else if \<not> inword n then n\<lparr>ww := ww n + 1, inword := True\<rparr>
         else n)"

function wc_loop :: "counts \<Rightarrow> input \<Rightarrow> counts option" where
  "wc_loop n s =
     (case read_in 512 s of
        (Some (c # cs), t) \<Rightarrow> wc_loop (fold wc_char (c # cs) n) t
      | (Some [], t) \<Rightarrow> Some n
      | (None, t) \<Rightarrow> None)"
  by pat_completeness auto
termination
  by (relation "measure (\<lambda>(n, s). length (in_data s))") (auto dest!: read_in_shorter [OF sym])

declare wc_loop.simps [simp del]

definition wc :: "input \<Rightarrow> string \<Rightarrow> bool \<times> ucall list" where
  "wc s name =
     (case wc_loop \<lparr>wl = 0, ww = 0, wch = 0, inword = False\<rparr> s of
        None \<Rightarrow> (True, print 1 (''wc: read error'' @ [NL]) [])
      | Some n \<Rightarrow> (False, print 1 (''%d %d %d %s'' @ [NL]) [Word (of_nat (wl n)), Word (of_nat (ww n)), Word (of_nat (wch n)), Str (Some name)]))"

fun wc_files :: "(string \<Rightarrow> input option) \<Rightarrow> string list \<Rightarrow> ucall list" where
  "wc_files files [] = []"
| "wc_files files (a # as) =
     (case files a of
        None \<Rightarrow> print 1 (''wc: cannot open %s'' @ [NL]) [Str (Some a)]
      | Some s \<Rightarrow> (case wc s a of (True, h) \<Rightarrow> h | (False, h) \<Rightarrow> h @ wc_files files as))"

definition wc_main :: "(string \<Rightarrow> input option) \<Rightarrow> input \<Rightarrow> string list \<Rightarrow> ucall list" where
  "wc_main files stdin argv = (if length argv \<le> 1 then snd (wc stdin []) else wc_files files (tl argv))"

fun grep_files :: "string \<Rightarrow> (string \<Rightarrow> input option) \<Rightarrow> string list \<Rightarrow> ucall list" where
  "grep_files pattern files [] = []"
| "grep_files pattern files (a # as) =
     (case files a of
        None \<Rightarrow> print 1 (''grep: cannot open %s'' @ [NL]) [Str (Some a)]
      | Some s \<Rightarrow> map (Write 1) (grep pattern s) @ grep_files pattern files as)"

definition grep_main :: "(string \<Rightarrow> input option) \<Rightarrow> input \<Rightarrow> string list \<Rightarrow> ucall list" where
  "grep_main files stdin argv =
     (if length argv \<le> 1 then print 2 (''usage: grep pattern [file ...]'' @ [NL]) []
      else if length argv \<le> 2 then map (Write 1) (grep (argv ! 1) stdin)
      else grep_files (argv ! 1) files (drop 2 argv))"


text \<open>The name as \<^verbatim>\<open>ls\<close> prints it: what follows the last slash, padded with blanks to \<^verbatim>\<open>DIRSIZ\<close> characters.\<close>

definition fmtname :: "string \<Rightarrow> string" where
  "fmtname path =
     (let p = rev (takeWhile (\<lambda>c. c \<noteq> CHR ''/'') (rev path))
      in if length p \<ge> 14 then p else p @ replicate (14 - length p) (CHR '' ''))"

section \<open>What the filters do\<close>

lemma wc_loop_fold: "wc_loop n s = (if in_fails s then None else Some (fold wc_char (in_data s) n))"
proof (induction n s rule: wc_loop.induct)
  case (1 n s)
  obtain r t where r: "read_in 512 s = (r, t)"
    by fastforce
  consider "r = None" | "r = Some []" | c cs where "r = Some (c # cs)"
    by (metis list.exhaust option.exhaust)
  then show ?case
  proof cases
    case 3
    have d: "in_data s = (c # cs) @ in_data t" "in_fails t = in_fails s"
      using read_in_shorter [of 512 s "c # cs" t] r 3 by simp_all
    have "wc_loop n s = wc_loop (fold wc_char (c # cs) n) t"
      using r 3 by (simp add: wc_loop.simps [of n s])
    then show ?thesis
      using 1 [of r t "c # cs" c cs] r 3 d by simp
  qed (use r read_in_end [of 512 s t] read_in_fail [of 512 s t] in \<open>simp_all add: wc_loop.simps [of n s]\<close>)
qed

text \<open>The words of a text: the longest stretches without a blank character.\<close>

definition blank :: "char \<Rightarrow> bool" where
  "blank x \<longleftrightarrow> x \<in> {CHR '' '', CHR 0x0D, CHR 0x09, NL, CHR 0x0B}"

fun words :: "string \<Rightarrow> string list" where
  "words [] = []"
| "words (x # xs) =
     (if blank x then words xs
      else case xs of
        [] \<Rightarrow> [[x]]
      | y # _ \<Rightarrow> if blank y then [x] # words xs else (case words xs of [] \<Rightarrow> [[x]] | w # ws \<Rightarrow> (x # w) # ws))"

lemma strchr_blank: "strchr [CHR '' '', CHR 0x0D, CHR 0x09, NL, CHR 0x0B] x \<noteq> None \<longleftrightarrow> blank x"
  by (auto simp: blank_def)

lemma words_nonempty: "xs \<noteq> [] \<Longrightarrow> \<not> blank (hd xs) \<Longrightarrow> words xs \<noteq> []"
  by (cases xs) (auto split: list.splits)

lemma words_length:
  "length (words (x # xs)) = (if blank x then length (words xs) else if xs \<noteq> [] \<and> \<not> blank (hd xs) then length (words xs) else Suc (length (words xs)))"
  using words_nonempty [of xs] by (cases xs) (auto simp del: words.simps simp: words.simps(2) [of x] words.simps(1) split: list.splits)

lemma wc_char_simps:
  "wl (wc_char x n) = (if x = NL then Suc (wl n) else wl n)" "wch (wc_char x n) = Suc (wch n)" "inword (wc_char x n) \<longleftrightarrow> \<not> blank x"
  "ww (wc_char x n) = (if blank x \<or> inword n then ww n else Suc (ww n))"
  using strchr_blank [of x] by (auto simp: wc_char_def Let_def)

lemma wc_fold:
  "wl (fold wc_char xs n) = wl n + count_list xs NL" "wch (fold wc_char xs n) = wch n + length xs"
  "ww (fold wc_char xs n) + (if xs \<noteq> [] \<and> \<not> blank (hd xs) \<and> inword n then 1 else 0) = ww n + length (words xs)"
proof -
  show "wl (fold wc_char xs n) = wl n + count_list xs NL" "wch (fold wc_char xs n) = wch n + length xs"
    by (induction xs arbitrary: n) (simp_all add: wc_char_simps)
  show "ww (fold wc_char xs n) + (if xs \<noteq> [] \<and> \<not> blank (hd xs) \<and> inword n then 1 else 0) = ww n + length (words xs)"
  proof (induction xs arbitrary: n)
    case (Cons x xs)
    show ?case
      using Cons [of "wc_char x n"] by (auto simp: wc_char_simps words_length split: if_splits simp del: words.simps(2))
  qed simp
qed

text \<open>
  C38: \<^verbatim>\<open>wc\<close> prints the number of newlines, of words and of characters of its input, whatever the sizes of the pieces in which
  the input is read; a word is a longest stretch without a blank, also when a read ends inside it.
\<close>

theorem wc_counts:
  "wc s name =
     (if in_fails s then (True, print 1 (''wc: read error'' @ [NL]) [])
      else (False, print 1 (''%d %d %d %s'' @ [NL])
        [Word (of_nat (count_list (in_data s) NL)), Word (of_nat (length (words (in_data s)))), Word (of_nat (length (in_data s))), Str (Some name)]))"
  using wc_fold [of "in_data s" "\<lparr>wl = 0, ww = 0, wch = 0, inword = False\<rparr>"] by (simp add: wc_def wc_loop_fold)

text \<open>\<^verbatim>\<open>cat\<close> copies its input as long as the writes succeed.\<close>

lemma cat_copies:
  assumes "\<And>h bs. sys h (Write 1 bs) = int (length bs)" "\<not> in_fails s"
  shows "\<exists>ws. cat sys h s = (False, h @ map (Write 1) ws) \<and> concat ws = in_data s"
  using assms(2)
proof (induction "length (in_data s)" arbitrary: h s rule: less_induct)
  case less
  obtain r t where r: "read_in 512 s = (r, t)"
    by fastforce
  consider "r = None" | "r = Some []" | c cs where "r = Some (c # cs)"
    by (metis list.exhaust option.exhaust)
  then show ?case
  proof cases
    case 3
    have d: "in_data s = (c # cs) @ in_data t" "in_fails t = in_fails s" "length (in_data t) < length (in_data s)"
      using read_in_shorter [of 512 s "c # cs" t] r 3 by simp_all
    obtain ws where "cat sys (h @ [Write 1 (c # cs)]) t = (False, (h @ [Write 1 (c # cs)]) @ map (Write 1) ws)" "concat ws = in_data t"
      using less.hyps [OF d(3), of "h @ [Write 1 (c # cs)]"] less.prems d(2) by auto
    then show ?thesis
      using r 3 d(1) assms(1) by (intro exI [of _ "(c # cs) # ws"]) (simp add: cat.simps [of sys h s] Let_def)
  qed (use r less.prems read_in_end [of 512 s t] read_in_fail [of 512 s t] in \<open>auto simp: cat.simps [of sys h s] intro: exI [of _ "[]"]\<close>)
qed

end
