(* ===== verification/Sh_c.thy ===== *)
theory Sh_c
  imports Printf_c
begin

text \<open>
  The shell (\<^verbatim>\<open>sh.c\<close>).  The line is a list of characters without its terminator, and pointers into it are indices.  A
  command refers to its words by the indices of their first character and of the one after the last, as \<^verbatim>\<open>argv\<close> and
  \<^verbatim>\<open>eargv\<close> do.  \<^verbatim>\<open>malloc\<close> is taken to succeed.  The parsing functions call each other; they run on fuel,
  which is shown to be enough.
\<close>

section \<open>Commands\<close>

type_synonym word_at = "nat \<times> nat"

datatype cmd =
  EXEC "word_at list"
| REDIR cmd word_at nat nat
| PIPE cmd cmd
| LIST cmd cmd
| BACK cmd

definition MAXARGS :: nat where "MAXARGS = 10"
definition O_RDONLY :: nat where "O_RDONLY = 0"
definition O_WRONLY :: nat where "O_WRONLY = 1"
definition O_RDWR :: nat where "O_RDWR = 2"
definition O_CREATE :: nat where "O_CREATE = 0x200"

datatype perr = Syntax string | Leftovers string | OutOfFuel

section \<open>Tokens\<close>

definition whitespace :: string where "whitespace = [CHR '' '', CHR 0x09, CHR 0x0D, NL, CHR 0x0B]"
definition symbols :: string where "symbols = ''<|>&;()''"

definition chr_at :: "string \<Rightarrow> nat \<Rightarrow> char" where
  "chr_at b i = (if i < length b then b ! i else NUL)"

definition is_ws :: "char \<Rightarrow> bool" where
  "is_ws c \<longleftrightarrow> strchr whitespace c \<noteq> None"

definition is_sym :: "char \<Rightarrow> bool" where
  "is_sym c \<longleftrightarrow> strchr symbols c \<noteq> None"

function skip_while :: "(char \<Rightarrow> bool) \<Rightarrow> string \<Rightarrow> nat \<Rightarrow> nat" where
  "skip_while f b i = (if i < length b \<and> f (b ! i) then skip_while f b (i + 1) else i)"
  by pat_completeness auto
termination
  by (relation "measure (\<lambda>(f, b, i). length b - i)") auto

declare skip_while.simps [simp del]

definition skip_ws :: "string \<Rightarrow> nat \<Rightarrow> nat" where
  "skip_ws b i = skip_while is_ws b i"

text \<open>\<^verbatim>\<open>gettoken\<close>: the kind of token, where it starts and ends, and where parsing goes on.\<close>

definition gettoken :: "string \<Rightarrow> nat \<Rightarrow> char \<times> word_at \<times> nat" where
  "gettoken b i =
     (let q = skip_ws b i;
          c = chr_at b q;
          (ret, s) =
            (if c = NUL then (c, q)
             else if c \<in> set ''|();&<'' then (c, q + 1)
             else if c = CHR ''>'' then (if chr_at b (q + 1) = CHR ''>'' then (CHR ''+'', q + 2) else (c, q + 1))
             else (CHR ''a'', skip_while (\<lambda>c. \<not> is_ws c \<and> \<not> is_sym c) b q))
      in (ret, (q, s), skip_ws b s))"

definition peek :: "string \<Rightarrow> nat \<Rightarrow> string \<Rightarrow> bool \<times> nat" where
  "peek b i toks = (let s = skip_ws b i in (chr_at b s \<noteq> NUL \<and> strchr toks (chr_at b s) \<noteq> None, s))"

lemma skip_while_props:
  "i \<le> skip_while f b i" "i \<le> length b \<Longrightarrow> skip_while f b i \<le> length b"
  "\<forall>j. i \<le> j \<and> j < skip_while f b i \<longrightarrow> f (b ! j)" "skip_while f b i < length b \<Longrightarrow> \<not> f (b ! skip_while f b i)"
proof (induction f b i rule: skip_while.induct)
  case (1 f b i)
  have u: "skip_while f b i = (if i < length b \<and> f (b ! i) then skip_while f b (i + 1) else i)"
    by (rule skip_while.simps)
  {
    case 1
    then show ?case
      using "1.IH"(1) u by auto
  next
    case 2
    then show ?case
      using "1.IH"(2) u by auto
  next
    case 3
    then show ?case
      using "1.IH"(3) u by (auto simp: Suc_le_eq dest: le_neq_implies_less)
  next
    case 4
    then show ?case
      using "1.IH"(4) u by auto
  }
qed

lemma skip_while_less: "i < length b \<Longrightarrow> f (b ! i) \<Longrightarrow> i < skip_while f b i"
  using skip_while_props(1) [of "i + 1" f b] by (simp add: skip_while.simps [of f b i])


lemma skip_ws_props:
  "i \<le> skip_ws b i" "i \<le> length b \<Longrightarrow> skip_ws b i \<le> length b" "skip_ws b i < length b \<Longrightarrow> \<not> is_ws (b ! skip_ws b i)"
  using skip_while_props [where i = i and f = is_ws and b = b] by (simp_all add: skip_ws_def)

lemma skip_ws_idem: "i < length b \<Longrightarrow> \<not> is_ws (b ! i) \<Longrightarrow> skip_ws b i = i"
  by (simp add: skip_ws_def skip_while.simps [of is_ws b i])

text \<open>Where a token lies.\<close>

lemma gettoken_bounds:
  assumes "gettoken b i = (c, (q, e), j)"
  shows "q = skip_ws b i" "i \<le> q" "q \<le> e" "e \<le> j" "i \<le> length b \<Longrightarrow> j \<le> length b"
    "chr_at b q \<noteq> NUL \<Longrightarrow> c \<noteq> NUL \<and> q < e" "chr_at b q = NUL \<longleftrightarrow> c = NUL"
    "c = CHR ''a'' \<Longrightarrow> q < e \<and> e \<le> length b \<and> (\<forall>k. q \<le> k \<and> k < e \<longrightarrow> \<not> is_ws (b ! k) \<and> \<not> is_sym (b ! k)) \<and>
       (e < length b \<longrightarrow> is_ws (b ! e) \<or> is_sym (b ! e))"
proof -
  let ?q = "skip_ws b i" and ?f = "\<lambda>c. \<not> is_ws c \<and> \<not> is_sym c"
  let ?c = "chr_at b ?q" and ?w = "skip_while ?f b ?q"
  define rs where "rs = (if ?c = NUL then (?c, ?q) else if ?c \<in> set ''|();&<'' then (?c, ?q + 1)
    else if ?c = CHR ''>'' then (if chr_at b (?q + 1) = CHR ''>'' then (CHR ''+'', ?q + 2) else (?c, ?q + 1)) else (CHR ''a'', ?w))"
  have a: "q = ?q" "rs = (c, e)" "j = skip_ws b e"
    using assms unfolding gettoken_def Let_def rs_def [symmetric] by (auto split: prod.splits)
  have n: "?c \<noteq> NUL \<Longrightarrow> ?q < length b" "?c \<noteq> NUL \<Longrightarrow> ?c = b ! ?q" "chr_at b (?q + 1) = CHR ''>'' \<Longrightarrow> ?q + 1 < length b"
    by (auto simp: chr_at_def split: if_splits)
  have w: "?q < ?w \<and> ?w \<le> length b" if "?c \<noteq> NUL" "?c \<notin> set ''|();&<''" "?c \<noteq> CHR ''>''"
  proof -
    have "?f (b ! ?q)"
      using skip_ws_props(3) [of b i] n that by (auto simp: is_sym_def symbols_def)
    then show ?thesis
      using skip_while_less [of ?q b ?f] skip_while_props(2) [of ?q b ?f] n(1) [OF that(1)] by simp
  qed
  have e: "?c = NUL \<and> c = NUL \<and> e = ?q \<or> ?c \<noteq> NUL \<and> c \<noteq> NUL \<and> ?q < e \<and> e \<le> length b"
    using a(2) n w by (auto simp: rs_def split: if_splits)
  show "q = skip_ws b i"
    by (rule a(1))
  show "i \<le> q" "q \<le> e" "e \<le> j" "i \<le> length b \<Longrightarrow> j \<le> length b" "chr_at b q \<noteq> NUL \<Longrightarrow> c \<noteq> NUL \<and> q < e" "chr_at b q = NUL \<longleftrightarrow> c = NUL"
    using e a(1,3) skip_ws_props(1,2) [of i b] skip_ws_props(1,2) [of e b] by auto
  assume c: "c = CHR ''a''"
  have "e = ?w" "?c \<noteq> NUL"
    using a(2) c by (auto simp: rs_def split: if_splits)
  then show "q < e \<and> e \<le> length b \<and> (\<forall>k. q \<le> k \<and> k < e \<longrightarrow> \<not> is_ws (b ! k) \<and> \<not> is_sym (b ! k)) \<and>
       (e < length b \<longrightarrow> is_ws (b ! e) \<or> is_sym (b ! e))"
    using e a(1) skip_while_props(3,4) [where i = ?q and f = ?f and b = b] by auto
qed

lemma peek_bounds:
  assumes "peek b i toks = (r, j)"
  shows "j = skip_ws b i" "i \<le> j" "i \<le> length b \<Longrightarrow> j \<le> length b" "r \<Longrightarrow> j < length b \<and> chr_at b j \<noteq> NUL"
  using assms skip_ws_props [where i = i and b = b] by (auto simp: peek_def Let_def chr_at_def split: if_splits)


text \<open>After a successful \<^verbatim>\<open>peek\<close> a token is taken.\<close>

lemma peek_gettoken:
  assumes "peek b i toks = (True, j)" "gettoken b j = (c, (q, e), k)"
  shows "i \<le> j" "j < k" "k \<le> length b" "j < length b" "c \<noteq> NUL"
proof -
  note p = peek_bounds [OF assms(1)] and g = gettoken_bounds [OF assms(2)]
  have "skip_ws b j = j"
    using p(1,4) skip_ws_props(3) [of b i] by (intro skip_ws_idem) simp_all
  then show "i \<le> j" "j < k" "k \<le> length b" "j < length b" "c \<noteq> NUL"
    using p(2,4) g by simp_all
qed

lemma token_progress: "peek b i toks = (True, j) \<Longrightarrow> gettoken b j = (c, w, k) \<Longrightarrow> length b - k < length b - i"
  using peek_gettoken [of b i toks j c "fst w" "snd w" k] by simp

lemma redir_progress:
  "peek b i toks = (True, j) \<Longrightarrow> gettoken b j = (c, w, k) \<Longrightarrow> gettoken b k = (t, w', l) \<Longrightarrow> length b - l < length b - i"
  using peek_gettoken [of b i toks j c "fst w" "snd w" k] gettoken_bounds(2,3,4) [of b k t "fst w'" "snd w'" l] by simp

section \<open>Parsing\<close>

type_synonym redir = "word_at \<times> nat \<times> nat"

text \<open>The loop of \<^verbatim>\<open>parseredirs\<close>: the file, mode and descriptor of each redirection.  \<^verbatim>\<open>>>\<close> has the mode of \<^verbatim>\<open>>\<close>.\<close>

function parseredirs :: "string \<Rightarrow> nat \<Rightarrow> perr + (redir list \<times> nat)" where
  "parseredirs b i =
     (case peek b i ''<>'' of
        (False, i) \<Rightarrow> Inr ([], i)
      | (True, i) \<Rightarrow>
          (case gettoken b i of (tok, _, i) \<Rightarrow>
           case gettoken b i of (t, w, i) \<Rightarrow>
             if t \<noteq> CHR ''a'' then Inl (Syntax ''missing file for redirection'')
             else
               let r = (if tok = CHR ''<'' then (w, O_RDONLY, 0) else (w, O_WRONLY + O_CREATE, 1))
               in bindE (parseredirs b i) (\<lambda>(rs, j). Inr (r # rs, j))))"
  by pat_completeness auto
termination
  by (relation "measure (\<lambda>(b, i). length b - i)") (auto intro: redir_progress [OF sym sym sym])

declare parseredirs.simps [simp del]

text \<open>The loop of \<^verbatim>\<open>parseexec\<close> after \<^verbatim>\<open>n\<close> arguments: the words and redirections it finds.\<close>

function parseargs :: "string \<Rightarrow> nat \<Rightarrow> nat \<Rightarrow> perr + (word_at list \<times> redir list \<times> nat)" where
  "parseargs b i n =
     (case peek b i ''|)&;'' of
        (True, i) \<Rightarrow> Inr ([], [], i)
      | (False, i) \<Rightarrow>
          (case gettoken b i of (tok, w, i) \<Rightarrow>
             if tok = NUL then Inr ([], [], i)
             else if tok \<noteq> CHR ''a'' then Inl (Syntax ''syntax'')
             else if n + 1 \<ge> MAXARGS then Inl (Syntax ''too many args'')
             else
               bindE (parseredirs b i) (\<lambda>(rs, i).
               bindE (parseargs b i (n + 1)) (\<lambda>(as, rs', j). Inr (w # as, rs @ rs', j)))))"
  by pat_completeness auto
termination
  by (relation "measure (\<lambda>(b, i, n). MAXARGS - n)") auto

declare parseargs.simps [simp del]

text \<open>The \<^verbatim>\<open>&\<close> loop of \<^verbatim>\<open>parseline\<close>: how many there are.\<close>

function parseback :: "string \<Rightarrow> nat \<Rightarrow> nat \<times> nat" where
  "parseback b i =
     (case peek b i ''&'' of
        (True, i) \<Rightarrow> (case gettoken b i of (_, _, i) \<Rightarrow> case parseback b i of (k, j) \<Rightarrow> (Suc k, j))
      | (False, i) \<Rightarrow> (0, i))"
  by pat_completeness auto
termination
  by (relation "measure (\<lambda>(b, i). length b - i)") (auto intro: token_progress [OF sym sym])

declare parseback.simps [simp del]

definition redircmd :: "redir \<Rightarrow> cmd \<Rightarrow> cmd" where
  "redircmd r c = (case r of (w, mode, fd) \<Rightarrow> REDIR c w mode fd)"

text \<open>Skip a token that is not looked at.\<close>

definition skip_token :: "string \<Rightarrow> nat \<Rightarrow> nat" where
  "skip_token b i = snd (snd (gettoken b i))"

fun parseline :: "nat \<Rightarrow> string \<Rightarrow> nat \<Rightarrow> perr + (cmd \<times> nat)"
  and parsepipe :: "nat \<Rightarrow> string \<Rightarrow> nat \<Rightarrow> perr + (cmd \<times> nat)"
  and parseblock :: "nat \<Rightarrow> string \<Rightarrow> nat \<Rightarrow> perr + (cmd \<times> nat)"
  and parseexec :: "nat \<Rightarrow> string \<Rightarrow> nat \<Rightarrow> perr + (cmd \<times> nat)" where
  "parseline 0 b i = Inl OutOfFuel"
| "parseline (Suc n) b i =
     bindE (parsepipe n b i) (\<lambda>(c, i).
       case parseback b i of (k, i) \<Rightarrow>
         let c = (BACK ^^ k) c
         in case peek b i '';'' of
              (True, i) \<Rightarrow> bindE (parseline n b (skip_token b i)) (\<lambda>(d, i). Inr (LIST c d, i))
            | (False, i) \<Rightarrow> Inr (c, i))"
| "parsepipe 0 b i = Inl OutOfFuel"
| "parsepipe (Suc n) b i =
     bindE (parseexec n b i) (\<lambda>(c, i).
       case peek b i ''|'' of
         (True, i) \<Rightarrow> bindE (parsepipe n b (skip_token b i)) (\<lambda>(d, i). Inr (PIPE c d, i))
       | (False, i) \<Rightarrow> Inr (c, i))"
| "parseblock 0 b i = Inl OutOfFuel"
| "parseblock (Suc n) b i =
     (case peek b i ''('' of
        (False, i) \<Rightarrow> Inl (Syntax ''parseblock'')
      | (True, i) \<Rightarrow>
          bindE (parseline n b (skip_token b i)) (\<lambda>(c, i).
            case peek b i '')'' of
              (False, i) \<Rightarrow> Inl (Syntax ''syntax - missing )'')
            | (True, i) \<Rightarrow> bindE (parseredirs b (skip_token b i)) (\<lambda>(rs, i). Inr (fold redircmd rs c, i))))"
| "parseexec 0 b i = Inl OutOfFuel"
| "parseexec (Suc n) b i =
     (case peek b i ''('' of
        (True, i) \<Rightarrow> parseblock n b i
      | (False, i) \<Rightarrow>
          bindE (parseredirs b i) (\<lambda>(rs, i).
          bindE (parseargs b i 0) (\<lambda>(as, rs', i). Inr (fold redircmd (rs @ rs') (EXEC as), i))))"

text \<open>\<^verbatim>\<open>nulterminate\<close> writes a terminator behind every word of the command.\<close>

fun nulterminate :: "cmd \<Rightarrow> string \<Rightarrow> string" where
  "nulterminate (EXEC as) b = fold (\<lambda>(q, e) b. b[e := NUL]) as b"
| "nulterminate (REDIR c (q, e) mode fd) b = (nulterminate c b)[e := NUL]"
| "nulterminate (PIPE c d) b = nulterminate d (nulterminate c b)"
| "nulterminate (LIST c d) b = nulterminate d (nulterminate c b)"
| "nulterminate (BACK c) b = nulterminate c b"

text \<open>\<^verbatim>\<open>parsecmd\<close>: the command and the line with its terminators, or what is left of the line; the fuel is four calls for each character.\<close>

definition parsecmd :: "string \<Rightarrow> perr + (cmd \<times> string)" where
  "parsecmd s =
     bindE (parseline (4 * length s + 4) s 0) (\<lambda>(c, i).
       case peek s i [] of (_, i) \<Rightarrow>
         if i \<noteq> length s then Inl (Leftovers (drop i s)) else Inr (c, nulterminate c (s @ [NUL])))"


text \<open>The C string at an index of a buffer.\<close>

definition cstr_at :: "string \<Rightarrow> nat \<Rightarrow> string" where
  "cstr_at b q = takeWhile (\<lambda>c. c \<noteq> NUL) (drop q b)"

section \<open>Running\<close>

text \<open>
  What a process of the shell does: the calls it makes in order, those of a forked child inside the call of \<^verbatim>\<open>fork\<close>.  \<^verbatim>\<open>ok h a\<close>
  tells whether call \<^verbatim>\<open>a\<close> succeeds after the calls \<^verbatim>\<open>h\<close>.  \<^verbatim>\<open>p[0]\<close> and \<^verbatim>\<open>p[1]\<close> are the ends of the process's pipe.
\<close>

datatype act =
  Exit
| Exec "string list"
| Say string
| Close nat
| OpenFile string nat
| MkPipe
| DupEnd nat
| CloseEnd nat
| Fork "act list"
| Wait
| Chdir string

type_synonym answers = "act list \<Rightarrow> act \<Rightarrow> bool"

definition say :: "string \<Rightarrow> string \<Rightarrow> act" where
  "say fmt a = Say (case printf fmt [Str (Some a)] of None \<Rightarrow> [] | Some s \<Rightarrow> s)"

text \<open>\<^verbatim>\<open>panic\<close>, and \<^verbatim>\<open>fork1\<close> followed by the parent's calls.\<close>

definition panic_acts :: "string \<Rightarrow> act list" where
  "panic_acts s = [say (''%s'' @ [NL]) s, Exit]"

definition fork1 :: "answers \<Rightarrow> act list \<Rightarrow> act list \<Rightarrow> (act list \<Rightarrow> act list) \<Rightarrow> act list" where
  "fork1 ok h child parent =
     (let f = Fork child in if ok h f then f # parent (h @ [f]) else f # panic_acts ''fork'')"

text \<open>\<^verbatim>\<open>runcmd\<close>, which does not return; \<^verbatim>\<open>b\<close> is the line with its terminators.\<close>

fun runcmd :: "answers \<Rightarrow> string \<Rightarrow> cmd \<Rightarrow> act list \<Rightarrow> act list" where
  "runcmd ok b (EXEC as) h =
     (if as = [] then [Exit]
      else
        let argv = map (cstr_at b \<circ> fst) as; e = Exec argv
        in if ok h e then [e] else [e, say (''exec %s failed'' @ [NL]) (hd argv), Exit])"
| "runcmd ok b (REDIR c (q, e) mode fd) h =
     (let o1 = Close fd; o2 = OpenFile (cstr_at b q) mode
      in if \<not> ok (h @ [o1]) o2 then [o1, o2, say (''open %s failed'' @ [NL]) (cstr_at b q), Exit]
         else o1 # o2 # runcmd ok b c (h @ [o1, o2]))"
| "runcmd ok b (LIST c d) h = fork1 ok h (runcmd ok b c h) (\<lambda>h. Wait # runcmd ok b d (h @ [Wait]))"
| "runcmd ok b (PIPE c d) h =
     (if \<not> ok h MkPipe then MkPipe # panic_acts ''pipe''
      else
        let h = h @ [MkPipe];
            left = [Close 1, DupEnd 1, CloseEnd 0, CloseEnd 1];
            right = [Close 0, DupEnd 0, CloseEnd 0, CloseEnd 1]
        in MkPipe # fork1 ok h (left @ runcmd ok b c (h @ left)) (\<lambda>h.
             fork1 ok h (right @ runcmd ok b d (h @ right)) (\<lambda>h. [CloseEnd 0, CloseEnd 1, Wait, Wait, Exit])))"
| "runcmd ok b (BACK c) h = fork1 ok h (runcmd ok b c h) (\<lambda>h. [Exit])"

text \<open>
  The main loop for one line as \<^verbatim>\<open>gets\<close> leaves it: \<^verbatim>\<open>cd\<close> is done by the shell itself, with the last character cut off, any
  other line by a child.
\<close>

datatype job = Cd string | Child "perr + (cmd \<times> string)"

definition sh_line :: "string \<Rightarrow> job" where
  "sh_line buf = (if take 3 buf = ''cd '' then Cd (drop 3 (butlast buf)) else Child (parsecmd buf))"

text \<open>
  \<^verbatim>\<open>main\<close> opens the console until the three standard descriptors are there; \<^verbatim>\<open>fd n\<close> is what the \<^verbatim>\<open>n\<close>-th \<^verbatim>\<open>open\<close> returns.
\<close>

partial_function (option) sh_consoles :: "(nat \<Rightarrow> int) \<Rightarrow> nat \<Rightarrow> act list option" where
  "sh_consoles fd n =
     (let o1 = OpenFile ''console'' O_RDWR
      in if fd n < 0 then Some [o1]
         else if 3 \<le> fd n then Some [o1, Close (nat (fd n))]
         else Option.bind (sh_consoles fd (Suc n)) (\<lambda>as. Some (o1 # as)))"

text \<open>
  \<^verbatim>\<open>getcmd\<close> prompts and clears the buffer; what \<^verbatim>\<open>gets\<close> then leaves in it as a string is an argument, the empty string at the
  end of the input.
\<close>

definition getcmd :: "string \<Rightarrow> act list \<times> string option" where
  "getcmd line = ([Say ''$ ''], if line = [] then None else Some line)"

definition child_acts :: "answers \<Rightarrow> act list \<Rightarrow> perr + (cmd \<times> string) \<Rightarrow> act list" where
  "child_acts ok h r = (case r of
     Inl (Syntax msg) \<Rightarrow> panic_acts msg
   | Inl (Leftovers rest) \<Rightarrow> say (''leftovers: %s'' @ [NL]) rest # panic_acts ''syntax''
   | Inl OutOfFuel \<Rightarrow> []
   | Inr (c, b) \<Rightarrow> runcmd ok b c h)"

text \<open>The loop of \<^verbatim>\<open>main\<close> over the lines that \<^verbatim>\<open>gets\<close> delivers, after which it delivers nothing.\<close>

fun sh_loop :: "answers \<Rightarrow> string list \<Rightarrow> act list \<Rightarrow> act list" where
  "sh_loop ok [] h = fst (getcmd []) @ [Exit]"
| "sh_loop ok (line # lines) h = (case getcmd line of
     (as, None) \<Rightarrow> as @ [Exit]
   | (as, Some buf) \<Rightarrow> as @ (case sh_line buf of
         Cd d \<Rightarrow>
           let a = Chdir d; bs = (if ok (h @ as) a then [a] else [a, say (''cannot cd %s'' @ [NL]) d])
           in bs @ sh_loop ok lines (h @ as @ bs)
       | Child r \<Rightarrow>
           let f = Fork (child_acts ok (h @ as) r)
           in if ok (h @ as) f then f # Wait # sh_loop ok lines (h @ as @ [f, Wait]) else f # panic_acts ''fork''))"

section \<open>The parser returns, and its words lie in the line\<close>

definition word_ok :: "string \<Rightarrow> word_at \<Rightarrow> bool" where
  "word_ok b w \<longleftrightarrow> (case w of (q, e) \<Rightarrow> q < e \<and> e \<le> length b \<and>
     (\<forall>k. q \<le> k \<and> k < e \<longrightarrow> \<not> is_ws (b ! k) \<and> \<not> is_sym (b ! k)) \<and> (e < length b \<longrightarrow> is_ws (b ! e) \<or> is_sym (b ! e)))"

fun cmd_words :: "cmd \<Rightarrow> word_at list" where
  "cmd_words (EXEC as) = as"
| "cmd_words (REDIR c w mode fd) = cmd_words c @ [w]"
| "cmd_words (PIPE c d) = cmd_words c @ cmd_words d"
| "cmd_words (LIST c d) = cmd_words c @ cmd_words d"
| "cmd_words (BACK c) = cmd_words c"

fun argc_ok :: "cmd \<Rightarrow> bool" where
  "argc_ok (EXEC as) = (length as < MAXARGS)"
| "argc_ok (REDIR c w mode fd) = argc_ok c"
| "argc_ok (PIPE c d) = (argc_ok c \<and> argc_ok d)"
| "argc_ok (LIST c d) = (argc_ok c \<and> argc_ok d)"
| "argc_ok (BACK c) = argc_ok c"

definition cmd_ok :: "string \<Rightarrow> cmd \<Rightarrow> bool" where
  "cmd_ok b c \<longleftrightarrow> (\<forall>w \<in> set (cmd_words c). word_ok b w) \<and> argc_ok c"

text \<open>A result that did not run out of fuel, went forward in the line and satisfies \<^verbatim>\<open>P\<close>.\<close>

definition good :: "('a \<Rightarrow> bool) \<Rightarrow> string \<Rightarrow> nat \<Rightarrow> perr + ('a \<times> nat) \<Rightarrow> bool" where
  "good P b i r \<longleftrightarrow> r \<noteq> Inl OutOfFuel \<and> (\<forall>x j. r = Inr (x, j) \<longrightarrow> i \<le> j \<and> j \<le> length b \<and> P x)"

lemma good_Inr [simp]: "good P b i (Inr (x, j)) \<longleftrightarrow> i \<le> j \<and> j \<le> length b \<and> P x"
  by (simp add: good_def)

lemma good_Syntax [simp]: "good P b i (Inl (Syntax s))"
  by (simp add: good_def)

lemma good_bind:
  assumes "good P b i r" "\<And>x j. i \<le> j \<Longrightarrow> j \<le> length b \<Longrightarrow> P x \<Longrightarrow> good Q b i (f (x, j))"
  shows "good Q b i (bindE r f)"
proof (cases r)
  case (Inl e)
  then show ?thesis
    using assms(1) by (simp add: good_def)
next
  case (Inr y)
  then have "good Q b i (f (fst y, snd y))"
    using assms(1) by (intro assms(2)) (auto simp: good_def prod_eq_iff)
  then show ?thesis
    using Inr by simp
qed

lemma good_mono: "good P b j r \<Longrightarrow> i \<le> j \<Longrightarrow> good P b i r"
  by (auto simp: good_def)

definition redirs_ok :: "string \<Rightarrow> redir list \<Rightarrow> bool" where
  "redirs_ok b rs \<longleftrightarrow> (\<forall>(w, m) \<in> set rs. word_ok b w)"

lemma word_ok_token: "gettoken b i = (CHR ''a'', w, j) \<Longrightarrow> word_ok b w"
  using gettoken_bounds(8) [of b i "CHR ''a''" "fst w" "snd w" j] by (cases w) (simp add: word_ok_def)

lemma parseredirs_good: "i \<le> length b \<Longrightarrow> good (redirs_ok b) b i (parseredirs b i)"
proof (induction "length b - i" arbitrary: i rule: less_induct)
  case less
  obtain r j where p: "peek b i ''<>'' = (r, j)"
    by fastforce
  note pb = peek_bounds [OF p]
  show ?case
  proof (cases r)
    case False
    then show ?thesis
      using p pb(2,3) less.prems by (simp add: parseredirs.simps [of b i] redirs_ok_def)
  next
    case True
    with p have p': "peek b i ''<>'' = (True, j)"
      by simp
    obtain c q e k where g: "gettoken b j = (c, (q, e), k)"
      by (metis prod.exhaust)
    obtain t q' e' l where h: "gettoken b k = (t, (q', e'), l)"
      by (metis prod.exhaust)
    note k = peek_gettoken [OF p' g] and l = gettoken_bounds [OF h]
    show ?thesis
    proof (cases "t = CHR ''a''")
      case False
      then show ?thesis
        using p True g h by (simp add: parseredirs.simps [of b i])
    next
      case a: True
      have il: "i \<le> l" "l \<le> length b" "length b - l < length b - i"
        using k l(2-5) redir_progress [OF p' g h] by simp_all
      have w: "word_ok b (q', e')"
        using h a by (intro word_ok_token) simp
      have u: "parseredirs b i = bindE (parseredirs b l) (\<lambda>(rs, j). Inr ((if c = CHR ''<'' then ((q', e'), O_RDONLY, 0) else ((q', e'), O_WRONLY + O_CREATE, 1)) # rs, j))"
        using p True g h a by (simp add: parseredirs.simps [of b i] Let_def)
      show ?thesis
        unfolding u by (rule good_bind [OF good_mono [OF less.hyps [OF il(3,2)] il(1)]]) (use w in \<open>auto simp: redirs_ok_def\<close>)
    qed
  qed
qed


lemma parseargs_good:
  "i \<le> length b \<Longrightarrow> n < MAXARGS \<Longrightarrow> good (\<lambda>_. True) b i (map_sum id (\<lambda>(as, rs, j). ((), j)) (parseargs b i n)) \<and>
     (\<forall>as rs j. parseargs b i n = Inr (as, rs, j) \<longrightarrow> (\<forall>w \<in> set as. word_ok b w) \<and> redirs_ok b rs \<and> n + length as < MAXARGS)"
proof (induction "MAXARGS - n" arbitrary: i n rule: less_induct)
  case less
  obtain r j where p: "peek b i ''|)&;'' = (r, j)"
    by fastforce
  note pb = peek_bounds [OF p]
  obtain c q e k where g: "gettoken b j = (c, (q, e), k)"
    by (metis prod.exhaust)
  note gb = gettoken_bounds [OF g]
  have jk: "i \<le> k" "k \<le> length b"
    using pb(2,3) gb(2-5) less.prems(1) by simp_all
  consider "r" | "\<not> r" "c = NUL" | "\<not> r" "c \<noteq> NUL" "c \<noteq> CHR ''a'' \<or> n + 1 \<ge> MAXARGS" | "\<not> r" "c = CHR ''a''" "n + 1 < MAXARGS"
    by linarith
  then show ?case
  proof cases
    case 4
    have w: "word_ok b (q, e)"
      using g 4(2) by (intro word_ok_token) simp
    show ?thesis
    proof (cases "parseredirs b k")
      case (Inl x)
      then show ?thesis
        using p g 4 parseredirs_good [OF jk(2)] by (simp add: parseargs.simps [of b i n] good_def)
    next
      case (Inr y)
      obtain rs l where y: "y = (rs, l)"
        by fastforce
      have r: "k \<le> l" "l \<le> length b" "redirs_ok b rs"
        using parseredirs_good [OF jk(2)] Inr y by simp_all
      have IH: "good (\<lambda>_. True) b l (map_sum id (\<lambda>(as, rs, j). ((), j)) (parseargs b l (n + 1)))"
          "\<forall>as rs j. parseargs b l (n + 1) = Inr (as, rs, j) \<longrightarrow> (\<forall>w \<in> set as. word_ok b w) \<and> redirs_ok b rs \<and> n + 1 + length as < MAXARGS"
        using less.hyps [of "n + 1" l] 4(3) r(2) by auto
      have u: "parseargs b i n = bindE (parseargs b l (n + 1)) (\<lambda>(as, rs', j). Inr ((q, e) # as, rs @ rs', j))"
        using p g 4 Inr y by (simp add: parseargs.simps [of b i n])
      show ?thesis
      proof (cases "parseargs b l (n + 1)")
        case (Inl x)
        then show ?thesis
          using IH(1) u by (simp add: good_def)
      next
        case (Inr z)
        obtain as rs' m where z: "z = (as, rs', m)"
          by (metis prod.exhaust)
        show ?thesis
          using IH Inr z u r jk w by (auto simp: redirs_ok_def)
      qed
    qed
  qed (use p g pb jk less.prems in \<open>auto simp: parseargs.simps [of b i n] redirs_ok_def\<close>)
qed

lemma parseback_bounds: "parseback b i = (k, j) \<Longrightarrow> i \<le> length b \<Longrightarrow> i \<le> j \<and> j \<le> length b"
proof (induction "length b - i" arbitrary: i k j rule: less_induct)
  case less
  obtain r m where p: "peek b i ''&'' = (r, m)"
    by fastforce
  note pb = peek_bounds [OF p]
  show ?case
  proof (cases r)
    case False
    then show ?thesis
      using p pb(2,3) less.prems by (simp add: parseback.simps [of b i])
  next
    case True
    with p have p': "peek b i ''&'' = (True, m)"
      by simp
    obtain c q e l where g: "gettoken b m = (c, (q, e), l)"
      by (metis prod.exhaust)
    obtain k' j' where h: "parseback b l = (k', j')"
      by fastforce
    have "j = j'"
      using less.prems(1) p True g h by (simp add: parseback.simps [of b i])
    then show ?thesis
      using less.hyps [OF token_progress [OF p' g] h] peek_gettoken [OF p' g] by simp
  qed
qed

lemma skip_token_bounds: "peek b i toks = (True, j) \<Longrightarrow> i < skip_token b j \<and> skip_token b j \<le> length b"
  using peek_gettoken [of b i toks j "fst (gettoken b j)" "fst (fst (snd (gettoken b j)))" "snd (fst (snd (gettoken b j)))" "skip_token b j"]
  by (simp add: skip_token_def)

lemma cmd_ok_redirs: "redirs_ok b rs \<Longrightarrow> cmd_ok b c \<Longrightarrow> cmd_ok b (fold redircmd rs c)"
proof (induction rs arbitrary: c)
  case (Cons r rs)
  obtain w m f where r: "r = (w, m, f)"
    by (metis prod.exhaust)
  have "redirs_ok b rs" "cmd_ok b (redircmd r c)"
    using Cons.prems r by (simp_all add: redirs_ok_def cmd_ok_def redircmd_def)
  then show ?case
    using Cons.IH by simp
qed simp

lemma cmd_ok_back: "cmd_ok b c \<Longrightarrow> cmd_ok b ((BACK ^^ k) c)"
  by (induction k) (auto simp: cmd_ok_def)


text \<open>With this much fuel each function does its work; the four step lemmas are put together below.\<close>

definition enough :: "(nat \<Rightarrow> string \<Rightarrow> nat \<Rightarrow> perr + (cmd \<times> nat)) \<Rightarrow> nat \<Rightarrow> nat \<Rightarrow> string \<Rightarrow> bool" where
  "enough f d n b \<longleftrightarrow> (\<forall>i. i \<le> length b \<longrightarrow> 4 * (length b - i) + d \<le> n \<longrightarrow> good (cmd_ok b) b i (f n b i))"

lemma enoughD: "enough f d n b \<Longrightarrow> j \<le> i \<Longrightarrow> i \<le> length b \<Longrightarrow> 4 * (length b - i) + d \<le> n \<Longrightarrow> good (cmd_ok b) b j (f n b i)"
  unfolding enough_def by (blast intro: good_mono)

lemma good_parseline:
  assumes "enough parseline 4 n b" "enough parsepipe 3 n b"
  shows "enough parseline 4 (Suc n) b"
  unfolding enough_def parseline.simps
proof (intro allI impI, rule good_bind [OF enoughD [OF assms(2) order_refl]])
  fix i c j assume i: "4 * (length b - i) + 4 \<le> Suc n" and j: "i \<le> j" "j \<le> length b" and c: "cmd_ok b c"
  obtain k l where k: "parseback b j = (k, l)"
    by fastforce
  have l: "j \<le> l" "l \<le> length b"
    using parseback_bounds [OF k j(2)] by simp_all
  obtain r m where p: "peek b l '';'' = (r, m)"
    by fastforce
  note pb = peek_bounds [OF p]
  show "good (cmd_ok b) b i (case (c, j) of (c, i) \<Rightarrow> case parseback b i of (k, i) \<Rightarrow> let c = (BACK ^^ k) c in
     case peek b i '';'' of (True, i) \<Rightarrow> bindE (parseline n b (skip_token b i)) (\<lambda>(d, i). Inr (LIST c d, i)) | (False, i) \<Rightarrow> Inr (c, i))"
  proof (cases r)
    case False
    then show ?thesis
      using j l pb(2,3) k p cmd_ok_back [OF c] by (simp add: Let_def)
  next
    case True
    let ?s = "skip_token b m"
    have "l < ?s" "?s \<le> length b"
      using skip_token_bounds [of b l "'';''" m] p True by simp_all
    then have "good (cmd_ok b) b i (parseline n b ?s)"
      using i j(1) l(1) by (intro enoughD [OF assms(1)]) linarith+
    then have "good (cmd_ok b) b i (bindE (parseline n b ?s) (\<lambda>(d, i). Inr (LIST ((BACK ^^ k) c) d, i)))"
      by (rule good_bind) (use cmd_ok_back [OF c] in \<open>simp add: cmd_ok_def ball_Un\<close>)
    then show ?thesis
      using k p True by (simp add: Let_def)
  qed
qed simp_all

lemma good_parsepipe:
  assumes "enough parsepipe 3 n b" "enough parseexec 2 n b"
  shows "enough parsepipe 3 (Suc n) b"
  unfolding enough_def parsepipe.simps
proof (intro allI impI, rule good_bind [OF enoughD [OF assms(2) order_refl]])
  fix i c j assume i: "4 * (length b - i) + 3 \<le> Suc n" and j: "i \<le> j" "j \<le> length b" and c: "cmd_ok b c"
  obtain r m where p: "peek b j ''|'' = (r, m)"
    by fastforce
  note pb = peek_bounds [OF p]
  show "good (cmd_ok b) b i (case (c, j) of (c, i) \<Rightarrow>
     case peek b i ''|'' of (True, i) \<Rightarrow> bindE (parsepipe n b (skip_token b i)) (\<lambda>(d, i). Inr (PIPE c d, i)) | (False, i) \<Rightarrow> Inr (c, i))"
  proof (cases r)
    case False
    then show ?thesis
      using j pb(2,3) p c by simp
  next
    case True
    let ?s = "skip_token b m"
    have "j < ?s" "?s \<le> length b"
      using skip_token_bounds [of b j "''|''" m] p True by simp_all
    then have "good (cmd_ok b) b i (parsepipe n b ?s)"
      using i j(1) by (intro enoughD [OF assms(1)]) linarith+
    then have "good (cmd_ok b) b i (bindE (parsepipe n b ?s) (\<lambda>(d, i). Inr (PIPE c d, i)))"
      by (rule good_bind) (use c in \<open>simp add: cmd_ok_def ball_Un\<close>)
    then show ?thesis
      using p True by simp
  qed
qed simp_all

lemma good_parseblock:
  assumes "enough parseline 4 n b"
  shows "enough parseblock 1 (Suc n) b"
  unfolding enough_def parseblock.simps
proof (intro allI impI)
  fix i assume i: "i \<le> length b" "4 * (length b - i) + 1 \<le> Suc n"
  obtain r m where p: "peek b i ''('' = (r, m)"
    by fastforce
  let ?close = "\<lambda>(c, i). case peek b i '')'' of (True, i) \<Rightarrow> bindE (parseredirs b (skip_token b i)) (\<lambda>(rs, i). Inr (fold redircmd rs c, i))
            | (False, i) \<Rightarrow> Inl (Syntax ''syntax - missing )'')"
  have "good (cmd_ok b) b i (bindE (parseline n b (skip_token b m)) ?close)" if "r"
  proof (rule good_bind)
    have "i < skip_token b m" "skip_token b m \<le> length b"
      using skip_token_bounds [of b i "''(''" m] p that by simp_all
    then show "good (cmd_ok b) b i (parseline n b (skip_token b m))"
      using i by (intro enoughD [OF assms]) linarith+
    fix c j assume j: "i \<le> j" "j \<le> length b" and c: "cmd_ok b c"
    obtain r' l where q: "peek b j '')'' = (r', l)"
      by fastforce
    have "good (cmd_ok b) b i (bindE (parseredirs b (skip_token b l)) (\<lambda>(rs, i). Inr (fold redircmd rs c, i)))" if "r'"
    proof (rule good_bind)
      have "j < skip_token b l" "skip_token b l \<le> length b"
        using skip_token_bounds [of b j "'')''" l] q that by simp_all
      then show "good (redirs_ok b) b i (parseredirs b (skip_token b l))"
        using j(1) by (intro good_mono [OF parseredirs_good]) simp_all
    qed (use c cmd_ok_redirs in simp)
    then show "good (cmd_ok b) b i (?close (c, j))"
      using q by (cases r') simp_all
  qed
  then show "good (cmd_ok b) b i (case peek b i ''('' of (True, i) \<Rightarrow> bindE (parseline n b (skip_token b i)) ?close
      | (False, i) \<Rightarrow> Inl (Syntax ''parseblock''))"
    using p by (cases r) simp_all
qed

lemma good_parseexec:
  assumes "enough parseblock 1 n b"
  shows "enough parseexec 2 (Suc n) b"
  unfolding enough_def parseexec.simps
proof (intro allI impI)
  fix i assume i: "i \<le> length b" "4 * (length b - i) + 2 \<le> Suc n"
  obtain r m where p: "peek b i ''('' = (r, m)"
    by fastforce
  have m: "i \<le> m" "m \<le> length b"
    using peek_bounds [OF p] i(1) by simp_all
  let ?args = "\<lambda>(rs, i). bindE (parseargs b i 0) (\<lambda>(as, rs', i). Inr (fold redircmd (rs @ rs') (EXEC as), i))"
  have "good (cmd_ok b) b i (parseblock n b m)"
    using i m by (intro enoughD [OF assms]) linarith+
  moreover have "good (cmd_ok b) b i (bindE (parseredirs b m) ?args)"
  proof (rule good_bind [OF good_mono [OF parseredirs_good [OF m(2)] m(1)]])
    fix rs j assume j: "i \<le> j" "j \<le> length b" and rs: "redirs_ok b rs"
    note a = parseargs_good [OF j(2), of 0]
    show "good (cmd_ok b) b i (?args (rs, j))"
    proof (cases "parseargs b j 0")
      case (Inl x)
      then show ?thesis
        using a by (simp add: good_def MAXARGS_def)
    next
      case (Inr z)
      obtain as rs' l where z: "z = (as, rs', l)"
        by (metis prod.exhaust)
      have s: "j \<le> l" "l \<le> length b" "\<forall>w \<in> set as. word_ok b w" "redirs_ok b rs'" "length as < MAXARGS"
        using a Inr z by (simp_all add: MAXARGS_def)
      then have "cmd_ok b (EXEC as)" "redirs_ok b (rs @ rs')"
        using rs by (auto simp: cmd_ok_def redirs_ok_def)
      then have "cmd_ok b (fold redircmd (rs @ rs') (EXEC as))"
        by (intro cmd_ok_redirs)
      then show ?thesis
        using Inr z s(1,2) j(1) by simp
    qed
  qed
  ultimately show "good (cmd_ok b) b i (case peek b i ''('' of (True, i) \<Rightarrow> parseblock n b i | (False, i) \<Rightarrow> bindE (parseredirs b i) ?args)"
    using p by (cases r) simp_all
qed

lemma parse_enough: "enough parseline 4 n b \<and> enough parsepipe 3 n b \<and> enough parseblock 1 n b \<and> enough parseexec 2 n b"
proof (induction n)
  case 0
  then show ?case
    by (simp add: enough_def)
next
  case (Suc n)
  then show ?case
    using good_parseline good_parsepipe good_parseblock good_parseexec by blast
qed


section \<open>The strings of a command\<close>

lemma nulterminate_fold: "nulterminate c b = fold (\<lambda>(q, e) b. b[e := NUL]) (cmd_words c) b"
proof (induction c arbitrary: b)
  case (REDIR c w mode fd)
  then show ?case
    by (cases w) simp
qed simp_all

lemma fold_nul_nth:
  "length (fold (\<lambda>(q, e) b. b[e := NUL]) ws b) = length b"
  "k < length b \<Longrightarrow> fold (\<lambda>(q, e) b. b[e := NUL]) ws b ! k = (if k \<in> snd ` set ws then NUL else b ! k)"
proof -
  show l: "length (fold (\<lambda>(q, e) b. b[e := NUL]) ws b) = length b" for ws b
    by (induction ws arbitrary: b) auto
  show "k < length b \<Longrightarrow> fold (\<lambda>(q, e) b. b[e := NUL]) ws b ! k = (if k \<in> snd ` set ws then NUL else b ! k)"
    by (induction ws arbitrary: b) (auto simp: nth_list_update split: prod.splits)
qed

lemma cstr_at_word:
  assumes "cmd_ok s c" "NUL \<notin> set s" "(q, e) \<in> set (cmd_words c)"
  shows "cstr_at (nulterminate c (s @ [NUL])) q = take (e - q) (drop q s)"
proof -
  let ?b = "nulterminate c (s @ [NUL])"
  have w: "q < e" "e \<le> length s" "\<forall>k. q \<le> k \<and> k < e \<longrightarrow> \<not> is_ws (s ! k) \<and> \<not> is_sym (s ! k)"
    using assms(1,3) by (auto simp: cmd_ok_def word_ok_def)
  have l: "length ?b = Suc (length s)"
    by (simp add: nulterminate_fold fold_nul_nth)
  have n: "?b ! k = (if k \<in> snd ` set (cmd_words c) then NUL else (s @ [NUL]) ! k)" if "k < Suc (length s)" for k
    unfolding nulterminate_fold using that by (intro fold_nul_nth(2)) simp
  have o: "k \<notin> snd ` set (cmd_words c)" if "q \<le> k" "k < e" for k
  proof
    assume "k \<in> snd ` set (cmd_words c)"
    then obtain q' where "word_ok s (q', k)"
      using assms(1) by (auto simp: cmd_ok_def)
    then show False
      using w that by (auto simp: word_ok_def)
  qed
  have k: "?b ! k = s ! k" "s ! k \<noteq> NUL" if "q \<le> k" "k < e" for k
    using n [of k] o [OF that] that w(2) assms(2) by (auto simp: nth_append in_set_conv_nth)
  have "takeWhile (\<lambda>c. c \<noteq> NUL) (drop q ?b) = take (e - q) (drop q ?b)"
  proof (rule takeWhile_eq_take_P_nth)
    fix i assume "i < e - q"
    then show "drop q ?b ! i \<noteq> NUL"
      using k [of "q + i"] l w by simp
  next
    assume "e - q < length (drop q ?b)"
    have "e \<in> snd ` set (cmd_words c)"
      using assms(3) by force
    then show "\<not> drop q ?b ! (e - q) \<noteq> NUL"
      using n [of e] l w by simp
  qed
  also have "\<dots> = take (e - q) (drop q s)"
    using k l w by (intro nth_equalityI) simp_all
  finally show ?thesis
    by (simp add: cstr_at_def)
qed


section \<open>Properties\<close>

text \<open>
  C36: The recursive-descent parser of the shell returns on every line: with a syntax error, or with a command that has fewer than
  \<^verbatim>\<open>MAXARGS\<close> arguments in every part, whose words lie in the line, are not empty and contain neither blanks nor symbols; and
  after \<^verbatim>\<open>nulterminate\<close>, which writes into the line all words share, the string that starts at a word is exactly that word.
\<close>

theorem parsecmd_returns:
  assumes "NUL \<notin> set s"
  shows "case parsecmd s of
      Inl e \<Rightarrow> e \<noteq> OutOfFuel
    | Inr (c, b) \<Rightarrow> argc_ok c \<and> (\<forall>(q, e) \<in> set (cmd_words c). q < e \<and> e \<le> length s \<and> cstr_at b q = take (e - q) (drop q s) \<and>
        (\<forall>x \<in> set (cstr_at b q). \<not> is_ws x \<and> \<not> is_sym x))"
proof -
  have g: "good (cmd_ok s) s 0 (parseline (4 * length s + 4) s 0)"
    using parse_enough [of "4 * length s + 4" s] by (simp add: enough_def)
  show ?thesis
  proof (cases "parseline (4 * length s + 4) s 0")
    case (Inl e)
    then show ?thesis
      using g by (simp add: parsecmd_def good_def)
  next
    case (Inr z)
    obtain c i where z: "z = (c, i)"
      by fastforce
    have c: "cmd_ok s c"
      using g Inr z by simp
    have w: "q < e \<and> e \<le> length s \<and> cstr_at (nulterminate c (s @ [NUL])) q = take (e - q) (drop q s) \<and>
        (\<forall>x \<in> set (cstr_at (nulterminate c (s @ [NUL])) q). \<not> is_ws x \<and> \<not> is_sym x)" if "(q, e) \<in> set (cmd_words c)" for q e
    proof -
      have o: "word_ok s (q, e)"
        using c that by (auto simp: cmd_ok_def)
      have "\<exists>k. q \<le> k \<and> k < e \<and> x = s ! k" if x: "x \<in> set (take (e - q) (drop q s))" for x
      proof -
        obtain i where "i < e - q" "x = s ! (q + i)"
          using x by (auto simp: in_set_conv_nth)
        then show ?thesis
          by (intro exI [of _ "q + i"]) simp
      qed
      then show ?thesis
        using o cstr_at_word [OF c assms that] by (auto simp: word_ok_def)
    qed
    show ?thesis
      using Inr z c w by (auto simp: parsecmd_def cmd_ok_def split: prod.splits)
  qed
qed

theorem parsecmd_returns_witness:
  "\<exists>c b. parsecmd ''(cat < f | wc) ; echo hi >> g &'' = Inr (c, b) \<and> argc_ok c \<and> cstr_at b 1 = ''cat'' \<and> cstr_at b 28 = ''g''"
proof -
  let ?s = "''(cat < f | wc) ; echo hi >> g &''"
  let ?c = "LIST (PIPE (REDIR (EXEC [(1, 4)]) (7, 8) 0 0) (EXEC [(11, 13)])) (BACK (REDIR (EXEC [(17, 21), (22, 24)]) (28, 29) 0x201 1))"
  have "NUL \<notin> set ?s"
    by simp
  note t = parsecmd_returns [OF this]
  have p: "parsecmd ?s = Inr (?c, nulterminate ?c (?s @ [NUL]))"
    by code_simp
  have "argc_ok ?c \<and> cstr_at (nulterminate ?c (?s @ [NUL])) 1 = ''cat'' \<and> cstr_at (nulterminate ?c (?s @ [NUL])) 28 = ''g''"
    using t unfolding p by simp
  then show ?thesis
    using p by blast
qed

text \<open>
  The shell itself never reaches \<^verbatim>\<open>exec\<close>: it exits at the end, waits for each child before the next prompt, and what a child
  does never is the empty sequence that stands for a parser out of fuel.
\<close>

lemma say_not_exit: "say f a \<noteq> Exit" "say f a \<noteq> Wait" "say f a \<noteq> Fork cs"
  by (simp_all add: say_def)

lemma sh_loop_exits: "sh_loop ok lines h \<noteq> [] \<and> last (sh_loop ok lines h) = Exit"
  by (induction ok lines h rule: sh_loop.induct)
    (auto simp: getcmd_def panic_acts_def Let_def split: job.splits)

lemma runcmd_acts: "runcmd ok b c h \<noteq> []"
  by (cases c) (auto simp: Let_def fork1_def split: if_splits)

lemma parsecmd_fuel: "parsecmd s \<noteq> Inl OutOfFuel"
proof -
  have "good (cmd_ok s) s 0 (parseline (4 * length s + 4) s 0)"
    using parse_enough [of "4 * length s + 4" s] by (simp add: enough_def)
  then show ?thesis
    by (auto simp: parsecmd_def good_def bindE_def split: sum.splits prod.splits)
qed

lemma child_acts_nonempty: "sh_line buf = Child r \<Longrightarrow> child_acts ok h r \<noteq> []"
  using parsecmd_fuel [of buf] runcmd_acts
  by (auto simp: sh_line_def child_acts_def panic_acts_def split: if_splits sum.splits perr.splits)

lemma sh_loop_waits:
  assumes "\<forall>h cs. ok h (Fork cs)"
  shows "length (filter (\<lambda>a. \<exists>cs. a = Fork cs) (sh_loop ok lines h)) = length (filter (\<lambda>a. a = Wait) (sh_loop ok lines h))"
  using assms by (induction lines arbitrary: h) (auto simp: getcmd_def say_not_exit Let_def split: job.splits)

lemma sh_loop_single_cd: "sh_loop (\<lambda>h a. False) [''cd x'' @ [NL]] [] = [Say ''$ '', Chdir ''x'', Say (''cannot cd x'' @ [NL]), Say ''$ '', Exit]"
  by code_simp

text \<open>Three descriptors are opened when none was, and the fourth is closed.\<close>

lemma sh_consoles_from_none:
  "sh_consoles int 0 = Some (replicate 4 (OpenFile ''console'' O_RDWR) @ [Close 3])"
  by (simp add: sh_consoles.simps eval_nat_numeral)

text \<open>\<^verbatim>\<open>>>\<close> opens its file the way \<^verbatim>\<open>>\<close> does, so that it writes over the beginning of the file and appends nothing.\<close>

lemma append_redirection_overwrites:
  "parsecmd ''a>>f'' = Inr (REDIR (EXEC [(0, 1)]) (3, 4) (O_WRONLY + O_CREATE) 1, [CHR ''a'', NUL, CHR ''>'', CHR ''f'', NUL])"
  by code_simp

end
