(* ===== verification/Io.thy ===== *)
theory Io
  imports Mmu_h
begin

text \<open>
  Input and output to devices (\<^verbatim>\<open>inb\<close>, \<^verbatim>\<open>outb\<close>, \<^verbatim>\<open>outsl\<close>, \<^verbatim>\<open>insl\<close> of \<^verbatim>\<open>x86.h\<close> and accesses to device memory).  What the kernel does is
  the sequence of its accesses; what the hardware answers is an argument, a function of the accesses
  made before.  A loop that waits for the hardware has no value when the hardware never answers.
\<close>

unbundle bit_operations_syntax

datatype io =
  In ushort
| Out ushort uchar
| InL ushort nat
| OutL ushort "uchar list"
| Mread addr
| Mwrite addr uint

type_synonym port_hw = "io list \<Rightarrow> ushort \<Rightarrow> uchar"
type_synonym mem_hw = "io list \<Rightarrow> addr \<Rightarrow> uint"

definition inb :: "port_hw \<Rightarrow> ushort \<Rightarrow> io list \<Rightarrow> uchar \<times> io list" where
  "inb hw p h = (hw h p, h @ [In p])"

definition outb :: "ushort \<Rightarrow> uchar \<Rightarrow> io list \<Rightarrow> io list" where
  "outb p v h = h @ [Out p v]"

definition outsl :: "ushort \<Rightarrow> uchar list \<Rightarrow> io list \<Rightarrow> io list" where
  "outsl p bs h = h @ [OutL p bs]"

end
