(* ===== verification/Kbd_c.thy ===== *)
theory Kbd_c
  imports Io
begin

text \<open>
  The keyboard (\<^verbatim>\<open>kbd.c\<close>, \<^verbatim>\<open>kbd.h\<close>): scan codes to characters, with the state of the shift keys.
\<close>

unbundle bit_operations_syntax

section \<open>Definitions\<close>

definition KBSTATP :: ushort where "KBSTATP = 0x64"
definition KBDATAP :: ushort where "KBDATAP = 0x60"
definition SHIFT :: uint where "SHIFT = 1"
definition CTL :: uint where "CTL = 2"
definition ALT :: uint where "ALT = 4"
definition CAPSLOCK :: uint where "CAPSLOCK = 8"
definition NUMLOCK :: uint where "NUMLOCK = 16"
definition SCROLLLOCK :: uint where "SCROLLLOCK = 32"
definition E0ESC :: uint where "E0ESC = 64"

definition shiftcode :: "uint \<Rightarrow> uint" where
  "shiftcode d = (if d = 0x1D \<or> d = 0x9D then CTL else if d = 0x2A \<or> d = 0x36 then SHIFT else if d = 0x38 \<or> d = 0xB8 then ALT else 0)"

definition togglecode :: "uint \<Rightarrow> uint" where
  "togglecode d = (if d = 0x3A then CAPSLOCK else if d = 0x45 then NUMLOCK else if d = 0x46 then SCROLLLOCK else 0)"

definition normalmap :: "uchar list" where
  "normalmap = ([0, 27, 49, 50, 51, 52, 53, 54, 55, 56, 57, 48, 45, 61, 8, 9,
      113, 119, 101, 114, 116, 121, 117, 105, 111, 112, 91, 93, 10, 0, 97, 115,
      100, 102, 103, 104, 106, 107, 108, 59, 39, 96, 0, 92, 122, 120, 99, 118,
      98, 110, 109, 44, 46, 47, 0, 42, 0, 32, 0, 0, 0, 0, 0, 0,
      0, 0, 0, 0, 0, 0, 0, 55, 56, 57, 45, 52, 53, 54, 43, 49,
      50, 51, 48, 46, 0, 0, 0, 0] @ replicate 168 0)
     [0x9C := 10, 0xB5 := 47, 0xC8 := 226, 0xD0 := 227, 0xC9 := 230, 0xD1 := 231, 0xCB := 228, 0xCD := 229, 0x97 := 224, 0xCF := 225, 0xD2 := 232, 0xD3 := 233]"

definition shiftmap :: "uchar list" where
  "shiftmap = ([0, 27, 33, 64, 35, 36, 37, 94, 38, 42, 40, 41, 95, 43, 8, 9,
      81, 87, 69, 82, 84, 89, 85, 73, 79, 80, 123, 125, 10, 0, 65, 83,
      68, 70, 71, 72, 74, 75, 76, 58, 34, 126, 0, 124, 90, 88, 67, 86,
      66, 78, 77, 60, 62, 63, 0, 42, 0, 32, 0, 0, 0, 0, 0, 0,
      0, 0, 0, 0, 0, 0, 0, 55, 56, 57, 45, 52, 53, 54, 43, 49,
      50, 51, 48, 46, 0, 0, 0, 0] @ replicate 168 0)
     [0x9C := 10, 0xB5 := 47, 0xC8 := 226, 0xD0 := 227, 0xC9 := 230, 0xD1 := 231, 0xCB := 228, 0xCD := 229, 0x97 := 224, 0xCF := 225, 0xD2 := 232, 0xD3 := 233]"

definition ctlmap :: "uchar list" where
  "ctlmap = ([0, 0, 0, 0, 0, 0, 0, 0, 0, 0, 0, 0, 0, 0, 0, 0,
      17, 23, 5, 18, 20, 25, 21, 9, 15, 16, 0, 0, 13, 0, 1, 19,
      4, 6, 7, 8, 10, 11, 12, 0, 0, 0, 0, 28, 26, 24, 3, 22,
      2, 14, 13, 0, 0, 239, 0, 0] @ replicate 200 0)
     [0x9C := 13, 0xB5 := 239, 0xC8 := 226, 0xD0 := 227, 0xC9 := 230, 0xD1 := 231, 0xCB := 228, 0xCD := 229, 0x97 := 224, 0xCF := 225, 0xD2 := 232, 0xD3 := 233]"

definition charcode :: "uint \<Rightarrow> uchar list" where
  "charcode i = (if i = 0 then normalmap else if i = 1 then shiftmap else ctlmap)"

text \<open>What \<^verbatim>\<open>kbdgetc\<close> does with a byte from the keyboard: the character, 0 for none, and the new shift state.\<close>

definition kbd_byte :: "uchar \<Rightarrow> uint \<Rightarrow> int \<times> uint" where
  "kbd_byte b shift =
     (let data = ucast b :: uint in
      if data = 0xE0 then (0, shift OR E0ESC)
      else if data AND 0x80 \<noteq> 0 then
        let data = (if shift AND E0ESC \<noteq> 0 then data else data AND 0x7F)
        in (0, shift AND NOT (shiftcode data OR E0ESC))
      else
        let (data, shift) = (if shift AND E0ESC \<noteq> 0 then (data OR 0x80, shift AND NOT E0ESC) else (data, shift));
            shift = shift OR shiftcode data;
            shift = shift XOR togglecode data;
            c = uint (charcode (shift AND (CTL OR SHIFT)) ! unat data);
            c = (if shift AND CAPSLOCK \<noteq> 0 then
                   if 97 \<le> c \<and> c \<le> 122 then c - 32 else if 65 \<le> c \<and> c \<le> 90 then c + 32 else c
                 else c)
        in (c, shift))"

definition kbdgetc :: "port_hw \<Rightarrow> uint \<Rightarrow> io list \<Rightarrow> int \<times> uint \<times> io list" where
  "kbdgetc hw shift h =
     (case inb hw KBSTATP h of (st, h) \<Rightarrow>
      if st AND 1 = 0 then (- 1, shift, h)
      else case inb hw KBDATAP h of (data, h) \<Rightarrow>
        case kbd_byte data shift of (c, shift) \<Rightarrow> (c, shift, h))"

section \<open>Keys\<close>

lemma tables_length: "length normalmap = 256" "length shiftmap = 256" "length ctlmap = 256"
  by (simp_all add: normalmap_def shiftmap_def ctlmap_def)

lemma charcode_length: "length (charcode i) = 256"
  by (simp add: charcode_def tables_length)

lemmas kbd_defs = SHIFT_def CTL_def ALT_def CAPSLOCK_def NUMLOCK_def SCROLLLOCK_def E0ESC_def

text \<open>Every table access is inside the table.\<close>

lemma kbd_index: "unat ((ucast (b :: uchar) :: uint) OR 0x80) < 256" "unat (ucast (b :: uchar) :: uint) < 256"
proof -
  have "(ucast b :: uint) OR 0x80 = ucast (b OR 0x80)"
    by (simp add: unsigned_or_eq)
  then show "unat ((ucast b :: uint) OR 0x80) < 256" "unat (ucast b :: uint) < 256"
    using unsigned_less [of "b OR 0x80", where ?'a = nat] unsigned_less [of b, where ?'a = nat]
    by (simp_all add: unsigned_ucast_eq take_bit_eq_mod)
qed

text \<open>Pressing and releasing a shift key gives back the shift state, if the key was up and no lock key is involved.\<close>

lemma shift_press_release:
  assumes "s AND (SHIFT OR E0ESC) = 0"
  shows "snd (kbd_byte 0xAA (snd (kbd_byte 0x2A s))) = s"
proof -
  have z: "s AND 65 = 0"
    using assms by (simp add: kbd_defs)
  have "s AND 64 = (s AND 65) AND 64"
    by (simp add: and.assoc)
  then have e: "s AND 64 = 0"
    by (simp add: z)
  have "s = (s AND 65) OR (s AND NOT 65)"
    by (rule bit_word_eqI) (auto simp: bit_simps)
  then have n: "s AND NOT 65 = s"
    by (simp add: z)
  have "snd (kbd_byte 0x2A s) = s OR 1"
    using e by (simp add: kbd_byte_def kbd_defs shiftcode_def togglecode_def Let_def)
  moreover have "snd (kbd_byte 0xAA (s OR 1)) = (s OR 1) AND NOT 65"
    using e by (simp add: kbd_byte_def kbd_defs shiftcode_def Let_def bit.conj_disj_distrib2)
  ultimately show ?thesis
    using n by (simp add: bit.conj_disj_distrib2)
qed

end
