(* ===== verification/Apic_c.thy ===== *)
theory Apic_c
  imports Io
begin

text \<open>
  Interrupt controllers, the clock and the serial port: \<^verbatim>\<open>lapic.c\<close>, \<^verbatim>\<open>ioapic.c\<close>, \<^verbatim>\<open>picirq.c\<close> and \<^verbatim>\<open>uart.c\<close>, as sequences of
  accesses.  \<^verbatim>\<open>lapic\<close> is the address of the local controller, 0 when there is none; registers are indices of words.
\<close>

unbundle bit_operations_syntax

section \<open>The local controller\<close>

definition ID :: uint where "ID = 0x20 div 4"
definition VER :: uint where "VER = 0x30 div 4"
definition TPR :: uint where "TPR = 0x80 div 4"
definition EOI :: uint where "EOI = 0xB0 div 4"
definition SVR :: uint where "SVR = 0xF0 div 4"
definition ESR :: uint where "ESR = 0x280 div 4"
definition ICRLO :: uint where "ICRLO = 0x300 div 4"
definition ICRHI :: uint where "ICRHI = 0x310 div 4"
definition TIMER :: uint where "TIMER = 0x320 div 4"
definition PCINT :: uint where "PCINT = 0x340 div 4"
definition LINT0 :: uint where "LINT0 = 0x350 div 4"
definition LINT1 :: uint where "LINT1 = 0x360 div 4"
definition ERROR :: uint where "ERROR = 0x370 div 4"
definition TICR :: uint where "TICR = 0x380 div 4"
definition TDCR :: uint where "TDCR = 0x3E0 div 4"

definition T_IRQ0 :: uint where "T_IRQ0 = 32"

definition lapicw :: "addr \<Rightarrow> uint \<Rightarrow> uint \<Rightarrow> io list \<Rightarrow> io list" where
  "lapicw lapic i v h = h @ [Mwrite (lapic + 4 * i) v, Mread (lapic + 4 * ID)]"

text \<open>Read a device register until the bits of \<^verbatim>\<open>b\<close> are clear.\<close>

partial_function (option) wait_clear :: "mem_hw \<Rightarrow> addr \<Rightarrow> uint \<Rightarrow> io list \<Rightarrow> io list option" where
  "wait_clear mm a b h = (if mm h a AND b = 0 then Some (h @ [Mread a]) else wait_clear mm a b (h @ [Mread a]))"

definition lapicinit :: "mem_hw \<Rightarrow> addr \<Rightarrow> io list \<Rightarrow> io list option" where
  "lapicinit mm lapic h =
     (if lapic = 0 then Some h
      else
        let h = lapicw lapic SVR (0x100 OR (T_IRQ0 + 31)) h;
            h = lapicw lapic TDCR 0xB h;
            h = lapicw lapic TIMER (0x20000 OR (T_IRQ0 + 0)) h;
            h = lapicw lapic TICR 10000000 h;
            h = lapicw lapic LINT0 0x10000 h;
            h = lapicw lapic LINT1 0x10000 h;
            v = mm h (lapic + 4 * VER);
            h = h @ [Mread (lapic + 4 * VER)];
            h = (if drop_bit 16 v AND 0xFF \<ge> 4 then lapicw lapic PCINT 0x10000 h else h);
            h = lapicw lapic ERROR (T_IRQ0 + 19) h;
            h = lapicw lapic ESR 0 h;
            h = lapicw lapic ESR 0 h;
            h = lapicw lapic EOI 0 h;
            h = lapicw lapic ICRHI 0 h;
            h = lapicw lapic ICRLO (0x80000 OR 0x500 OR 0x8000) h
        in map_option (lapicw lapic TPR 0) (wait_clear mm (lapic + 4 * ICRLO) 0x1000 h))"

definition lapicid :: "mem_hw \<Rightarrow> addr \<Rightarrow> io list \<Rightarrow> uint \<times> io list" where
  "lapicid mm lapic h = (if lapic = 0 then (0, h) else (drop_bit 24 (mm h (lapic + 4 * ID)), h @ [Mread (lapic + 4 * ID)]))"

definition lapiceoi :: "addr \<Rightarrow> io list \<Rightarrow> io list" where
  "lapiceoi lapic h = (if lapic \<noteq> 0 then lapicw lapic EOI 0 h else h)"

text \<open>Start a processor at \<^verbatim>\<open>a\<close>: the memory with the warm reset vector, and the accesses.\<close>

definition CMOS_PORT :: ushort where "CMOS_PORT = 0x70"

definition lapicstartap :: "addr \<Rightarrow> uchar \<Rightarrow> uint \<Rightarrow> mem \<times> io list \<Rightarrow> mem \<times> io list" where
  "lapicstartap lapic apicid a s =
     (let (m, h) = s;
          h = outb CMOS_PORT 0xF h;
          h = outb (CMOS_PORT + 1) 0x0A h;
          wrv = P2V (push_bit 4 0x40 OR 0x67);
          seg = drop_bit 4 a;
          m = m(wrv := 0, wrv + 1 := 0, wrv + 2 := ucast seg, wrv + 3 := ucast (drop_bit 8 seg));
          dst = push_bit 24 (ucast apicid :: uint);
          h = lapicw lapic ICRHI dst h;
          h = lapicw lapic ICRLO (0x500 OR 0x8000 OR 0x4000) h;
          h = lapicw lapic ICRLO (0x500 OR 0x8000) h;
          start = (\<lambda>h. lapicw lapic ICRLO (0x600 OR drop_bit 12 a) (lapicw lapic ICRHI dst h))
      in (m, start (start h)))"

section \<open>The clock\<close>

record rtcdate =
  rsecond :: uint
  rminute :: uint
  rhour :: uint
  rday :: uint
  rmonth :: uint
  ryear :: uint

definition cmos_read :: "port_hw \<Rightarrow> uchar \<Rightarrow> io list \<Rightarrow> uint \<times> io list" where
  "cmos_read hw reg h = (case inb hw 0x71 (outb CMOS_PORT reg h) of (v, h) \<Rightarrow> (ucast v, h))"

definition fill_rtcdate :: "port_hw \<Rightarrow> io list \<Rightarrow> rtcdate \<times> io list" where
  "fill_rtcdate hw h =
     (let (s, h) = cmos_read hw 0x00 h;
          (mi, h) = cmos_read hw 0x02 h;
          (ho, h) = cmos_read hw 0x04 h;
          (d, h) = cmos_read hw 0x07 h;
          (mo, h) = cmos_read hw 0x08 h;
          (y, h) = cmos_read hw 0x09 h
      in (\<lparr>rsecond = s, rminute = mi, rhour = ho, rday = d, rmonth = mo, ryear = y\<rparr>, h))"

text \<open>The loop that reads until no update is in progress and two readings agree.\<close>

partial_function (option) rtc_stable :: "port_hw \<Rightarrow> io list \<Rightarrow> (rtcdate \<times> io list) option" where
  "rtc_stable hw h =
     (case fill_rtcdate hw h of (t1, h) \<Rightarrow>
      case cmos_read hw 0x0a h of (a, h) \<Rightarrow>
        if a AND 0x80 \<noteq> 0 then rtc_stable hw h
        else case fill_rtcdate hw h of (t2, h) \<Rightarrow> if t1 = t2 then Some (t1, h) else rtc_stable hw h)"

definition CONV :: "uint \<Rightarrow> uint" where
  "CONV x = drop_bit 4 x * 10 + (x AND 0xf)"

definition cmostime :: "port_hw \<Rightarrow> io list \<Rightarrow> (rtcdate \<times> io list) option" where
  "cmostime hw h =
     (case cmos_read hw 0x0b h of (sb, h) \<Rightarrow>
      case rtc_stable hw h of
        None \<Rightarrow> None
      | Some (t, h) \<Rightarrow>
          let t = (if sb AND 4 = 0 then
                     \<lparr>rsecond = CONV (rsecond t), rminute = CONV (rminute t), rhour = CONV (rhour t), rday = CONV (rday t),
                       rmonth = CONV (rmonth t), ryear = CONV (ryear t)\<rparr>
                   else t)
          in Some (t\<lparr>ryear := ryear t + 2000\<rparr>, h))"

section \<open>The I/O controller and the old one\<close>

definition IOAPIC :: addr where "IOAPIC = 0xFEC00000"

definition ioapicread :: "mem_hw \<Rightarrow> uint \<Rightarrow> io list \<Rightarrow> uint \<times> io list" where
  "ioapicread mm reg h =
     (let h = h @ [Mwrite IOAPIC reg] in (mm h (IOAPIC + 16), h @ [Mread (IOAPIC + 16)]))"

definition ioapicwrite :: "uint \<Rightarrow> uint \<Rightarrow> io list \<Rightarrow> io list" where
  "ioapicwrite reg v h = h @ [Mwrite IOAPIC reg, Mwrite (IOAPIC + 16) v]"

text \<open>\<^verbatim>\<open>ioapicinit\<close>: whether it warns about the identity, and the accesses.\<close>

definition ioapicinit :: "mem_hw \<Rightarrow> uchar \<Rightarrow> io list \<Rightarrow> bool \<times> io list" where
  "ioapicinit mm ioapicid h =
     (let (v, h) = ioapicread mm 0x01 h;
          maxintr = unat (drop_bit 16 v AND 0xFF);
          (i, h) = ioapicread mm 0x00 h;
          warn = (drop_bit 24 i \<noteq> ucast ioapicid)
      in (warn, fold (\<lambda>i h. ioapicwrite (0x10 + 2 * of_nat i + 1) 0 (ioapicwrite (0x10 + 2 * of_nat i) (0x10000 OR (T_IRQ0 + of_nat i)) h))
           [0..<maxintr + 1] h))"

definition ioapicenable :: "uint \<Rightarrow> uint \<Rightarrow> io list \<Rightarrow> io list" where
  "ioapicenable irq cpunum h =
     ioapicwrite (0x10 + 2 * irq + 1) (push_bit 24 cpunum) (ioapicwrite (0x10 + 2 * irq) (T_IRQ0 + irq) h)"

definition picinit :: "io list \<Rightarrow> io list" where
  "picinit h = outb (0xA0 + 1) 0xFF (outb (0x20 + 1) 0xFF h)"

section \<open>The serial port\<close>

definition COM1 :: ushort where "COM1 = 0x3f8"

text \<open>Wait for room, at most 128 times, and send.\<close>

fun uart_wait :: "port_hw \<Rightarrow> nat \<Rightarrow> io list \<Rightarrow> io list" where
  "uart_wait hw 0 h = h"
| "uart_wait hw (Suc n) h = (case inb hw (COM1 + 5) h of (v, h) \<Rightarrow> if v AND 0x20 \<noteq> 0 then h else uart_wait hw n h)"

definition uartputc :: "port_hw \<Rightarrow> bool \<Rightarrow> uchar \<Rightarrow> io list \<Rightarrow> io list" where
  "uartputc hw uart c h = (if \<not> uart then h else outb COM1 c (uart_wait hw 128 h))"

definition uartgetc :: "port_hw \<Rightarrow> bool \<Rightarrow> io list \<Rightarrow> int \<times> io list" where
  "uartgetc hw uart h =
     (if \<not> uart then (- 1, h)
      else case inb hw (COM1 + 5) h of (v, h) \<Rightarrow>
        if v AND 1 = 0 then (- 1, h) else case inb hw COM1 h of (c, h) \<Rightarrow> (uint c, h))"

definition uartinit :: "port_hw \<Rightarrow> io list \<Rightarrow> bool \<times> io list" where
  "uartinit hw h =
     (let h = outb (COM1 + 2) 0 h;
          h = outb (COM1 + 3) 0x80 h;
          h = outb (COM1 + 0) (of_nat (115200 div 9600)) h;
          h = outb (COM1 + 1) 0 h;
          h = outb (COM1 + 3) 0x03 h;
          h = outb (COM1 + 4) 0 h;
          h = outb (COM1 + 1) 0x01 h;
          (v, h) = inb hw (COM1 + 5) h
      in if v = 0xFF then (False, h)
         else
           let (_, h) = inb hw (COM1 + 2) h;
               (_, h) = inb hw (COM1 + 0) h;
               h = ioapicenable 4 0 h
           in (True, fold (uartputc hw True) [120, 118, 54, 46, 46, 46, 10] h))"

section \<open>Lemmas\<close>

text \<open>The conversion from binary-coded decimal.\<close>

lemma CONV_bcd:
  assumes "a < 10" "b < 10"
  shows "CONV (of_nat (16 * a + b)) = of_nat (10 * a + b)"
proof -
  have "\<forall>a \<in> set [0..<10]. \<forall>b \<in> set [0..<10]. CONV (of_nat (16 * a + b)) = of_nat (10 * a + b)"
    by code_simp
  then show ?thesis
    using assms by simp
qed

text \<open>A stable reading repeats itself, and no update was in progress.\<close>

definition settled :: "port_hw \<Rightarrow> rtcdate \<times> io list \<Rightarrow> bool" where
  "settled hw y \<longleftrightarrow> (\<exists>h h1 a h2. fill_rtcdate hw h = (fst y, h1) \<and> cmos_read hw 0x0a h1 = (a, h2) \<and> a AND 0x80 = 0 \<and> fill_rtcdate hw h2 = y)"

lemma settledI:
  "fill_rtcdate hw h = (t, h1) \<Longrightarrow> cmos_read hw 0x0a h1 = (a, h2) \<Longrightarrow> a AND 0x80 = 0 \<Longrightarrow> fill_rtcdate hw h2 = (t, h3) \<Longrightarrow> settled hw (t, h3)"
  by (auto simp: settled_def)

lemma rtc_stable_settled: "rtc_stable hw h = Some y \<Longrightarrow> settled hw y"
  by (rule rtc_stable.raw_induct [of "\<lambda>hw h y. settled hw y", rotated], assumption) (auto split: prod.splits if_splits intro: settledI)

end
