(* ===== verification/Trap_c.thy ===== *)
theory Trap_c
  imports Exec_c Proc_table Kbd_c Apic_c
begin

text \<open>
  Traps (\<^verbatim>\<open>trap.c\<close>): the descriptor table, system calls, device interrupts and faults, with what \<^verbatim>\<open>console.c\<close> and \<^verbatim>\<open>proc.c\<close> do
  for an interrupt.  What \<^verbatim>\<open>trap\<close> does up to a call of \<^verbatim>\<open>sched\<close> is one function; after \<^verbatim>\<open>yield\<close> it goes on with
  \<^verbatim>\<open>trap_resume\<close>.
\<close>

unbundle bit_operations_syntax

section \<open>The descriptor table\<close>

text \<open>A gate descriptor as its bit fields.\<close>

definition STS_IG32 :: uint where "STS_IG32 = 0xE"
definition STS_TG32 :: uint where "STS_TG32 = 0xF"
definition SEG_KCODE :: uint where "SEG_KCODE = 1"
definition DPL_USER :: uint where "DPL_USER = 3"
definition T_SYSCALL :: uint where "T_SYSCALL = 64"

record gatedesc =
  off_15_0 :: uint
  gate_cs :: uint
  gate_args :: uint
  gate_rsv1 :: uint
  gate_type :: uint
  gate_s :: uint
  gate_dpl :: uint
  gate_p :: uint
  off_31_16 :: uint

definition SETGATE :: "bool \<Rightarrow> uint \<Rightarrow> uint \<Rightarrow> uint \<Rightarrow> gatedesc" where
  "SETGATE istrap sel off d =
     \<lparr>off_15_0 = off AND 0xffff, gate_cs = sel, gate_args = 0, gate_rsv1 = 0, gate_type = (if istrap then STS_TG32 else STS_IG32), gate_s = 0,
       gate_dpl = d, gate_p = 1, off_31_16 = drop_bit 16 off\<rparr>"

text \<open>The table for the entry points \<^verbatim>\<open>vectors\<close>, and the lock of the tick counter.\<close>

definition tvinit :: "(nat \<Rightarrow> uint) \<Rightarrow> gatedesc list \<times> spinlock" where
  "tvinit vectors =
     (let idt = map (\<lambda>i. SETGATE False (push_bit 3 SEG_KCODE) (vectors i) 0) [0..<256];
          n = unat T_SYSCALL
      in (idt[n := SETGATE True (push_bit 3 SEG_KCODE) (vectors n) DPL_USER], initlock ''time''))"

section \<open>State\<close>

text \<open>
  The kernel state with the address of the interrupt controller, the accesses to devices so far, the shift state of the keyboard,
  whether there is a serial port, and \<^verbatim>\<open>tickslock\<close>.
\<close>

record trapst = sysst +
  lapic :: addr
  ioh :: "io list"
  kbd_shift :: uint
  uart :: bool
  tickslock :: spinlock

section \<open>Interrupts\<close>

text \<open>The listing of \<^verbatim>\<open>procdump\<close>; the names of the states have six characters, so the name of the process is at address 8.\<close>

fun state_name :: "procstate \<Rightarrow> string" where
  "state_name UNUSED = ''unused''"
| "state_name EMBRYO = ''embryo''"
| "state_name SLEEPING = ''sleep ''"
| "state_name RUNNABLE = ''runble''"
| "state_name RUNNING = ''run   ''"
| "state_name ZOMBIE = ''zombie''"

definition procdump_one :: "nat \<Rightarrow> 'a sysst_scheme \<Rightarrow> 'a sysst_scheme res" where
  "procdump_one p s =
     (let x = procs s ! p; m = kmemory (km s) in
      if pstate x = UNUSED then Inr s
      else
        bindE (kprintf ''%d %s %s'' [bytes_of (state_name (pstate x)), pname x] [of_int (pid x), 1, 8] s) (\<lambda>s.
        bindE (if pstate x = SLEEPING then
                 foldE (\<lambda>pc. kprintf '' %p'' [] [pc]) (takeWhile (\<lambda>pc. pc \<noteq> 0) (getcallerpcs m (ld32 m (ctxt x + 12) + 8))) s
               else Inr s)
          (kprintf [CHR 0x0A] [] [])))"

definition procdump :: "'a sysst_scheme \<Rightarrow> 'a sysst_scheme res" where
  "procdump = foldE procdump_one [0..<NPROC]"

text \<open>The calls of \<^verbatim>\<open>getc\<close> by \<^verbatim>\<open>consoleintr\<close>, up to the one that gives a negative number.\<close>

partial_function (option) kbd_chars :: "port_hw \<Rightarrow> uint \<Rightarrow> io list \<Rightarrow> (int list \<times> uint \<times> io list) option" where
  "kbd_chars hw shift h =
     (case kbdgetc hw shift h of (c, shift, h) \<Rightarrow>
        if c < 0 then Some ([], shift, h)
        else Option.bind (kbd_chars hw shift h) (\<lambda>(cs, r). Some (c # cs, r)))"

partial_function (option) uart_chars :: "port_hw \<Rightarrow> bool \<Rightarrow> io list \<Rightarrow> (int list \<times> io list) option" where
  "uart_chars hw u h =
     (case uartgetc hw u h of (c, h) \<Rightarrow>
        if c < 0 then Some ([], h)
        else Option.bind (uart_chars hw u h) (\<lambda>(cs, r). Some (c # cs, r)))"

text \<open>
  \<^verbatim>\<open>consoleintr\<close> on those characters.  It wakes the readers whenever it moves \<^verbatim>\<open>input.w\<close>, all under \<^verbatim>\<open>cons.lock\<close>, and lists the
  processes at the end.
\<close>

definition console_intr :: "int list \<Rightarrow> 'a trapst_scheme \<Rightarrow> 'a trapst_scheme res" where
  "console_intr cs s =
     bindE (consoleintr cs False (console_st s)) (\<lambda>(dump, c).
       let t = s\<lparr>console_st := c\<rparr>;
           t = (if iw c \<noteq> iw (console_st s) then wakeup (ChAddr (sym_input_r t)) t else t)
       in if dump then procdump t else Inr t)"

definition kbdintr :: "port_hw \<Rightarrow> 'a trapst_scheme \<Rightarrow> 'a trapst_scheme res" where
  "kbdintr hw s =
     (case kbd_chars hw (kbd_shift s) (ioh s) of
        None \<Rightarrow> Inl Loops
      | Some (cs, shift, h) \<Rightarrow> console_intr cs (s\<lparr>kbd_shift := shift, ioh := h\<rparr>))"

definition uartintr :: "port_hw \<Rightarrow> 'a trapst_scheme \<Rightarrow> 'a trapst_scheme res" where
  "uartintr hw s =
     (case uart_chars hw (uart s) (ioh s) of
        None \<Rightarrow> Inl Loops
      | Some (cs, h) \<Rightarrow> console_intr cs (s\<lparr>ioh := h\<rparr>))"

text \<open>The handler of the in-memory disk.\<close>

definition ideintr :: "'a trapst_scheme \<Rightarrow> 'a trapst_scheme res" where
  "ideintr s = Inr s"

definition eoi :: "'a trapst_scheme \<Rightarrow> 'a trapst_scheme" where
  "eoi s = s\<lparr>ioh := lapiceoi (lapic s) (ioh s)\<rparr>"

definition tick :: "'a trapst_scheme \<Rightarrow> 'a trapst_scheme res" where
  "tick s =
     bindE (acquire (kme (km s)) (tickslock s) (kcpu (km s))) (\<lambda>(l, c).
       let s = s\<lparr>tickslock := l, km := (km s)\<lparr>kcpu := c\<rparr>, ticks := ticks s + 1\<rparr>;
           s = wakeup (ChAddr (sym_ticks s)) s
       in bindE (release (kme (km s)) (tickslock s) (kcpu (km s))) (\<lambda>(l, c).
            Inr (s\<lparr>tickslock := l, km := (km s)\<lparr>kcpu := c\<rparr>\<rparr>)))"

section \<open>Traps\<close>

text \<open>How a call of \<^verbatim>\<open>trap\<close> leaves the process: back where it was, gone, off the CPU but runnable, or asleep in a system call.\<close>

datatype trap_end = Returns | Exits | Yields | Sleeps

definition exits :: "nat \<Rightarrow> 'a trapst_scheme \<Rightarrow> (trap_end \<times> 'a trapst_scheme) res" where
  "exits p s = bindE (exit p s) (\<lambda>s. Inr (Exits, s))"

definition user_mode :: "trapframe \<Rightarrow> bool" where
  "user_mode f \<longleftrightarrow> tf_cs f AND 3 = 3"

definition exit_if_killed :: "trapframe \<Rightarrow> 'a trapst_scheme \<Rightarrow> (trap_end \<times> 'a trapst_scheme) res" where
  "exit_if_killed f s =
     (case myproc s of
        None \<Rightarrow> Inr (Returns, s)
      | Some p \<Rightarrow> if killed (procs s ! p) \<and> user_mode f then exits p s else Inr (Returns, s))"

definition trap_syscall :: "trapframe \<Rightarrow> 'a trapst_scheme \<Rightarrow> (trap_end \<times> 'a trapst_scheme) res" where
  "trap_syscall f s =
     (case myproc s of
        None \<Rightarrow> Inl Fault
      | Some p \<Rightarrow>
          if killed (procs s ! p) then exits p s
          else
            bindE (syscall p (upd_proc p (tf_update (\<lambda>_. f)) s)) (\<lambda>(r, s). case r of
              Gone \<Rightarrow> Inr (Exits, s)
            | Asleep \<Rightarrow> Inr (Sleeps, s)
            | Value _ \<Rightarrow>
                (case myproc s of
                   None \<Rightarrow> Inl Fault
                 | Some p \<Rightarrow> if killed (procs s ! p) then exits p s else Inr (Returns, s))))"

text \<open>The \<^verbatim>\<open>switch\<close>; \<^verbatim>\<open>cr2\<close> is the faulting address.\<close>

definition trap_switch :: "port_hw \<Rightarrow> uint \<Rightarrow> trapframe \<Rightarrow> 'a trapst_scheme \<Rightarrow> 'a trapst_scheme res" where
  "trap_switch hw cr2 f s =
     (let no = tf_trapno f; cpu = of_nat (kme (km s)) in
      if no = T_IRQ0 then bindE (if kme (km s) = 0 then tick s else Inr s) (\<lambda>s. Inr (eoi s))
      else if no = T_IRQ0 + 14 then bindE (ideintr s) (\<lambda>s. Inr (eoi s))
      else if no = T_IRQ0 + 15 then Inr s
      else if no = T_IRQ0 + 1 then bindE (kbdintr hw s) (\<lambda>s. Inr (eoi s))
      else if no = T_IRQ0 + 4 then bindE (uartintr hw s) (\<lambda>s. Inr (eoi s))
      else if no = T_IRQ0 + 7 \<or> no = T_IRQ0 + 31 then
        bindE (kprintf (''cpu%d: spurious interrupt at %x:%x'' @ [CHR 0x0A]) [] [cpu, ucast (tf_cs f), tf_eip f] s) (\<lambda>s. Inr (eoi s))
      else
        case (if tf_cs f AND 3 = 0 then None else myproc s) of
          None \<Rightarrow>
            bindE (kprintf (''unexpected trap %d from cpu %d eip %x (cr2=0x%x)'' @ [CHR 0x0A]) [] [no, cpu, tf_eip f, cr2] s)
              (\<lambda>_. Inl (Panic ''trap''))
        | Some p \<Rightarrow>
            bindE (kprintf (''pid %d %s: trap %d err %d on cpu %d eip 0x%x addr 0x%x--kill proc'' @ [CHR 0x0A]) [pname (procs s ! p)]
                    [of_int (pid (procs s ! p)), 1, no, tf_err f, cpu, tf_eip f, cr2] s)
              (\<lambda>s. Inr (upd_proc p (killed_update (\<lambda>_. True)) s)))"

definition trap :: "port_hw \<Rightarrow> uint \<Rightarrow> trapframe \<Rightarrow> 'a trapst_scheme \<Rightarrow> (trap_end \<times> 'a trapst_scheme) res" where
  "trap hw cr2 f s =
     (if tf_trapno f = T_SYSCALL then trap_syscall f s
      else
        bindE (trap_switch hw cr2 f s) (\<lambda>s.
        bindE (exit_if_killed f s) (\<lambda>(e, s).
          if e = Exits then Inr (e, s)
          else case myproc s of
            Some p \<Rightarrow>
              if pstate (procs s ! p) = RUNNING \<and> tf_trapno f = T_IRQ0 then Inr (Yields, yield p s) else exit_if_killed f s
          | None \<Rightarrow> exit_if_killed f s)))"

text \<open>The rest of \<^verbatim>\<open>trap\<close> when the process runs again after \<^verbatim>\<open>yield\<close>.\<close>

definition trap_resume :: "trapframe \<Rightarrow> 'a trapst_scheme \<Rightarrow> (trap_end \<times> 'a trapst_scheme) res" where
  "trap_resume = exit_if_killed"

section \<open>Lemmas\<close>

text \<open>Every gate leads to its entry point, and a program can raise only the one for system calls.\<close>

lemma tvinit_gates:
  assumes "i < 256"
  shows "push_bit 16 (off_31_16 (fst (tvinit v) ! i)) OR off_15_0 (fst (tvinit v) ! i) = v i"
    "gate_p (fst (tvinit v) ! i) = 1" "gate_dpl (fst (tvinit v) ! i) = DPL_USER \<longleftrightarrow> i = unat T_SYSCALL"
proof -
  have o: "push_bit 16 (drop_bit 16 x) OR (x AND 0xffff) = x" for x :: uint
  proof -
    have "(0xffff :: uint) = mask 16"
      by (simp add: mask_eq_exp_minus_1)
    then have "x AND 0xffff = take_bit 16 x"
      by (simp add: take_bit_eq_mask)
    then show ?thesis
      by (auto intro!: bit_word_eqI simp: bit_simps)
  qed
  have d: "DPL_USER \<noteq> 0" "unat T_SYSCALL < 256"
    by (simp_all add: DPL_USER_def T_SYSCALL_def)
  show "push_bit 16 (off_31_16 (fst (tvinit v) ! i)) OR off_15_0 (fst (tvinit v) ! i) = v i"
    using assms o d(2) by (simp add: tvinit_def Let_def SETGATE_def nth_list_update)
  show "gate_p (fst (tvinit v) ! i) = 1" "gate_dpl (fst (tvinit v) ! i) = DPL_USER \<longleftrightarrow> i = unat T_SYSCALL"
    using assms d by (auto simp: tvinit_def Let_def SETGATE_def nth_list_update)
qed

lemma exit_if_killed_returns:
  "exit_if_killed f s = Inr (Returns, t) \<Longrightarrow> t = s \<and> (\<forall>p. user_mode f \<and> myproc s = Some p \<longrightarrow> \<not> killed (procs s ! p))"
  by (auto simp: exit_if_killed_def exits_def bindE_eq_Inr split: option.splits if_splits)


lemma exit_if_killed_dead:
  "myproc s = Some p \<Longrightarrow> killed (procs s ! p) \<Longrightarrow> user_mode f \<Longrightarrow> exit_if_killed f s = exits p s"
  by (simp add: exit_if_killed_def)


section \<open>Properties\<close>

text \<open>
  A killed process does not get back to user space: whatever the trap, and also after \<^verbatim>\<open>yield\<close>, if \<^verbatim>\<open>trap\<close> returns to a process in
  user mode, that process is not marked as killed.
\<close>

lemma killed_never_resumes:
  assumes "user_mode f" "trap hw cr2 f s = Inr (Returns, t) \<or> trap_resume f s = Inr (Returns, t)" "myproc t = Some p"
  shows "\<not> killed (procs t ! p)"
proof -
  have *: "\<not> killed (procs t ! p)" if "exit_if_killed f u = Inr (Returns, t)" for u
    using exit_if_killed_returns [OF that] assms(1,3) by blast
  have "\<not> killed (procs t ! p)" if "trap_syscall f s = Inr (Returns, t)"
    using that assms(3) by (auto simp: trap_syscall_def exits_def bindE_eq_Inr split: option.splits if_splits outcome.splits)
  moreover have "\<not> killed (procs t ! p)" if "trap hw cr2 f s = Inr (Returns, t)" "tf_trapno f \<noteq> T_SYSCALL"
    using that * by (auto simp: trap_def bindE_eq_Inr split: option.splits if_splits)
  ultimately show ?thesis
    using assms(2) * by (auto simp: trap_def trap_resume_def split: if_splits)
qed


text \<open>A fault is never ignored: in user mode it ends the process that caused it, and in kernel mode \<^verbatim>\<open>trap\<close> never returns.\<close>

lemma fault_kills:
  assumes "tf_trapno f < T_IRQ0" "myproc s = Some p" "p < length (procs s)" "user_mode f" "trap hw cr2 f s = Inr (e, t)"
  shows "e = Exits"
proof -
  have k: "tf_cs f AND 3 \<noteq> 0"
    using assms(4) by (auto simp: user_mode_def)
  have n: "tf_trapno f \<notin> {T_SYSCALL, T_IRQ0, T_IRQ0 + 14, T_IRQ0 + 15, T_IRQ0 + 1, T_IRQ0 + 4, T_IRQ0 + 7, T_IRQ0 + 31}"
    using assms(1) by (auto simp: T_SYSCALL_def T_IRQ0_def)
  obtain u where u: "trap_switch hw cr2 f s = Inr u"
    using assms(5) n by (auto simp: trap_def bindE_eq_Inr)
  then have "myproc u = Some p \<and> killed (procs u ! p)"
    using assms(2,3) n k by (auto simp: trap_switch_def kprintf_def bindE_eq_Inr myproc_def upd_proc_def Let_def)
  then have "exit_if_killed f u = exits p u"
    using assms(4) by (simp add: exit_if_killed_dead)
  then show ?thesis
    using assms(5) n u by (auto simp: trap_def exits_def bindE_eq_Inr)
qed

lemma kernel_fault_panics:
  assumes "tf_trapno f < T_IRQ0" "tf_cs f AND 3 = 0"
  shows "\<exists>x. trap hw cr2 f s = Inl x"
proof -
  have "tf_trapno f \<notin> {T_SYSCALL, T_IRQ0, T_IRQ0 + 14, T_IRQ0 + 15, T_IRQ0 + 1, T_IRQ0 + 4, T_IRQ0 + 7, T_IRQ0 + 31}"
    using assms(1) by (auto simp: T_SYSCALL_def T_IRQ0_def)
  then show ?thesis
    using assms(2) by (simp add: trap_def trap_switch_def Let_def bindE_def split: sum.split)
qed

section \<open>Samples\<close>





end
