(* ===== verification/Mp_c.thy ===== *)
theory Mp_c
  imports Io String_c
begin

text \<open>
  Finding the processors (\<^verbatim>\<open>mp.c\<close>, \<^verbatim>\<open>mp.h\<close>) in the tables the BIOS leaves in memory.  The loop of \<^verbatim>\<open>mpinit\<close> over the
  entries of the configuration table may not end, in which case it has no value.
\<close>

unbundle bit_operations_syntax

section \<open>Definitions\<close>

definition NCPU :: nat where "NCPU = 8"

text \<open>\<^verbatim>\<open>sum\<close> of \<^verbatim>\<open>n\<close> bytes, cut to a byte as its result type is.\<close>

definition sum_bytes :: "mem \<Rightarrow> addr \<Rightarrow> nat \<Rightarrow> uchar" where
  "sum_bytes m a n = sum_list (rd m a n)"

definition ld16 :: "mem \<Rightarrow> addr \<Rightarrow> nat" where
  "ld16 m a = unat (m a) + 256 * unat (m (a + 1))"

text \<open>The floating pointer structure has 16 bytes; the table address is at 4, \<^verbatim>\<open>imcrp\<close> at 12.\<close>

definition mpsearch1 :: "mem \<Rightarrow> uint \<Rightarrow> nat \<Rightarrow> addr option" where
  "mpsearch1 m a len =
     (let ad = P2V a
      in map_option (\<lambda>k. ad + of_nat (16 * k))
           (find (\<lambda>k. rd m (ad + of_nat (16 * k)) 4 = [0x5F, 0x4D, 0x50, 0x5F] \<and> sum_bytes m (ad + of_nat (16 * k)) 16 = 0)
             [0..<(len + 15) div 16]))"

definition mpsearch :: "mem \<Rightarrow> addr option" where
  "mpsearch m =
     (let bda = P2V 0x400;
          p = push_bit 4 (push_bit 8 (ucast (m (bda + 0x0F))) OR ucast (m (bda + 0x0E))) :: uint;
          r = (if p \<noteq> 0 then mpsearch1 m p 1024
               else mpsearch1 m ((push_bit 8 (ucast (m (bda + 0x14))) OR ucast (m (bda + 0x13))) * 1024 - 1024) 1024)
      in case r of Some mp \<Rightarrow> Some mp | None \<Rightarrow> mpsearch1 m 0xF0000 0x10000)"

text \<open>The configuration table: length at 4, version at 6, the controller's address at 36, entries from 44 on.\<close>

definition mpconfig :: "mem \<Rightarrow> (addr \<times> addr) option" where
  "mpconfig m =
     (case mpsearch m of
        None \<Rightarrow> None
      | Some mp \<Rightarrow>
          let pa = ld32 m (mp + 4); conf = P2V pa in
          if pa = 0 then None
          else if rd m conf 4 \<noteq> [0x50, 0x43, 0x4D, 0x50] then None
          else if m (conf + 6) \<noteq> 1 \<and> m (conf + 6) \<noteq> 4 then None
          else if sum_bytes m conf (ld16 m (conf + 4)) \<noteq> 0 then None
          else Some (conf, mp))"

record mpst =
  apicids :: "uchar list"
  ioapicid :: uchar
  ismp :: bool

definition MPPROC :: uchar where "MPPROC = 0"
definition MPBUS :: uchar where "MPBUS = 1"
definition MPIOAPIC :: uchar where "MPIOAPIC = 2"
definition MPIOINTR :: uchar where "MPIOINTR = 3"
definition MPLINTR :: uchar where "MPLINTR = 4"

text \<open>
  The loop from \<^verbatim>\<open>p\<close> to \<^verbatim>\<open>e\<close>.  In the default case the \<^verbatim>\<open>break\<close> leaves the \<^verbatim>\<open>switch\<close>, not the loop, and \<^verbatim>\<open>p\<close> stays where it is.
\<close>

partial_function (option) mp_loop :: "mem \<Rightarrow> addr \<Rightarrow> addr \<Rightarrow> mpst \<Rightarrow> mpst option" where
  "mp_loop m e p s =
     (if \<not> p < e then Some s
      else if m p = MPPROC then
        mp_loop m e (p + 20) (if length (apicids s) < NCPU then s\<lparr>apicids := apicids s @ [m (p + 1)]\<rparr> else s)
      else if m p = MPIOAPIC then mp_loop m e (p + 8) (s\<lparr>ioapicid := m (p + 1)\<rparr>)
      else if m p = MPBUS \<or> m p = MPIOINTR \<or> m p = MPLINTR then mp_loop m e (p + 8) s
      else mp_loop m e p (s\<lparr>ismp := False\<rparr>))"

text \<open>\<^verbatim>\<open>mpinit\<close>: the processors, the controller's address and the accesses to the interrupt mode register.\<close>

definition mpinit :: "port_hw \<Rightarrow> mem \<Rightarrow> io list \<Rightarrow> (mpst \<times> addr \<times> io list) res" where
  "mpinit hw m h =
     (case mpconfig m of
        None \<Rightarrow> Inl (Panic ''Expect to run on an SMP'')
      | Some (conf, mp) \<Rightarrow>
          (case mp_loop m (conf + of_nat (ld16 m (conf + 4))) (conf + 44) \<lparr>apicids = [], ioapicid = 0, ismp = True\<rparr> of
             None \<Rightarrow> Inl Loops
           | Some s \<Rightarrow>
               if \<not> ismp s then Inl (Panic ''Didn't find a suitable machine'')
               else
                 let lapic = ld32 m (conf + 36) in
                 if m (mp + 12) \<noteq> 0 then
                   case inb hw 0x23 (outb 0x22 0x70 h) of (v, h) \<Rightarrow> Inr (s, lapic, outb 0x23 (v OR 1) h)
                 else Inr (s, lapic, h)))"

section \<open>The table loop\<close>

definition entry_size :: "uchar \<Rightarrow> uint option" where
  "entry_size t = (if t = MPPROC then Some 20 else if t \<in> {MPBUS, MPIOAPIC, MPIOINTR, MPLINTR} then Some 8 else None)"

lemma mp_loop_result: "mp_loop m e p s = Some y \<Longrightarrow> (p < e \<longrightarrow> entry_size (m p) \<noteq> None) \<and> (ismp s \<longrightarrow> ismp y)"
proof (rule mp_loop.raw_induct [of "\<lambda>m e p s y. (p < e \<longrightarrow> entry_size (m p) \<noteq> None) \<and> (ismp s \<longrightarrow> ismp y)"])
  fix f m e p s y
  assume IH: "\<And>m e p s y. f m e p s = Some y \<Longrightarrow> (p < e \<longrightarrow> entry_size (m p) \<noteq> None) \<and> (ismp s \<longrightarrow> ismp y)"
    and b: "(if \<not> p < e then Some s
      else if m p = MPPROC then f m e (p + 20) (if length (apicids s) < NCPU then s\<lparr>apicids := apicids s @ [m (p + 1)]\<rparr> else s)
      else if m p = MPIOAPIC then f m e (p + 8) (s\<lparr>ioapicid := m (p + 1)\<rparr>)
      else if m p = MPBUS \<or> m p = MPIOINTR \<or> m p = MPLINTR then f m e (p + 8) s
      else f m e p (s\<lparr>ismp := False\<rparr>)) = Some y"
  have "entry_size (m p) \<noteq> None" if p: "p < e"
  proof
    assume n: "entry_size (m p) = None"
    then have "f m e p (s\<lparr>ismp := False\<rparr>) = Some y"
      using b p by (simp add: entry_size_def split: if_splits)
    then show False
      using IH n p by blast
  qed
  moreover have "ismp y" if "ismp s"
    using b that calculation by (simp add: entry_size_def split: if_splits) (auto dest!: IH)
  ultimately show "(p < e \<longrightarrow> entry_size (m p) \<noteq> None) \<and> (ismp s \<longrightarrow> ismp y)"
    by blast
qed

text \<open>The entries the loop comes to.\<close>

inductive at_entry :: "mem \<Rightarrow> addr \<Rightarrow> addr \<Rightarrow> addr \<Rightarrow> bool" for m e where
  here: "at_entry m e p p"
| there: "p < e \<Longrightarrow> entry_size (m p) = Some k \<Longrightarrow> at_entry m e (p + k) q \<Longrightarrow> at_entry m e p q"

lemma mp_loop_entry: "p < e \<Longrightarrow> entry_size (m p) = Some k \<Longrightarrow> \<exists>t. mp_loop m e p s = mp_loop m e (p + k) t"
  by (subst mp_loop.simps) (auto simp: entry_size_def split: if_splits)

lemma mp_loop_hangs: "at_entry m e p q \<Longrightarrow> q < e \<Longrightarrow> entry_size (m q) = None \<Longrightarrow> mp_loop m e p s = None"
proof (induction arbitrary: s rule: at_entry.induct)
  case (here p)
  then show ?case
    using mp_loop_result [of m e p s] by (cases "mp_loop m e p s") auto
next
  case (there p k q)
  then show ?case
    using mp_loop_entry [of p e m k s] by metis
qed

section \<open>Properties\<close>

text \<open>
  C39: The test for an unsuitable machine in \<^verbatim>\<open>mpinit\<close> can never report anything: an entry of unknown type in the configuration
  table clears \<^verbatim>\<open>ismp\<close>, but the \<^verbatim>\<open>break\<close> that follows leaves only the \<^verbatim>\<open>switch\<close>, and the loop looks at the same entry for
  ever.  So \<^verbatim>\<open>mpinit\<close> never panics with that message, and hangs on every table with such an entry.
\<close>

theorem mpinit_unknown_entry_hangs:
  "mpinit hw m h \<noteq> Inl (Panic ''Didn't find a suitable machine'') \<and>
   (\<forall>conf mp q. mpconfig m = Some (conf, mp) \<and> at_entry m (conf + of_nat (ld16 m (conf + 4))) (conf + 44) q \<and>
      q < conf + of_nat (ld16 m (conf + 4)) \<and> m q \<notin> {MPPROC, MPBUS, MPIOAPIC, MPIOINTR, MPLINTR} \<longrightarrow> mpinit hw m h = Inl Loops)"
proof (intro conjI allI impI)
  show "mpinit hw m h \<noteq> Inl (Panic ''Didn't find a suitable machine'')"
    using mp_loop_result by (fastforce simp: mpinit_def Let_def split: option.splits prod.splits if_splits)
next
  fix conf mp q
  assume a: "mpconfig m = Some (conf, mp) \<and> at_entry m (conf + of_nat (ld16 m (conf + 4))) (conf + 44) q \<and>
      q < conf + of_nat (ld16 m (conf + 4)) \<and> m q \<notin> {MPPROC, MPBUS, MPIOAPIC, MPIOINTR, MPLINTR}"
  then have "mp_loop m (conf + of_nat (ld16 m (conf + 4))) (conf + 44) \<lparr>apicids = [], ioapicid = 0, ismp = True\<rparr> = None"
    by (intro mp_loop_hangs [of m _ _ q]) (auto simp: entry_size_def)
  then show "mpinit hw m h = Inl Loops"
    using a by (simp add: mpinit_def)
qed

text \<open>A machine with one entry of type 0x80.\<close>

definition odd_bios :: mem where
  "odd_bios a =
     (if a = P2V 0x40E then 0xC0 else if a = P2V 0x40F then 0x9F
      else
        let k = unat (a - P2V 0x9FC00)
            ; bs = [95, 77, 80, 95, 16, 252, 9, 0, 1, 4, 139, 0, 0, 0, 0, 0, 80, 67, 77, 80, 45, 0, 1, 67, 0, 0, 0, 0, 0, 0, 0, 0, 0, 0, 0, 0, 0, 0, 0, 0, 0, 0, 0, 0, 0, 0, 0, 0, 0, 0, 1, 0, 0, 0, 224, 254, 0, 0, 0, 0, 128]
        in if k < length bs then bs ! k else 0)"

lemma odd_bios_table: "mpconfig odd_bios = Some (0x8009FC10, 0x8009FC00)"
  by code_simp

lemma odd_bios_entry: "ld16 odd_bios (0x8009FC10 + 4) = 45" "odd_bios 0x8009FC3C = 128"
  by code_simp+

theorem mpinit_unknown_entry_hangs_witness: "mpinit (\<lambda>h p. 0) odd_bios [] = Inl Loops"
proof -
  have "at_entry odd_bios (0x8009FC10 + of_nat 45) (0x8009FC10 + 44) (0x8009FC10 + 44)"
    by (rule here)
  then show ?thesis
    using mpinit_unknown_entry_hangs [of "\<lambda>h p. 0" odd_bios "[]", THEN conjunct2, rule_format, of "0x8009FC10" "0x8009FC00" "0x8009FC3C"]
      odd_bios_table odd_bios_entry
    by (simp add: MPPROC_def MPBUS_def MPIOAPIC_def MPIOINTR_def MPLINTR_def)
qed

end
