(* ===== verification/Spec2Isabelle.thy ===== *)
theory Spec2Isabelle
  imports Exec_c Fs_files Vm_fork Syscall_args Cmds_c Sh_c Trap_c Mp_c
begin

text \<open>
  Verification of the kernel, the shell and the small programs of this repository, a Unix-like teaching system
  for the 32-bit x86 written in C.  The theories translate the C sources under \<^verbatim>\<open>src/\<close> function by
  function into executable definitions and prove what makes each part correct.

  CONVENTIONS.  \<^verbatim>\<open>Prelude\<close> has what all parts share.  \<^verbatim>\<open>uint\<close>, \<^verbatim>\<open>uchar\<close> and \<^verbatim>\<open>ushort\<close> are words of
  32, 8 and 16 bits, so arithmetic on them wraps around as in C; an \<^verbatim>\<open>int\<close> of the source is an integer where the code keeps
  it small.  A function that can stop returns \<^verbatim>\<open>stop + 'a\<close>: \<^verbatim>\<open>Panic msg\<close> is a call of \<^verbatim>\<open>panic\<close>, \<^verbatim>\<open>Waits\<close> a call that would sleep or
  spin until another process or CPU acts, \<^verbatim>\<open>Loops\<close> a loop that does not end, \<^verbatim>\<open>Fault\<close> an access that the source leaves
  undefined (a null pointer, an index out of range).  The bind \<^verbatim>\<open>bindE\<close> passes the first such value on.  State is a record
  passed along.  Pointers into the kernel's tables are indices; pages and page tables are bytes of a memory indexed by
  addresses.  The state of one layer extends that of the layer below: \<^verbatim>\<open>bcache\<close> (buffers and disk), \<^verbatim>\<open>logst\<close>, \<^verbatim>\<open>fsst\<close>
  (superblock and inode cache), \<^verbatim>\<open>filest\<close> (files, pipes, memory), \<^verbatim>\<open>procst\<close> (process table), \<^verbatim>\<open>sysst\<close> (console and ticks), \<^verbatim>\<open>trapst\<close>
  (device history, interrupt state), so that each C function applies to every larger state.

  PARTS AND THEORIES.
  \<^verbatim>\<open>String_c\<close>: \<^verbatim>\<open>string.c\<close> over byte-addressed memory; \<^verbatim>\<open>memmove\<close> copies what was there before for every overlap.
  \<^verbatim>\<open>Spinlock_c\<close>: \<^verbatim>\<open>spinlock.c\<close> as functions of one CPU, and a step relation of any number of CPUs that interleaves at the accesses
  to the lock; mutual exclusion with interrupts off.  \<^verbatim>\<open>Sleeplock_c\<close>: \<^verbatim>\<open>sleeplock.c\<close> in the reading of one process.
  \<^verbatim>\<open>Mmu_h\<close>: \<^verbatim>\<open>mmu.h\<close>, \<^verbatim>\<open>memlayout.h\<close>.  \<^verbatim>\<open>Kalloc_c\<close>: \<^verbatim>\<open>kalloc.c\<close> with the free list threaded through the pages; the locale
  \<^verbatim>\<open>page_allocator\<close> is its contract, a stack of pages, and boot frees every page of memory once.
  \<^verbatim>\<open>Vm_c\<close>: \<^verbatim>\<open>vm.c\<close>.  \<^verbatim>\<open>Vm_spaces\<close> gives a page directory in memory its meaning as a translation and shows what \<^verbatim>\<open>walkpgdir\<close> and
  \<^verbatim>\<open>mappages\<close> do to it; \<^verbatim>\<open>Vm_user\<close> has \<^verbatim>\<open>allocuvm\<close>, \<^verbatim>\<open>deallocuvm\<close> and \<^verbatim>\<open>freevm\<close>; \<^verbatim>\<open>Vm_fork\<close> has \<^verbatim>\<open>setupkvm\<close> and \<^verbatim>\<open>copyuvm\<close>, with the exact
  number of free pages each needs.
  \<^verbatim>\<open>Block_store\<close>: the contract of the buffer cache as a locale, with the sequences of operations its clients use.  \<^verbatim>\<open>Bio_c\<close>:
  \<^verbatim>\<open>bio.c\<close> with its doubly linked list over the driver \<^verbatim>\<open>memide.c\<close>; it interprets that locale, and shows that a cached
  block is what the last writer left and that the buffer recycled is the least recently used one.
  \<^verbatim>\<open>Log_c\<close>: \<^verbatim>\<open>log.c\<close>.  The disk keeps the sequence of its writes, a crash is a prefix of it; commit and recovery are atomic under
  crashes.  A step relation of operations shows when the space that \<^verbatim>\<open>begin_op\<close> reserves is enough, and that it is not
  for operations that use all they are allowed.
  \<^verbatim>\<open>Fs_h\<close>: the on-disk format of \<^verbatim>\<open>fs.h\<close>.  \<^verbatim>\<open>Fs_c\<close>: all of \<^verbatim>\<open>fs.c\<close>.  \<^verbatim>\<open>Fs_blocks\<close>, \<^verbatim>\<open>Fs_inodes\<close>, \<^verbatim>\<open>Fs_files\<close> show its block allocation, the
  inode cache and the inodes on disk, reading, directory lookup and the splitting of paths.
  \<^verbatim>\<open>Ring\<close>: ring buffers with free-running 32-bit counters, as a locale that \<^verbatim>\<open>Pipe_c\<close> and \<^verbatim>\<open>Console_c\<close> interpret.
  \<^verbatim>\<open>Pipe_c\<close>: \<^verbatim>\<open>pipe.c\<close> by turns between two sleeps, and a step relation of readers, writers, closes and kills: order of bytes,
  no lost wakeup, and the wakeup a killed writer omits.
  \<^verbatim>\<open>Console_c\<close>: \<^verbatim>\<open>console.c\<close> with formatted output, screen, line editing and reading.
  \<^verbatim>\<open>File_c\<close>: \<^verbatim>\<open>file.c\<close> and \<^verbatim>\<open>pipealloc\<close>.  \<^verbatim>\<open>Proc_c\<close>: \<^verbatim>\<open>proc.c\<close>, a function that calls \<^verbatim>\<open>sched\<close> being cut there in two.  \<^verbatim>\<open>Proc_table\<close>: a step relation
  whose steps are the critical sections of \<^verbatim>\<open>ptable.lock\<close>, with the invariants that tie running processes to CPUs and
  children to parents.
  \<^verbatim>\<open>Syscall_c\<close>, \<^verbatim>\<open>Syscall_args\<close>: \<^verbatim>\<open>syscall.c\<close>, \<^verbatim>\<open>sysproc.c\<close> and the file calls of \<^verbatim>\<open>sysfile.c\<close>, with the bounds of argument checks.
  \<^verbatim>\<open>Sysfile_c\<close>: the calls of \<^verbatim>\<open>sysfile.c\<close> that change the name space.  \<^verbatim>\<open>Exec_c\<close>: \<^verbatim>\<open>exec.c\<close>, \<^verbatim>\<open>loaduvm\<close> and the dispatch of system calls.
  \<^verbatim>\<open>Trap_c\<close>: \<^verbatim>\<open>trap.c\<close>, with \<^verbatim>\<open>procdump\<close>, \<^verbatim>\<open>kbdintr\<close>, \<^verbatim>\<open>uartintr\<close> and what \<^verbatim>\<open>consoleintr\<close> does to other components.
  \<^verbatim>\<open>Io\<close>: port and device memory accesses as a history; what the hardware answers is an argument, a function of the history.
  \<^verbatim>\<open>Kbd_c\<close>: \<^verbatim>\<open>kbd.c\<close>.  \<^verbatim>\<open>Apic_c\<close>: \<^verbatim>\<open>lapic.c\<close>, \<^verbatim>\<open>ioapic.c\<close>, \<^verbatim>\<open>picirq.c\<close>, \<^verbatim>\<open>uart.c\<close>.  \<^verbatim>\<open>Mp_c\<close>: \<^verbatim>\<open>mp.c\<close>.
  \<^verbatim>\<open>Ulib_c\<close>, \<^verbatim>\<open>Printf_c\<close>: \<^verbatim>\<open>ulib.c\<close> and \<^verbatim>\<open>printf.c\<close>; numbers printed are read back.  \<^verbatim>\<open>Grep_c\<close>: \<^verbatim>\<open>grep.c\<close>, whose matcher agrees with the
  language of its pattern.  \<^verbatim>\<open>Cmds_c\<close>: the other small programs.  \<^verbatim>\<open>Sh_c\<close>: \<^verbatim>\<open>sh.c\<close>; the parser returns on every line.

  HOW THE PARTS INTERACT.  A trap enters at \<^verbatim>\<open>trap\<close> of \<^verbatim>\<open>Trap_c\<close>, which calls \<^verbatim>\<open>syscall\<close> of \<^verbatim>\<open>Exec_c\<close> and from there the \<^verbatim>\<open>sys_\<close> functions;
  these work on files (\<^verbatim>\<open>File_c\<close>), which dispatch to pipes, to the console and to inodes (\<^verbatim>\<open>Fs_c\<close>); inode operations run inside
  \<^verbatim>\<open>begin_op\<close> and \<^verbatim>\<open>end_op\<close> of \<^verbatim>\<open>Log_c\<close>, and read and write blocks through \<^verbatim>\<open>bread\<close>, \<^verbatim>\<open>bwrite\<close> and \<^verbatim>\<open>brelse\<close> of \<^verbatim>\<open>Bio_c\<close>.  \<^verbatim>\<open>fork\<close>, \<^verbatim>\<open>exec\<close> and \<^verbatim>\<open>growproc\<close> use \<^verbatim>\<open>Vm_c\<close>,
  which takes pages from \<^verbatim>\<open>Kalloc_c\<close>.  Sleeping and waking go through the process table of \<^verbatim>\<open>Proc_c\<close>.

  LOCALES.  \<^verbatim>\<open>stepwise_invariant\<close> (a step relation with a predicate it keeps) is interpreted on the steps of locks, log
  operations, pipes and processes; \<^verbatim>\<open>ring_buffer\<close> on the buffers of pipes and console; \<^verbatim>\<open>page_allocator\<close> on \<^verbatim>\<open>kalloc\<close> and
  \<^verbatim>\<open>kfree\<close>; \<^verbatim>\<open>block_store\<close> on \<^verbatim>\<open>bread\<close>, \<^verbatim>\<open>bwrite\<close> and \<^verbatim>\<open>brelse\<close>.

  BOUNDS AND FUEL.  Loops with a bound are recursions with a measure.  The parser of the shell runs on four units of fuel for
  each character and four more, and never runs out.  The string scans of \<^verbatim>\<open>String_c\<close>, the loop of \<^verbatim>\<open>mpinit\<close> over its table, the opening of the console by the
  shell and the loops that wait for hardware (\<^verbatim>\<open>Apic_c\<close>, \<^verbatim>\<open>Trap_c\<close>) are partial functions whose value \<^verbatim>\<open>None\<close> is a loop that does not end.

  ABSTRACTIONS.
  A critical section is one step: the locks inside \<^verbatim>\<open>bio.c\<close>, \<^verbatim>\<open>log.c\<close>, \<^verbatim>\<open>fs.c\<close>, \<^verbatim>\<open>file.c\<close> and the lock of the process table are not
  fields, and \<^verbatim>\<open>fork\<close> is one step of the process table although it lets go of the lock between allocating the child and making
  it runnable.  \<^verbatim>\<open>holding\<close> reads the two fields of a lock at once.  In \<^verbatim>\<open>log_write\<close> the test of the size, which the source makes before it takes the
  lock, belongs to that step.  The counters of the log and \<^verbatim>\<open>nextpid\<close> are integers without bound; \<^verbatim>\<open>balloc\<close> counts blocks in
  natural numbers.  The record of the CPU in use and the page table register are those of the CPU that runs.  \<^verbatim>\<open>exit\<close> leaves the
  index of the working directory in the dead process, where it is not read.  The messages of \<^verbatim>\<open>allocuvm\<close> are left out.  \<^verbatim>\<open>malloc\<close> in
  the shell is taken to succeed.

  NOT MODELLED.  The assembly (\<^verbatim>\<open>bootasm.S\<close>, \<^verbatim>\<open>entry.S\<close>, \<^verbatim>\<open>entryother.S\<close>, \<^verbatim>\<open>trapasm.S\<close>, \<^verbatim>\<open>swtch.S\<close>, \<^verbatim>\<open>initcode.S\<close>, \<^verbatim>\<open>usys.S\<close>), \<^verbatim>\<open>bootmain.c\<close> and \<^verbatim>\<open>main.c\<close>, which run before
  there is a kernel state or only call the initialisers; \<^verbatim>\<open>seginit\<close> and \<^verbatim>\<open>lidt\<close>, which load processor registers; \<^verbatim>\<open>ide.c\<close>, in place of
  which the build may use \<^verbatim>\<open>memide.c\<close>; \<^verbatim>\<open>mkfs.c\<close>, a program of the host; \<^verbatim>\<open>umalloc.c\<close>, \<^verbatim>\<open>init.c\<close>, \<^verbatim>\<open>zombie.c\<close> and the listing of \<^verbatim>\<open>ls.c\<close>; the test
  programs; \<^verbatim>\<open>extensions.c\<close>, unfinished code that takes and releases a lock and returns null.
\<close>

end
